(* ===== verification/Prelude.thy ===== *)
theory Prelude
  imports Main "HOL-Library.Word"
begin

text \<open>
  Shared vocabulary of the development: the machine integers of \<^verbatim>\<open>kernel/types.h\<close>,
  the outcome monad in which kernel code is written, little-endian encoding of integers in
  byte arrays, and the generic lemmas the components use.

  A kernel operation takes the kernel state and has one of three outcomes.
  \<open>Ok a s\<close> is a normal return with value \<open>a\<close> in state \<open>s\<close>; \<open>Panic msg\<close> is a call of
  \<^verbatim>\<open>panic(msg)\<close>, which never returns; \<open>Block c s\<close> means that the thread has gone to
  sleep on channel \<open>c\<close>, leaving the kernel in state \<open>s\<close>.  The code between an
  \<^verbatim>\<open>acquire\<close> and the matching \<^verbatim>\<open>release\<close> runs as one atomic step.
\<close>

unbundle bit_operations_syntax

named_theorems K_defs \<open>definitions of the monad's primitive operations\<close>
named_theorems enc_simps \<open>reading back encoded integers\<close>
named_theorems wp \<open>total-correctness rules of the monad\<close>

section \<open>Machine integers\<close>

type_synonym u8 = "8 word"
type_synonym u16 = "16 word"
type_synonym u32 = "32 word"
type_synonym u64 = "64 word"
type_synonym bytes = "u8 list"

text \<open>Physical memory: one byte per 64-bit address.\<close>

type_synonym mem = "u64 \<Rightarrow> u8"

section \<open>The outcome monad\<close>

text \<open>The objects on whose address a kernel thread sleeps (\<^verbatim>\<open>void *chan\<close>); \<open>ChSched\<close> stands
  for a thread that left the CPU without waiting for anything.\<close>

datatype sleepid = SlBuf nat | SlInode nat

datatype chan = ChLog | ChTicks | ChProc nat | ChSleeplock sleepid | ChBuf nat
  | ChPipeRead u64 | ChPipeWrite u64 | ChConsR | ChUartTx | ChDiskFree | ChSched

text \<open>The kernel's spin locks.\<close>

datatype lockid = LkKmem | LkBcache | LkLog | LkItable | LkFtable | LkPipe u64 | LkProc nat
  | LkWait | LkPid | LkTicks | LkCons | LkUart | LkVdisk | LkPr | LkSleep sleepid

datatype ('a, 's) outcome = Ok 'a 's | Panic string | Block chan 's

type_synonym ('s, 'a) K = "'s \<Rightarrow> ('a, 's) outcome"

definition returnK :: "'a \<Rightarrow> ('s, 'a) K" where
  "returnK a = (\<lambda>s. Ok a s)"

definition bindK :: "('s, 'a) K \<Rightarrow> ('a \<Rightarrow> ('s, 'b) K) \<Rightarrow> ('s, 'b) K" where
  "bindK m f = (\<lambda>s. case m s of Ok a t \<Rightarrow> f a t | Panic e \<Rightarrow> Panic e | Block c t \<Rightarrow> Block c t)"

definition thenK :: "('s, 'a) K \<Rightarrow> ('s, 'b) K \<Rightarrow> ('s, 'b) K" where
  "thenK m n = bindK m (\<lambda>_. n)"

definition panicK :: "string \<Rightarrow> ('s, 'a) K" where
  "panicK e = (\<lambda>s. Panic e)"

definition getK :: "('s \<Rightarrow> 'a) \<Rightarrow> ('s, 'a) K" where
  "getK f = (\<lambda>s. Ok (f s) s)"

definition modifyK :: "('s \<Rightarrow> 's) \<Rightarrow> ('s, unit) K" where
  "modifyK f = (\<lambda>s. Ok () (f s))"

text \<open>\<open>panic_if b msg\<close> is \<^verbatim>\<open>if(b) panic(msg);\<close>.\<close>

definition panic_if :: "bool \<Rightarrow> string \<Rightarrow> ('s, unit) K" where
  "panic_if b e = (if b then panicK e else returnK ())"

definition whenK :: "bool \<Rightarrow> ('s, unit) K \<Rightarrow> ('s, unit) K" where
  "whenK b m = (if b then m else returnK ())"

text \<open>A sequence of statements, and a loop over a list of indices.\<close>

primrec seqK :: "('s, unit) K list \<Rightarrow> ('s, unit) K" where
  "seqK [] = returnK ()"
| "seqK (m # ms) = thenK m (seqK ms)"

primrec forK :: "'i list \<Rightarrow> ('i \<Rightarrow> ('s, unit) K) \<Rightarrow> ('s, unit) K" where
  "forK [] body = returnK ()"
| "forK (i # is) body = thenK (body i) (forK is body)"

text \<open>A loop whose body may return from the function: \<open>Some v\<close> leaves the loop, \<open>None\<close> goes on.\<close>

primrec loopK :: "'i list \<Rightarrow> ('i \<Rightarrow> ('s, 'a option) K) \<Rightarrow> ('s, 'a option) K" where
  "loopK [] body = returnK None"
| "loopK (i # is) body = bindK (body i) (\<lambda>r. case r of None \<Rightarrow> loopK is body | Some v \<Rightarrow> returnK (Some v))"

declare returnK_def [K_defs] bindK_def [K_defs] thenK_def [K_defs] panicK_def [K_defs]
  getK_def [K_defs] modifyK_def [K_defs] panic_if_def [K_defs] whenK_def [K_defs]

lemma bindK_Ok: "m s = Ok a t \<Longrightarrow> bindK m f s = f a t"
  by (simp add: bindK_def)

lemma thenK_Ok: "m s = Ok a t \<Longrightarrow> thenK m n s = n t"
  by (simp add: thenK_def bindK_def)

lemma bindK_eq_Ok:
  "bindK m f s = Ok b u \<longleftrightarrow> (\<exists>a t. m s = Ok a t \<and> f a t = Ok b u)"
  by (auto simp: bindK_def split: outcome.splits)

lemma thenK_eq_Ok:
  "thenK m n s = Ok b u \<longleftrightarrow> (\<exists>a t. m s = Ok a t \<and> n t = Ok b u)"
  by (simp add: thenK_def bindK_eq_Ok)

lemma bindK_assoc: "bindK (bindK m f) g = bindK m (\<lambda>x. bindK (f x) g)"
  by (rule ext) (simp add: bindK_def split: outcome.splits)

lemma bindK_returnK [simp]: "bindK (returnK a) f = f a" "bindK m returnK = m"
  by (rule ext, simp add: bindK_def returnK_def split: outcome.splits)+

lemma bindK_getK: "bindK (getK f) g s = g (f s) s"
  by (simp add: bindK_def getK_def)

lemma thenK_modifyK: "thenK (modifyK f) m s = m (f s)"
  by (simp add: thenK_def bindK_def modifyK_def)

lemma thenK_panic_if: "thenK (panic_if b e) m s = (if b then Panic e else m s)"
  by (simp add: thenK_def bindK_def panic_if_def panicK_def returnK_def)

lemmas run_simps = bindK_getK thenK_modifyK thenK_panic_if

lemma thenK_thenK_Ok: "thenK m n s = Ok a t \<Longrightarrow> thenK m (thenK n k) s = k t"
  by (auto simp: thenK_def bindK_def split: outcome.splits)

lemma thenK_returnK [simp]: "thenK (m :: ('s, unit) K) (returnK ()) = m"
  by (rule ext) (simp add: thenK_def bindK_def returnK_def split: outcome.splits)

lemma forK_append: "forK (xs @ ys) body = thenK (forK xs body) (forK ys body)"
  by (induction xs) (simp_all add: thenK_def bindK_assoc)

subsection \<open>Total correctness\<close>

text \<open>
  \<open>holds P m Q\<close>: from every state satisfying \<open>P\<close>, \<open>m\<close> returns normally (it neither panics
  nor blocks), and value and final state satisfy \<open>Q\<close>.  \<open>keeps I m\<close>: if \<open>m\<close> returns
  normally from a state satisfying \<open>I\<close>, the final state satisfies \<open>I\<close>.
\<close>

definition holds :: "('s \<Rightarrow> bool) \<Rightarrow> ('s, 'a) K \<Rightarrow> ('a \<Rightarrow> 's \<Rightarrow> bool) \<Rightarrow> bool" where
  "holds P m Q \<longleftrightarrow> (\<forall>s. P s \<longrightarrow> (\<exists>a t. m s = Ok a t \<and> Q a t))"

definition keeps :: "('s \<Rightarrow> bool) \<Rightarrow> ('s, 'a) K \<Rightarrow> bool" where
  "keeps I m \<longleftrightarrow> (\<forall>s a t. I s \<longrightarrow> m s = Ok a t \<longrightarrow> I t)"

lemma forK_upt:
  assumes "\<And>i. i < n \<Longrightarrow> f i (S i) = Ok () (S (Suc i))"
  shows "forK [0..<n] f (S 0) = Ok () (S n)"
  using assms
proof (induction n)
  case 0
  show ?case by (simp add: returnK_def)
next
  case (Suc n)
  have IH: "forK [0..<n] f (S 0) = Ok () (S n)" using Suc by simp
  show ?case using Suc.prems [of n] by (simp add: forK_append thenK_def bindK_def IH returnK_def)
qed

lemma holdsD: "holds P m Q \<Longrightarrow> P s \<Longrightarrow> \<exists>a t. m s = Ok a t \<and> Q a t"
  by (simp add: holds_def)

lemma holds_return [wp]: "(\<And>s. P s \<Longrightarrow> Q a s) \<Longrightarrow> holds P (returnK a) Q"
  by (simp add: holds_def returnK_def)

lemma holds_get [wp]: "(\<And>s. P s \<Longrightarrow> Q (f s) s) \<Longrightarrow> holds P (getK f) Q"
  by (simp add: holds_def getK_def)

lemma holds_modify [wp]: "(\<And>s. P s \<Longrightarrow> Q () (f s)) \<Longrightarrow> holds P (modifyK f) Q"
  by (simp add: holds_def modifyK_def)

lemma holds_bind [wp]:
  assumes "holds P m R" and "\<And>a. holds (R a) (f a) Q"
  shows "holds P (bindK m f) Q"
  using assms unfolding holds_def by (metis bindK_Ok)

lemma holds_then [wp]:
  assumes "holds P m (\<lambda>_. R)" and "holds R n Q"
  shows "holds P (thenK m n) Q"
  using assms unfolding holds_def by (metis thenK_Ok)

lemma holds_weaken:
  assumes "holds P' m Q'" and "\<And>s. P s \<Longrightarrow> P' s" and "\<And>a t. Q' a t \<Longrightarrow> Q a t"
  shows "holds P m Q"
  using assms unfolding holds_def by metis

text \<open>A loop invariant indexed by the part of the list already processed.\<close>

lemma holds_for:
  assumes "\<And>k. k < length xs \<Longrightarrow> holds (I k) (body (xs ! k)) (\<lambda>_. I (Suc k))"
  shows "holds (I 0) (forK xs body) (\<lambda>_. I (length xs))"
  using assms
proof (induction xs arbitrary: I)
  case Nil
  show ?case by (simp add: holds_def returnK_def)
next
  case (Cons x xs)
  have "holds (I 0) (body x) (\<lambda>_. I (Suc 0))"
    using Cons.prems [of 0] by simp
  moreover have "holds (I (Suc 0)) (forK xs body) (\<lambda>_. I (Suc (length xs)))"
    using Cons.IH [of "\<lambda>k. I (Suc k)"] Cons.prems [of "Suc k" for k] by simp
  ultimately show ?case by (simp add: holds_then)
qed

lemma keeps_return [intro]: "keeps I (returnK a)"
  by (simp add: keeps_def returnK_def)

lemma keeps_panic [intro]: "keeps I (panicK e)"
  by (simp add: keeps_def panicK_def)

lemma keeps_get [intro]: "keeps I (getK f)"
  by (simp add: keeps_def getK_def)

lemma keeps_bind [intro]: "keeps I m \<Longrightarrow> (\<And>a. keeps I (f a)) \<Longrightarrow> keeps I (bindK m f)"
  unfolding keeps_def bindK_eq_Ok by blast

lemma keeps_then [intro]: "keeps I m \<Longrightarrow> keeps I n \<Longrightarrow> keeps I (thenK m n)"
  unfolding thenK_def by (rule keeps_bind)

lemma keeps_panic_if [intro]: "keeps I (panic_if b e)"
  by (simp add: panic_if_def keeps_panic keeps_return)

lemma keeps_when [intro]: "keeps I m \<Longrightarrow> keeps I (whenK b m)"
  by (simp add: whenK_def keeps_return)

lemma keeps_for [intro]: "(\<And>i. i \<in> set xs \<Longrightarrow> keeps I (body i)) \<Longrightarrow> keeps I (forK xs body)"
  by (induction xs) (simp_all add: keeps_return keeps_then)

lemma keeps_modify: "(\<And>s. I s \<Longrightarrow> I (f s)) \<Longrightarrow> keeps I (modifyK f)"
  by (simp add: keeps_def modifyK_def)

section \<open>Little-endian integers in byte arrays\<close>

text \<open>
  RISC-V is little-endian: the least significant byte comes first.  \<open>le_nat\<close> reads a byte
  string as a number, \<open>nat_le w\<close> writes a number as \<open>w\<close> bytes.
\<close>

primrec le_nat :: "bytes \<Rightarrow> nat" where
  "le_nat [] = 0"
| "le_nat (b # bs) = unat b + 256 * le_nat bs"

primrec nat_le :: "nat \<Rightarrow> nat \<Rightarrow> bytes" where
  "nat_le 0 v = []"
| "nat_le (Suc w) v = of_nat (v mod 256) # nat_le w (v div 256)"

lemma le_nat_replicate [simp]: "le_nat (replicate n 0) = 0"
  by (induction n) simp_all

lemma length_nat_le [simp]: "length (nat_le w v) = w"
  by (induction w arbitrary: v) simp_all

lemma unat_byte_of_nat: "unat (of_nat (v mod 256) :: u8) = v mod 256"
  by (simp add: unat_of_nat)

lemma le_nat_nat_le [enc_simps]: "le_nat (nat_le w v) = v mod 256 ^ w"
proof (induction w arbitrary: v)
  case 0
  show ?case by simp
next
  case (Suc w)
  have "v mod 256 ^ Suc w = 256 * (v div 256 mod 256 ^ w) + v mod 256"
    by (simp only: power_Suc mod_mult2_eq)
  moreover have "le_nat (nat_le (Suc w) v) = v mod 256 + 256 * (v div 256 mod 256 ^ w)"
    by (simp only: nat_le.simps le_nat.simps Suc.IH unat_byte_of_nat)
  ultimately show ?case by (simp only: add.commute)
qed

lemma nat_le_le_nat [enc_simps]: "nat_le (length bs) (le_nat bs) = bs"
proof (induction bs)
  case Nil
  show ?case by simp
next
  case (Cons b bs)
  have b: "unat b < 256" using unsigned_less [of b] by simp
  then have "(unat b + 256 * le_nat bs) mod 256 = unat b"
    and "(unat b + 256 * le_nat bs) div 256 = le_nat bs" by simp_all
  moreover have "of_nat (unat b) = b" by simp
  ultimately show ?case by (simp only: list.size add_0_right add_Suc_right le_nat.simps nat_le.simps
      Cons.IH)
qed

lemma le_nat_bound: "le_nat bs < 256 ^ length bs"
proof (induction bs)
  case Nil
  show ?case by simp
next
  case (Cons b bs)
  have "unat b < 256" using unsigned_less [of b] by simp
  moreover have "le_nat bs + 1 \<le> 256 ^ length bs" using Cons by simp
  then have "256 * (le_nat bs + 1) \<le> 256 * 256 ^ length bs" by (rule mult_le_mono2)
  then have "256 * le_nat bs + 256 \<le> 256 * 256 ^ length bs" by (simp only: distrib_left mult_1_right)
  ultimately have "unat b + 256 * le_nat bs < 256 * 256 ^ length bs" by linarith
  then show ?case by (simp only: le_nat.simps list.size power_Suc add_0_right add_Suc_right)
qed

text \<open>Reading and writing \<open>w\<close> bytes at an offset of a byte array.\<close>

definition get_le :: "nat \<Rightarrow> bytes \<Rightarrow> nat \<Rightarrow> nat" where
  "get_le w bs off = le_nat (take w (drop off bs))"

definition put_bytes :: "bytes \<Rightarrow> nat \<Rightarrow> bytes \<Rightarrow> bytes" where
  "put_bytes bs off xs = take off bs @ xs @ drop (off + length xs) bs"

definition put_le :: "nat \<Rightarrow> bytes \<Rightarrow> nat \<Rightarrow> nat \<Rightarrow> bytes" where
  "put_le w bs off v = put_bytes bs off (nat_le w v)"

lemma length_put_bytes [simp]: "off + length xs \<le> length bs \<Longrightarrow> length (put_bytes bs off xs) = length bs"
  by (simp add: put_bytes_def)

lemma length_put_le [simp]: "off + w \<le> length bs \<Longrightarrow> length (put_le w bs off v) = length bs"
  by (simp add: put_le_def)

lemma take_drop_put_bytes_same [enc_simps]:
  "off + length xs \<le> length bs \<Longrightarrow> n = length xs \<Longrightarrow> take n (drop off (put_bytes bs off xs)) = xs"
  by (simp add: put_bytes_def)

lemma nth_put_bytes:
  assumes "off + length xs \<le> length bs" "i < length bs"
  shows "put_bytes bs off xs ! i = (if off \<le> i \<and> i < off + length xs then xs ! (i - off) else bs ! i)"
  using assms by (auto simp: put_bytes_def nth_append)

lemma take_drop_put_bytes_other [enc_simps]:
  assumes "off + length xs \<le> length bs" "o' + n \<le> off \<or> off + length xs \<le> o'"
  shows "take n (drop o' (put_bytes bs off xs)) = take n (drop o' bs)"
proof (rule nth_equalityI)
  show "length (take n (drop o' (put_bytes bs off xs))) = length (take n (drop o' bs))"
    using assms(1) by simp
  fix i assume "i < length (take n (drop o' (put_bytes bs off xs)))"
  then have "i < n" "o' + i < length bs" using assms(1) by auto
  then show "take n (drop o' (put_bytes bs off xs)) ! i = take n (drop o' bs) ! i"
    using assms by (auto simp: nth_put_bytes)
qed

lemma get_put_le_same [enc_simps]:
  "off + w \<le> length bs \<Longrightarrow> v < 256 ^ w \<Longrightarrow> get_le w (put_le w bs off v) off = v"
  by (simp add: get_le_def put_le_def take_drop_put_bytes_same le_nat_nat_le)

lemma get_put_le_other [enc_simps]:
  "off + w \<le> length bs \<Longrightarrow> o' + w' \<le> off \<or> off + w \<le> o' \<Longrightarrow>
   get_le w' (put_le w bs off v) o' = get_le w' bs o'"
  by (simp add: get_le_def put_le_def take_drop_put_bytes_other)

text \<open>The C integer types at an offset of a byte array.\<close>

definition get16 :: "bytes \<Rightarrow> nat \<Rightarrow> u16" where
  "get16 bs off = of_nat (get_le 2 bs off)"

definition put16 :: "bytes \<Rightarrow> nat \<Rightarrow> u16 \<Rightarrow> bytes" where
  "put16 bs off v = put_le 2 bs off (unat v)"

definition get32 :: "bytes \<Rightarrow> nat \<Rightarrow> u32" where
  "get32 bs off = of_nat (get_le 4 bs off)"

definition put32 :: "bytes \<Rightarrow> nat \<Rightarrow> u32 \<Rightarrow> bytes" where
  "put32 bs off v = put_le 4 bs off (unat v)"

definition get64 :: "bytes \<Rightarrow> nat \<Rightarrow> u64" where
  "get64 bs off = of_nat (get_le 8 bs off)"

lemma unat16_bound: "unat (v :: u16) < 256 ^ 2"
  using unsigned_less [of v] by simp

lemma unat32_bound: "unat (v :: u32) < 256 ^ 4"
  using unsigned_less [of v] by simp

lemma unat64_bound: "unat (v :: u64) < 256 ^ 8"
  using unsigned_less [of v] by simp

lemma length_put16 [simp]: "off + 2 \<le> length bs \<Longrightarrow> length (put16 bs off v) = length bs"
  by (simp add: put16_def)

lemma length_put32 [simp]: "off + 4 \<le> length bs \<Longrightarrow> length (put32 bs off v) = length bs"
  by (simp add: put32_def)

lemma get16_put16 [simp, enc_simps]: "off + 2 \<le> length bs \<Longrightarrow> get16 (put16 bs off v) off = v"
  by (simp add: get16_def put16_def get_put_le_same [OF _ unat16_bound])

lemma get32_put32 [simp, enc_simps]: "off + 4 \<le> length bs \<Longrightarrow> get32 (put32 bs off v) off = v"
  by (simp add: get32_def put32_def get_put_le_same [OF _ unat32_bound])

lemma get16_put16_other [enc_simps]:
  "off + 2 \<le> length bs \<Longrightarrow> o' + 2 \<le> off \<or> off + 2 \<le> o' \<Longrightarrow> get16 (put16 bs off v) o' = get16 bs o'"
  by (simp add: get16_def put16_def get_put_le_other)

lemma get16_put32_other [enc_simps]:
  "off + 4 \<le> length bs \<Longrightarrow> o' + 2 \<le> off \<or> off + 4 \<le> o' \<Longrightarrow> get16 (put32 bs off v) o' = get16 bs o'"
  by (simp add: get16_def put32_def get_put_le_other)

lemma get32_put16_other [enc_simps]:
  "off + 2 \<le> length bs \<Longrightarrow> o' + 4 \<le> off \<or> off + 2 \<le> o' \<Longrightarrow> get32 (put16 bs off v) o' = get32 bs o'"
  by (simp add: get32_def put16_def get_put_le_other)

lemma get32_put32_other [enc_simps]:
  "off + 4 \<le> length bs \<Longrightarrow> o' + 4 \<le> off \<or> off + 4 \<le> o' \<Longrightarrow> get32 (put32 bs off v) o' = get32 bs o'"
  by (simp add: get32_def put32_def get_put_le_other)

section \<open>64-bit words in physical memory\<close>

definition mread :: "mem \<Rightarrow> u64 \<Rightarrow> nat \<Rightarrow> bytes" where
  "mread m a n = map (\<lambda>i. m (a + of_nat i)) [0..<n]"

definition mwrite :: "mem \<Rightarrow> u64 \<Rightarrow> bytes \<Rightarrow> mem" where
  "mwrite m a bs = (\<lambda>x. if unat (x - a) < length bs then bs ! unat (x - a) else m x)"

definition load64 :: "mem \<Rightarrow> u64 \<Rightarrow> u64" where
  "load64 m a = of_nat (le_nat (mread m a 8))"

definition store64 :: "mem \<Rightarrow> u64 \<Rightarrow> u64 \<Rightarrow> mem" where
  "store64 m a v = mwrite m a (nat_le 8 (unat v))"

lemma length_mread [simp]: "length (mread m a n) = n"
  by (simp add: mread_def)

lemma nth_mread [simp]: "i < n \<Longrightarrow> mread m a n ! i = m (a + of_nat i)"
  by (simp add: mread_def)

lemma mread_Suc: "mread m a (Suc n) = m a # mread m (a + 1) n"
  by (simp add: mread_def upt_conv_Cons map_Suc_upt [symmetric] comp_def add.assoc del: upt_Suc)

lemma unat_of_nat64: "i < 2 ^ 64 \<Longrightarrow> unat (of_nat i :: u64) = i"
  by (simp add: unat_of_nat)

lemma eq_of_nat64: "i < 2 ^ 64 \<Longrightarrow> (w :: u64) = of_nat i \<longleftrightarrow> unat w = i"
  by (auto simp: word_unat_eq_iff unat_of_nat)

lemma eq_add_of_nat64: "i < 2 ^ 64 \<Longrightarrow> (x :: u64) = d + of_nat i \<longleftrightarrow> unat (x - d) = i"
  using eq_of_nat64 [of i "x - d"] by (simp add: diff_eq_eq add.commute)

lemma unat_minus_Suc64:
  "unat ((x :: u64) - (d + 1)) = (if x = d then 2 ^ 64 - 1 else unat (x - d) - 1)"
proof (cases "x = d")
  case True
  then show ?thesis by (simp add: unsigned_minus_1_eq_mask mask_eq_exp_minus_1)
next
  case False
  have "x - (d + 1) = (x - d) - 1" by simp
  moreover have "unat (x - d - 1) = unat (x - d) - 1" using False by (intro unat_minus_one) simp
  ultimately show ?thesis using False by (simp only: if_False)
qed

lemma mread_mwrite_same [enc_simps]:
  "length bs < 2 ^ 64 \<Longrightarrow> n = length bs \<Longrightarrow> mread (mwrite m a bs) a n = bs"
  by (rule nth_equalityI) (simp_all add: mwrite_def unat_of_nat64)

lemma load64_store64 [simp]: "load64 (store64 m a v) a = v"
  by (simp add: load64_def store64_def mread_mwrite_same le_nat_nat_le
      mod_less [OF unat64_bound [simplified]])

text \<open>Two \<open>n\<close>-byte ranges that do not meet, as offsets modulo the address space.\<close>

definition apart :: "u64 \<Rightarrow> nat \<Rightarrow> u64 \<Rightarrow> nat \<Rightarrow> bool" where
  "apart a m b n \<longleftrightarrow> (\<forall>i<m. \<forall>j<n. a + of_nat i \<noteq> b + of_nat j)"

lemma mwrite_outside:
  "unat (x - a) \<ge> length bs \<Longrightarrow> mwrite m a bs x = m x"
  by (simp add: mwrite_def)

lemma apart_sym: "apart a m b n \<longleftrightarrow> apart b n a m"
  unfolding apart_def by metis

lemma apart_outside:
  assumes "apart a m b n" "j < n" shows "m \<le> unat (b + of_nat j - a)"
proof (rule ccontr)
  assume "\<not> m \<le> unat (b + of_nat j - a)"
  then have lt: "unat (b + of_nat j - a) < m" by simp
  have "a + of_nat (unat (b + of_nat j - a)) = b + of_nat j" by simp
  with assms lt show False unfolding apart_def by metis
qed

lemma mread_mwrite_apart [enc_simps]:
  "apart a (length bs) b n \<Longrightarrow> mread (mwrite m a bs) b n = mread m b n"
  by (rule nth_equalityI) (simp_all add: mwrite_outside apart_outside)

lemma load64_store64_apart: "apart a 8 b 8 \<Longrightarrow> load64 (store64 m a v) b = load64 m b"
  by (simp add: load64_def store64_def mread_mwrite_apart)

lemma load64_mread_cong: "mread m a 8 = mread m' a 8 \<Longrightarrow> load64 m a = load64 m' a"
  by (simp add: load64_def)

section \<open>Lists\<close>

lemma nth_update_cases: "i < length xs \<Longrightarrow> xs[j := v] ! i = (if i = j then v else xs ! i)"
  by (auto simp: nth_list_update)

text \<open>The index of the first element satisfying a predicate, as a scan with early exit finds it.\<close>

primrec find_index :: "('a \<Rightarrow> bool) \<Rightarrow> 'a list \<Rightarrow> nat option" where
  "find_index p [] = None"
| "find_index p (x # xs) = (if p x then Some 0 else map_option Suc (find_index p xs))"

lemma find_index_None: "find_index p xs = None \<longleftrightarrow> (\<forall>x\<in>set xs. \<not> p x)"
  by (induction xs) auto

lemma find_index_Some:
  "find_index p xs = Some i \<longleftrightarrow> i < length xs \<and> p (xs ! i) \<and> (\<forall>j<i. \<not> p (xs ! j))"
proof (induction xs arbitrary: i)
  case Nil
  show ?case by simp
next
  case (Cons x xs)
  show ?case
    by (cases i) (auto simp: Cons.IH nth_Cons' All_less_Suc2 split: if_splits)
qed

end
