(* ===== verification/Layout.thy ===== *)
theory Layout
  imports Prelude
begin

text \<open>
  The constants and address macros of \<^verbatim>\<open>kernel/param.h\<close>, \<^verbatim>\<open>kernel/riscv.h\<close>,
  \<^verbatim>\<open>kernel/memlayout.h\<close>, \<^verbatim>\<open>kernel/fs.h\<close>, \<^verbatim>\<open>kernel/stat.h\<close> and
  \<^verbatim>\<open>kernel/fcntl.h\<close>.  Numeric constants are polymorphic abbreviations, so that a constant can be used
  both as a machine word and as a count; address arithmetic is on 64-bit words.  The lemmas
  give the arithmetic reading of the bit-level macros: rounding to pages, the split of a
  virtual address into page-table indices, and packing of a physical address and flags
  into a page-table entry.
\<close>

unbundle bit_operations_syntax

section \<open>kernel/param.h\<close>

abbreviation (input) NPROC :: "'a::numeral" where "NPROC \<equiv> 64"
abbreviation (input) NCPU :: "'a::numeral" where "NCPU \<equiv> 8"
abbreviation (input) NOFILE :: "'a::numeral" where "NOFILE \<equiv> 16"
abbreviation (input) NFILE :: "'a::numeral" where "NFILE \<equiv> 100"
abbreviation (input) NINODE :: "'a::numeral" where "NINODE \<equiv> 50"
abbreviation (input) NDEV :: "'a::numeral" where "NDEV \<equiv> 10"
abbreviation (input) ROOTDEV :: "'a::one" where "ROOTDEV \<equiv> 1"
abbreviation (input) MAXARG :: "'a::numeral" where "MAXARG \<equiv> 32"
abbreviation (input) MAXOPBLOCKS :: "'a::numeral" where "MAXOPBLOCKS \<equiv> 10"
abbreviation (input) LOGSIZE :: "'a::numeral" where "LOGSIZE \<equiv> 30"
abbreviation (input) NBUF :: "'a::numeral" where "NBUF \<equiv> 30"
abbreviation (input) FSSIZE :: "'a::numeral" where "FSSIZE \<equiv> 1000"
abbreviation (input) MAXPATH :: "'a::numeral" where "MAXPATH \<equiv> 128"

section \<open>kernel/riscv.h: pages and page-table entries\<close>

abbreviation (input) PGSIZE :: "'a::numeral" where "PGSIZE \<equiv> 4096"
abbreviation (input) PGSHIFT :: nat where "PGSHIFT \<equiv> 12"

definition PGROUNDUP :: "u64 \<Rightarrow> u64" where
  "PGROUNDUP sz = (sz + PGSIZE - 1) AND NOT (PGSIZE - 1)"

definition PGROUNDDOWN :: "u64 \<Rightarrow> u64" where
  "PGROUNDDOWN a = a AND NOT (PGSIZE - 1)"

abbreviation (input) PTE_V :: u64 where "PTE_V \<equiv> 1"
abbreviation (input) PTE_R :: u64 where "PTE_R \<equiv> 2"
abbreviation (input) PTE_W :: u64 where "PTE_W \<equiv> 4"
abbreviation (input) PTE_X :: u64 where "PTE_X \<equiv> 8"
abbreviation (input) PTE_U :: u64 where "PTE_U \<equiv> 16"

definition PA2PTE :: "u64 \<Rightarrow> u64" where
  "PA2PTE pa = push_bit 10 (drop_bit 12 pa)"

definition PTE2PA :: "u64 \<Rightarrow> u64" where
  "PTE2PA pte = push_bit 12 (drop_bit 10 pte)"

definition PTE_FLAGS :: "u64 \<Rightarrow> u64" where
  "PTE_FLAGS pte = pte AND 0x3FF"

definition PXSHIFT :: "nat \<Rightarrow> nat" where
  "PXSHIFT level = PGSHIFT + 9 * level"

definition PX :: "nat \<Rightarrow> u64 \<Rightarrow> u64" where
  "PX level va = drop_bit (PXSHIFT level) va AND 0x1FF"

abbreviation (input) MAXVA :: u64 where "MAXVA \<equiv> 0x4000000000"

section \<open>kernel/memlayout.h\<close>

abbreviation (input) UART0 :: u64 where "UART0 \<equiv> 0x10000000"
abbreviation (input) VIRTIO0 :: u64 where "VIRTIO0 \<equiv> 0x10001000"
abbreviation (input) PLIC :: u64 where "PLIC \<equiv> 0x0c000000"
abbreviation (input) KERNBASE :: u64 where "KERNBASE \<equiv> 0x80000000"
abbreviation (input) PHYSTOP :: u64 where "PHYSTOP \<equiv> 0x88000000"

definition TRAMPOLINE :: u64 where
  "TRAMPOLINE = MAXVA - PGSIZE"

definition KSTACK :: "nat \<Rightarrow> u64" where
  "KSTACK p = TRAMPOLINE - of_nat (p + 1) * 2 * PGSIZE"

definition TRAPFRAME :: u64 where
  "TRAPFRAME = TRAMPOLINE - PGSIZE"

section \<open>kernel/fs.h, kernel/stat.h, kernel/fcntl.h\<close>

abbreviation (input) ROOTINO :: "'a::one" where "ROOTINO \<equiv> 1"
abbreviation (input) BSIZE :: "'a::numeral" where "BSIZE \<equiv> 1024"
abbreviation (input) FSMAGIC :: u32 where "FSMAGIC \<equiv> 0x10203040"
abbreviation (input) NDIRECT :: "'a::numeral" where "NDIRECT \<equiv> 12"
abbreviation (input) NINDIRECT :: "'a::numeral" where "NINDIRECT \<equiv> 256"
abbreviation (input) MAXFILE :: "'a::numeral" where "MAXFILE \<equiv> 268"
abbreviation (input) IPB :: "'a::numeral" where "IPB \<equiv> 16"
abbreviation (input) BPB :: "'a::numeral" where "BPB \<equiv> 8192"
abbreviation (input) DIRSIZ :: "'a::numeral" where "DIRSIZ \<equiv> 14"

abbreviation (input) T_DIR :: u16 where "T_DIR \<equiv> 1"
abbreviation (input) T_FILE :: u16 where "T_FILE \<equiv> 2"
abbreviation (input) T_DEVICE :: u16 where "T_DEVICE \<equiv> 3"

abbreviation (input) O_RDONLY :: u32 where "O_RDONLY \<equiv> 0"
abbreviation (input) O_WRONLY :: u32 where "O_WRONLY \<equiv> 1"
abbreviation (input) O_RDWR :: u32 where "O_RDWR \<equiv> 2"
abbreviation (input) O_CREATE :: u32 where "O_CREATE \<equiv> 0x200"
abbreviation (input) O_TRUNC :: u32 where "O_TRUNC \<equiv> 0x400"

section \<open>Arithmetic of pages\<close>

lemma and_not_mask_eq: "(a :: u64) AND NOT (mask n) = push_bit n (drop_bit n a)"
  by (rule bit_word_eqI) (auto simp: bit_simps)

lemma unat_take_bit: "unat (take_bit n (a :: u64)) = unat a mod 2 ^ n"
  by (simp only: unsigned_take_bit_eq take_bit_nat_def)

lemma unat_push_drop_bit: "unat (push_bit n (drop_bit n (a :: u64))) = unat a div 2 ^ n * 2 ^ n"
proof -
  note take = unat_take_bit [of n a]
  have "push_bit n (drop_bit n a) = a - take_bit n a"
    using bits_ident [of n a] by (simp add: eq_diff_eq)
  moreover have "take_bit n a \<le> a"
    by (simp add: word_le_nat_alt take)
  ultimately have "unat (push_bit n (drop_bit n a)) = unat a - unat a mod 2 ^ n"
    by (simp add: unat_sub take)
  then show ?thesis by (simp add: minus_mod_eq_div_mult)
qed

lemma PGROUNDDOWN_alt: "PGROUNDDOWN a = push_bit 12 (drop_bit 12 a)"
proof -
  have "(PGSIZE - 1 :: u64) = mask 12" by (simp add: mask_eq_exp_minus_1)
  then show ?thesis unfolding PGROUNDDOWN_def by (simp only: and_not_mask_eq)
qed

lemma unat_PGROUNDDOWN: "unat (PGROUNDDOWN a) = unat a div 4096 * 4096"
  using unat_push_drop_bit [of 12 a] by (simp add: PGROUNDDOWN_alt)

lemma PGROUNDUP_alt: "PGROUNDUP sz = PGROUNDDOWN (sz + 4095)"
  by (simp add: PGROUNDUP_def PGROUNDDOWN_def add.commute)

lemma unat_PGROUNDUP:
  "unat sz + 4095 < 2 ^ 64 \<Longrightarrow> unat (PGROUNDUP sz) = (unat sz + 4095) div 4096 * 4096"
  by (simp add: PGROUNDUP_alt unat_PGROUNDDOWN unat_word_ariths)

definition page_aligned :: "u64 \<Rightarrow> bool" where
  "page_aligned a \<longleftrightarrow> unat a mod 4096 = 0"

lemma page_aligned_PGROUNDDOWN [simp]: "page_aligned (PGROUNDDOWN a)"
  by (simp add: page_aligned_def unat_PGROUNDDOWN)

lemma PGROUNDDOWN_le: "PGROUNDDOWN a \<le> a"
  by (simp add: word_le_nat_alt unat_PGROUNDDOWN)

lemma PGROUNDDOWN_aligned: "page_aligned a \<Longrightarrow> PGROUNDDOWN a = a"
  by (auto simp: page_aligned_def word_unat_eq_iff unat_PGROUNDDOWN)

section \<open>Page-table entries and indices\<close>

lemma unat_PX: "unat (PX level va) = unat va div 2 ^ (12 + 9 * level) mod 512"
proof -
  have "(0x1FF :: u64) = mask 9" by (simp add: mask_eq_exp_minus_1)
  then have "PX level va = take_bit 9 (drop_bit (PXSHIFT level) va)"
    by (simp only: PX_def take_bit_eq_mask)
  then have "unat (PX level va) = unat (drop_bit (PXSHIFT level) va) mod 2 ^ 9"
    by (simp only: unat_take_bit)
  then show ?thesis
    by (simp only: unat_drop_bit_eq drop_bit_nat_def PXSHIFT_def) simp
qed

lemma PX_bound: "unat (PX level va) < 512"
  by (simp add: unat_PX)

lemma numeral_power_4096: "(2 :: nat) ^ 12 = 4096" by simp

text \<open>Below \<open>MAXVA\<close> the three indices determine the page.\<close>

lemma PX_inject:
  assumes "va < MAXVA" "vb < MAXVA" "\<And>l. l \<le> 2 \<Longrightarrow> PX l va = PX l vb"
  shows "PGROUNDDOWN va = PGROUNDDOWN vb"
proof -
  have lt: "unat va < 2 ^ 38" "unat vb < 2 ^ 38" using assms(1,2) by (simp_all add: word_less_nat_alt)
  have e0: "unat va div 2 ^ 12 mod 512 = unat vb div 2 ^ 12 mod 512"
    using arg_cong [OF assms(3) [of 0], of unat] by (simp add: unat_PX)
  have e1: "unat va div 2 ^ 21 mod 512 = unat vb div 2 ^ 21 mod 512"
    using arg_cong [OF assms(3) [of 1], of unat] by (simp add: unat_PX)
  have e2: "unat va div 2 ^ 30 mod 512 = unat vb div 2 ^ 30 mod 512"
    using arg_cong [OF assms(3) [of 2], of unat] by (simp add: unat_PX)
  have d: "x div 2 ^ 21 = x div 4096 div 512" "x div 2 ^ 30 = x div 4096 div 512 div 512" for x :: nat
    by (simp_all add: div_mult2_eq [symmetric])
  have "x div 2 ^ 30 mod 512 = x div 4096 div 512 div 512" if "x < 2 ^ 38" for x :: nat
    using that by (simp add: d div_mult2_eq [symmetric] less_mult_imp_div_less)
  with lt e2 have f2: "unat va div 4096 div 512 div 512 = unat vb div 4096 div 512 div 512" by metis
  have f1: "unat va div 4096 div 512 mod 512 = unat vb div 4096 div 512 mod 512" using e1 by (simp only: d)
  have "unat va div 4096 div 512 = unat vb div 4096 div 512"
    using f1 f2 by (metis div_mult_mod_eq)
  with e0 have "unat va div 4096 = unat vb div 4096" by (metis div_mult_mod_eq numeral_power_4096)
  then show ?thesis by (simp add: word_unat_eq_iff unat_PGROUNDDOWN)
qed

lemma not_bit_above: "unat (w :: u64) < 2 ^ m \<Longrightarrow> m \<le> n \<Longrightarrow> \<not> bit w n"
proof -
  assume "unat w < 2 ^ m" and n: "m \<le> n"
  then have "w = take_bit m w" by (simp only: word_unat_eq_iff unat_take_bit) simp
  with n show ?thesis by (metis bit_take_bit_iff not_le)
qed

lemma page_aligned_not_bit: "page_aligned pa \<Longrightarrow> n < 12 \<Longrightarrow> \<not> bit pa n"
  using arg_cong [OF PGROUNDDOWN_aligned [of pa], of "\<lambda>w. bit w n"]
  by (simp add: PGROUNDDOWN_alt bit_simps)

lemma PTE2PA_PA2PTE:
  assumes "page_aligned pa" "unat pa < 2 ^ 56" "unat fl < 2 ^ 10"
  shows "PTE2PA (PA2PTE pa OR fl) = pa"
proof (rule bit_word_eqI)
  fix n assume n: "n < LENGTH(64)"
  show "bit (PTE2PA (PA2PTE pa OR fl)) n = bit pa n"
    using page_aligned_not_bit [OF assms(1), of n] not_bit_above [OF assms(2), of n]
      not_bit_above [OF assms(3), of "n - 2"] n
    by (cases "n < 12") (auto simp: PTE2PA_def PA2PTE_def bit_simps)
qed

lemma PTE_FLAGS_PA2PTE:
  assumes "unat fl < 2 ^ 10"
  shows "PTE_FLAGS (PA2PTE pa OR fl) = fl"
proof (rule bit_word_eqI)
  fix n assume n: "n < LENGTH(64)"
  have "(0x3FF :: u64) = mask 10" by (simp add: mask_eq_exp_minus_1)
  then have "bit (0x3FF :: u64) n \<longleftrightarrow> n < 10" using n by (simp only: bit_mask_iff) auto
  then show "bit (PTE_FLAGS (PA2PTE pa OR fl)) n = bit fl n"
    using not_bit_above [OF assms, of n] n
    by (auto simp: PTE_FLAGS_def PA2PTE_def bit_simps)
qed

lemma page_aligned_PTE2PA [simp]: "page_aligned (PTE2PA pte)"
proof -
  have "PTE2PA pte = PGROUNDDOWN (PTE2PA pte)"
    unfolding PGROUNDDOWN_alt PTE2PA_def by (rule bit_word_eqI) (auto simp: bit_simps)
  then show ?thesis by (metis page_aligned_PGROUNDDOWN)
qed

end
