(* ===== verification/Strings.thy ===== *)
theory Strings
  imports Layout
begin

text \<open>
  \<^verbatim>\<open>kernel/string.c\<close>.  \<open>memset\<close>, \<open>memcmp\<close> and \<open>memmove\<close> work on physical memory with
  64-bit pointers.  The \<open>str\<close> functions work on byte lists: a pointer into a
  NUL-terminated string is the list of the bytes from the pointer on, and reading at the
  end of the list reads the terminating NUL.  An output buffer is the list of the bytes
  written to it.  The loops are recursive functions with the loops' own counters; the
  lemmas give their closed forms, which the rest of the development uses.
\<close>

section \<open>Memory blocks\<close>

function memset_loop :: "mem \<Rightarrow> u64 \<Rightarrow> u8 \<Rightarrow> nat \<Rightarrow> nat \<Rightarrow> mem" where
  "memset_loop m dst c i n =
     (if i < n then memset_loop (m(dst + of_nat i := c)) dst c (i + 1) n else m)"
  by pat_completeness auto
termination
  by (relation "measure (\<lambda>(m, dst, c, i, n). n - i)") auto

definition memset :: "mem \<Rightarrow> u64 \<Rightarrow> u8 \<Rightarrow> nat \<Rightarrow> mem" where
  "memset m dst c n = memset_loop m dst c 0 n"

fun memcmp :: "mem \<Rightarrow> u64 \<Rightarrow> u64 \<Rightarrow> nat \<Rightarrow> int" where
  "memcmp m s1 s2 0 = 0"
| "memcmp m s1 s2 (Suc n) =
     (if m s1 \<noteq> m s2 then uint (m s1) - uint (m s2) else memcmp m (s1 + 1) (s2 + 1) n)"

fun copy_fwd :: "mem \<Rightarrow> u64 \<Rightarrow> u64 \<Rightarrow> nat \<Rightarrow> mem" where
  "copy_fwd m d s 0 = m"
| "copy_fwd m d s (Suc n) = copy_fwd (m(d := m s)) (d + 1) (s + 1) n"

fun copy_bwd :: "mem \<Rightarrow> u64 \<Rightarrow> u64 \<Rightarrow> nat \<Rightarrow> mem" where
  "copy_bwd m d s 0 = m"
| "copy_bwd m d s (Suc n) = copy_bwd (m(d - 1 := m (s - 1))) (d - 1) (s - 1) n"

definition memmove :: "mem \<Rightarrow> u64 \<Rightarrow> u64 \<Rightarrow> nat \<Rightarrow> mem" where
  "memmove m dst src n =
     (if n = 0 then m
      else if src < dst \<and> src + of_nat n > dst
      then copy_bwd m (dst + of_nat n) (src + of_nat n) n
      else copy_fwd m dst src n)"

definition memcpy :: "mem \<Rightarrow> u64 \<Rightarrow> u64 \<Rightarrow> nat \<Rightarrow> mem" where
  "memcpy m dst src n = memmove m dst src n"

section \<open>Strings\<close>

definition deref :: "bytes \<Rightarrow> u8" where
  "deref p = (case p of [] \<Rightarrow> 0 | c # _ \<Rightarrow> c)"

fun strncmp :: "bytes \<Rightarrow> bytes \<Rightarrow> nat \<Rightarrow> int" where
  "strncmp p q 0 = 0"
| "strncmp p q (Suc n) =
     (if deref p \<noteq> 0 \<and> deref p = deref q then strncmp (tl p) (tl q) n
      else uint (deref p) - uint (deref q))"

text \<open>
  \<open>strncpy_copy\<close> is the first loop of \<open>strncpy\<close>, with the value the post-decremented \<open>n\<close>
  has when the loop ends; \<open>strncpy_pad\<close> is the second.
\<close>

function strncpy_copy :: "bytes \<Rightarrow> int \<Rightarrow> bytes \<times> int" where
  "strncpy_copy t n =
     (if n > 0
      then let c = deref t in
           if c \<noteq> 0 then (case strncpy_copy (tl t) (n - 1) of (r, n') \<Rightarrow> (c # r, n'))
           else ([0], n - 1)
      else ([], n - 1))"
  by pat_completeness auto
termination
  by (relation "measure (\<lambda>(t, n). nat n)") auto

function strncpy_pad :: "int \<Rightarrow> bytes" where
  "strncpy_pad n = (if n > 0 then 0 # strncpy_pad (n - 1) else [])"
  by pat_completeness auto
termination
  by (relation "measure nat") auto

definition strncpy :: "bytes \<Rightarrow> int \<Rightarrow> bytes" where
  "strncpy t n = (case strncpy_copy t n of (r, n') \<Rightarrow> r @ strncpy_pad n')"

function safestrcpy_loop :: "bytes \<Rightarrow> int \<Rightarrow> bytes" where
  "safestrcpy_loop t n =
     (let n' = n - 1 in
      if n' > 0
      then let c = deref t in
           c # (if c \<noteq> 0 then safestrcpy_loop (tl t) n' else [0])
      else [0])"
  by pat_completeness auto
termination
  by (relation "measure (\<lambda>(t, n). nat n)") auto

definition safestrcpy :: "bytes \<Rightarrow> int \<Rightarrow> bytes" where
  "safestrcpy t n = (if n \<le> 0 then [] else safestrcpy_loop t n)"

function strlen :: "bytes \<Rightarrow> nat" where
  "strlen s = (if deref s \<noteq> 0 then Suc (strlen (tl s)) else 0)"
  by pat_completeness auto
termination
  by (relation "measure length") (auto simp: deref_def split: list.splits)

declare memset_loop.simps [simp del] strncpy_copy.simps [simp del] strncpy_pad.simps [simp del]
  safestrcpy_loop.simps [simp del] strlen.simps [simp del]

section \<open>Closed forms of the memory operations\<close>

lemma memset_loop_eq:
  assumes "n \<le> 2 ^ 64"
  shows "memset_loop m dst c i n = (\<lambda>x. if i \<le> unat (x - dst) \<and> unat (x - dst) < n then c else m x)"
  using assms
proof (induction m dst c i n rule: memset_loop.induct)
  case (1 m dst c i n)
  show ?case
  proof (cases "i < n")
    case False
    then show ?thesis by (subst memset_loop.simps) (auto simp: fun_eq_iff)
  next
    case True
    then have "x = dst + of_nat i \<longleftrightarrow> unat (x - dst) = i" for x
      using "1.prems" by (intro eq_add_of_nat64) simp
    moreover have "memset_loop m dst c i n = memset_loop (m(dst + of_nat i := c)) dst c (i + 1) n"
      using True by (subst memset_loop.simps) simp
    ultimately show ?thesis
      using True by (simp only: "1.IH" [OF True "1.prems"] fun_eq_iff fun_upd_apply) auto
  qed
qed

lemma memset_eq:
  "n \<le> 2 ^ 64 \<Longrightarrow> memset m dst c n = (\<lambda>x. if unat (x - dst) < n then c else m x)"
  by (simp add: memset_def memset_loop_eq)

text \<open>The specification of a block copy: every byte of the source block, as it was, in place.\<close>

definition blit :: "mem \<Rightarrow> u64 \<Rightarrow> u64 \<Rightarrow> nat \<Rightarrow> mem" where
  "blit m d s n = (\<lambda>x. if unat (x - d) < n then m (s + (x - d)) else m x)"

text \<open>
  Copying upwards is right unless the destination starts inside the source block, copying
  downwards unless the source starts inside the destination block.
\<close>

lemma copy_fwd_blit:
  assumes "n \<le> 2 ^ 64" "unat (d - s) = 0 \<or> n \<le> unat (d - s)"
  shows "copy_fwd m d s n = blit m d s n"
  using assms
proof (induction m d s n rule: copy_fwd.induct)
  case (1 m d s)
  show ?case by (simp add: blit_def)
next
  case (2 m d s n)
  have IH: "copy_fwd (m(d := m s)) (d + 1) (s + 1) n = blit (m(d := m s)) (d + 1) (s + 1) n"
    using 2 by (intro "2.IH") auto
  have "blit (m(d := m s)) (d + 1) (s + 1) n x = blit m d s (Suc n) x" for x
  proof (cases "x = d")
    case True
    then show ?thesis using "2.prems"(1) by (simp add: blit_def)
  next
    case False
    then have nz: "0 < unat (x - d)" by (simp add: unat_gt_0)
    have "unat (x - d) < Suc n \<Longrightarrow> s + (x - d) \<noteq> d"
    proof
      assume lt: "unat (x - d) < Suc n" and "s + (x - d) = d"
      then have "d - s = x - d" by (metis add_diff_cancel_left')
      with lt nz "2.prems"(2) show False by simp
    qed
    moreover have "s + 1 + (x - (d + 1)) = s + (x - d)" by simp
    moreover have "unat (x - (d + 1)) < n \<longleftrightarrow> unat (x - d) < Suc n"
      using False nz by (simp only: unat_minus_Suc64) auto
    ultimately show ?thesis using False by (simp only: blit_def fun_upd_apply) auto
  qed
  with IH show ?case by (simp add: fun_eq_iff)
qed

lemma copy_bwd_blit:
  assumes "n \<le> 2 ^ 64" "unat (s - d) = 0 \<or> n \<le> unat (s - d)"
  shows "copy_bwd m (d + of_nat n) (s + of_nat n) n = blit m d s n"
  using assms
proof (induction n arbitrary: m)
  case 0
  show ?case by (simp add: blit_def)
next
  case (Suc n)
  let ?m = "m(d + of_nat n := m (s + of_nat n))"
  have "copy_bwd m (d + of_nat (Suc n)) (s + of_nat (Suc n)) (Suc n)
      = copy_bwd ?m (d + of_nat n) (s + of_nat n) n" by (simp add: algebra_simps)
  also have "\<dots> = blit ?m d s n" using Suc.prems by (intro Suc.IH) auto
  also have "\<dots> = blit m d s (Suc n)"
  proof
    fix x
    have n: "n < 2 ^ 64" using Suc.prems(1) by simp
    have top: "x = d + of_nat n \<longleftrightarrow> unat (x - d) = n" by (rule eq_add_of_nat64 [OF n])
    have "s + (x - d) \<noteq> d + of_nat n" if lt: "unat (x - d) < n"
    proof
      assume "s + (x - d) = d + of_nat n"
      then have "of_nat n - (x - d) = s - d" by (simp add: algebra_simps)
      moreover have "unat (of_nat n - (x - d)) = n - unat (x - d)"
        using lt n by (subst unat_sub) (simp_all add: word_le_nat_alt unat_of_nat64)
      ultimately have "unat (s - d) = n - unat (x - d)" by (simp only:)
      then show False using lt Suc.prems(2) by simp
    qed
    moreover have "unat (x - d) = n \<Longrightarrow> x - d = of_nat n" using n by (simp add: eq_of_nat64)
    ultimately show "blit ?m d s n x = blit m d s (Suc n) x"
      using top by (auto simp: blit_def less_Suc_eq)
  qed
  finally show ?case .
qed

lemma memmove_blit:
  assumes s: "unat src + n < 2 ^ 64" and d: "unat dst + n \<le> 2 ^ 64"
  shows "memmove m dst src n = blit m dst src n"
proof -
  have n: "unat (of_nat n :: u64) = n" using s by (intro unat_of_nat64) simp
  have sn: "unat (src + of_nat n) = unat src + n"
    using s n by (simp add: unat_word_ariths)
  consider "n = 0" | "n \<noteq> 0" "src < dst" "src + of_nat n > dst"
    | "n \<noteq> 0" "\<not> (src < dst \<and> src + of_nat n > dst)" by blast
  then show ?thesis
  proof cases
    case 1
    then show ?thesis by (simp add: memmove_def blit_def)
  next
    case 2
    have "n \<le> unat (src - dst)"
      using 2 d by (simp add: unat_sub_if' word_less_nat_alt)
    then have "copy_bwd m (dst + of_nat n) (src + of_nat n) n = blit m dst src n"
      using s by (intro copy_bwd_blit) auto
    then show ?thesis using 2 by (simp add: memmove_def)
  next
    case 3
    have "unat (dst - src) = 0 \<or> n \<le> unat (dst - src)"
      using 3 s by (auto simp: unat_sub_if' word_less_nat_alt sn not_less)
    then have "copy_fwd m dst src n = blit m dst src n"
      using s by (intro copy_fwd_blit) auto
    then show ?thesis using 3 unfolding memmove_def by (simp only: if_False)
  qed
qed

lemma mread_blit_same:
  "n < 2 ^ 64 \<Longrightarrow> mread (blit m d s n) d n = mread m s n"
  by (rule nth_equalityI) (simp_all add: blit_def unat_of_nat64)

lemma memcmp_zero: "memcmp m a b n = 0 \<longleftrightarrow> mread m a n = mread m b n"
proof (induction m a b n rule: memcmp.induct)
  case (1 m a b)
  show ?case by (simp add: mread_def)
next
  case (2 m a b n)
  have shift: "mread m p (Suc n) = m p # mread m (p + 1) n" for p
    unfolding mread_def upt_conv_Cons [OF zero_less_Suc] map_Suc_upt [symmetric]
    by (simp add: algebra_simps)
  show ?case using "2.IH" by (auto simp: shift word_uint_eq_iff)
qed

section \<open>Closed forms of the string operations\<close>

definition cstr :: "bytes \<Rightarrow> bytes" where
  "cstr s = takeWhile (\<lambda>c. c \<noteq> 0) s"

lemma deref_simps [simp]: "deref [] = 0" "deref (c # s) = c"
  by (simp_all add: deref_def)

lemma cstr_simps [simp]: "cstr [] = []" "cstr (c # s) = (if c = 0 then [] else c # cstr s)"
  by (simp_all add: cstr_def)

lemma strlen_cstr: "strlen s = length (cstr s)"
  by (induction s) (subst strlen.simps, simp)+

lemma strncmp_zero: "strncmp p q n = 0 \<longleftrightarrow> cstr (take n p) = cstr (take n q)"
proof (induction p q n rule: strncmp.induct)
  case (1 p q)
  show ?case by simp
next
  case (2 p q n)
  show ?case
    using "2.IH" by (cases p; cases q) (auto simp: word_uint_eq_iff)
qed

lemma strncpy_pad_eq: "strncpy_pad n = replicate (nat n) 0"
proof (induction n rule: strncpy_pad.induct)
  case (1 n)
  show ?case
  proof (cases "n > 0")
    case True
    then have "nat n = Suc (nat (n - 1))" by simp
    with "1.IH" [OF True] True show ?thesis by (subst strncpy_pad.simps) simp
  next
    case False
    then show ?thesis by (subst strncpy_pad.simps) simp
  qed
qed

text \<open>\<open>strncpy\<close> writes exactly \<open>n\<close> bytes: the string, cut to \<open>n\<close> bytes, padded with NULs.\<close>

lemma strncpy_eq: "strncpy t (int n) = take n (cstr t @ replicate n 0)"
proof (induction n arbitrary: t)
  case 0
  show ?case by (simp add: strncpy_def strncpy_copy.simps strncpy_pad_eq)
next
  case (Suc n)
  show ?case
  proof (cases "deref t = 0")
    case True
    then have "cstr t = []" by (cases t) auto
    with True show ?thesis
      by (simp add: strncpy_def strncpy_copy.simps [of t] strncpy_pad_eq)
  next
    case False
    then obtain c u where t: "t = c # u" "c \<noteq> 0" by (cases t) auto
    have "strncpy t (int (Suc n)) = c # strncpy u (int n)"
      using t unfolding strncpy_def by (subst strncpy_copy.simps) (simp split: prod.split)
    with Suc.IH [of u] t show ?thesis
      by (simp add: replicate_append_same [symmetric] del: replicate_append_same)
  qed
qed

lemma length_strncpy: "length (strncpy t (int n)) = n"
  by (simp add: strncpy_eq)

text \<open>
  \<open>safestrcpy\<close> writes at most \<open>n\<close> bytes, and what it writes is the string cut to \<open>n - 1\<close>
  bytes and terminated.
\<close>

lemma safestrcpy_loop_eq:
  "cstr (safestrcpy_loop t (int (Suc n))) = take n (cstr t)"
  "length (safestrcpy_loop t (int (Suc n))) \<le> Suc n"
  "0 \<in> set (safestrcpy_loop t (int (Suc n)))"
proof (induction n arbitrary: t)
  case 0
  { case 1 show ?case by (simp add: safestrcpy_loop.simps) }
  { case 2 show ?case by (simp add: safestrcpy_loop.simps) }
  { case 3 show ?case by (simp add: safestrcpy_loop.simps) }
next
  case (Suc n)
  have step: "safestrcpy_loop t (int (Suc (Suc n))) =
      deref t # (if deref t \<noteq> 0 then safestrcpy_loop (tl t) (int (Suc n)) else [0])" for t
    by (simp add: safestrcpy_loop.simps [of t] Let_def)
  { case 1 show ?case unfolding step using Suc.IH(1) [of "tl t"] by (cases t) auto }
  { case 2 show ?case unfolding step using Suc.IH(2) [of "tl t"] by simp }
  { case 3 show ?case unfolding step using Suc.IH(3) [of "tl t"] by simp }
qed

end
