(* ===== verification/Kern.thy ===== *)
theory Kern
  imports Strings
begin

text \<open>
  The state every kernel component shares: physical memory, the process table
  (\<^verbatim>\<open>struct proc\<close> of \<^verbatim>\<open>kernel/proc.h\<close>), the process running on this CPU and the spin locks it
  holds; and the operations every component calls: locking, \<^verbatim>\<open>sleep\<close> and \<^verbatim>\<open>wakeup\<close>.
  Each later theory extends this record with the state of its own component, and its
  operations work on every further extension.

  Locks appear here as the list of the locks held by the running thread.  Theory
  \<open>Spinlocks\<close> models the lock words, the per-CPU nesting count and the interrupt flag, and
  shows that they implement this view.
\<close>

section \<open>Process table entries\<close>

datatype procstate = UNUSED | USED | SLEEPING | RUNNABLE | RUNNING | ZOMBIE

record kcontext =
  ra :: u64
  sp :: u64
  callee :: "u64 list"

record proc =
  state :: procstate
  chan :: "chan option"
  killed :: bool
  xstate :: int
  pid :: int
  parent :: "nat option"
  kstack :: u64
  sz :: u64
  pagetable :: u64
  trapframe :: u64
  pcontext :: kcontext
  ofile :: "nat \<Rightarrow> nat option"
  cwd :: "nat option"
  pname :: bytes

section \<open>The shared state\<close>

record kern =
  pmem :: mem
  procs :: "nat \<Rightarrow> proc"
  curproc :: "nat option"
  held :: "lockid list"

definition acquire :: "lockid \<Rightarrow> ('z kern_scheme, unit) K" where
  "acquire l = (\<lambda>s. if l \<in> set (held s) then Panic ''acquire'' else Ok () (s\<lparr>held := l # held s\<rparr>))"

definition release :: "lockid \<Rightarrow> ('z kern_scheme, unit) K" where
  "release l = (\<lambda>s. if l \<notin> set (held s) then Panic ''release''
                    else Ok () (s\<lparr>held := remove1 l (held s)\<rparr>))"

text \<open>
  \<open>myproc\<close> returns the index of the running process; where the code dereferences the
  null pointer of an idle CPU the kernel faults and \<^verbatim>\<open>kerneltrap\<close> panics.
\<close>

definition myproc :: "('z kern_scheme, nat) K" where
  "myproc = (\<lambda>s. case curproc s of None \<Rightarrow> Panic ''kerneltrap'' | Some p \<Rightarrow> Ok p s)"

definition upd_proc :: "nat \<Rightarrow> (proc \<Rightarrow> proc) \<Rightarrow> ('z kern_scheme, unit) K" where
  "upd_proc i f = modifyK (\<lambda>s. s\<lparr>procs := (procs s)(i := f (procs s i))\<rparr>)"

definition getmem :: "(mem \<Rightarrow> 'a) \<Rightarrow> ('z kern_scheme, 'a) K" where
  "getmem f = getK (\<lambda>s. f (pmem s))"

definition setmem :: "(mem \<Rightarrow> mem) \<Rightarrow> ('z kern_scheme, unit) K" where
  "setmem f = modifyK (\<lambda>s. s\<lparr>pmem := f (pmem s)\<rparr>)"

text \<open>What the loader leaves: static data is zero, no process exists, no lock is held.\<close>

definition zero_proc :: proc where
  "zero_proc = \<lparr>state = UNUSED, chan = None, killed = False, xstate = 0, pid = 0, parent = None,
     kstack = 0, sz = 0, pagetable = 0, trapframe = 0,
     pcontext = \<lparr>ra = 0, sp = 0, callee = replicate 12 0\<rparr>,
     ofile = (\<lambda>_. None), cwd = None, pname = replicate 16 0\<rparr>"

definition boot_kern :: kern where
  "boot_kern = \<lparr>pmem = (\<lambda>_. 0), procs = (\<lambda>_. zero_proc), curproc = None, held = []\<rparr>"

section \<open>sleep and wakeup\<close>

text \<open>
  \<open>sched\<close> checks its caller and switches to the scheduler.  What the thread leaves behind is
  the outcome \<open>Block\<close>; the lock \<^verbatim>\<open>p->lock\<close>, held across the switch, is released by the
  scheduler.  The nesting depth \<^verbatim>\<open>noff\<close> is the number of locks held, and interrupts are off
  while a lock is held, so the check \<^verbatim>\<open>sched interruptible\<close> never fires.
\<close>

definition sched :: "('z kern_scheme, unit) K" where
  "sched =
     bindK myproc (\<lambda>p.
     bindK (getK id) (\<lambda>s.
     seqK [panic_if (LkProc p \<notin> set (held s)) ''sched p->lock'',
           panic_if (length (held s) \<noteq> 1) ''sched locks'',
           panic_if (state (procs s p) = RUNNING) ''sched running'',
           release (LkProc p),
           (\<lambda>t. Block (case chan (procs s p) of None \<Rightarrow> ChSched | Some ch \<Rightarrow> ch) t)]))"

text \<open>
  \<open>sleep\<close> up to the switch, and \<open>sleep_tail\<close>, what it does once the scheduler, holding
  \<^verbatim>\<open>p->lock\<close>, has switched back.
\<close>

definition sleep_tail :: "nat \<Rightarrow> lockid \<Rightarrow> ('z kern_scheme, unit) K" where
  "sleep_tail p lk =
     seqK [upd_proc p (\<lambda>q. q\<lparr>chan := None\<rparr>), release (LkProc p), acquire lk]"

definition sleep :: "chan \<Rightarrow> lockid \<Rightarrow> ('z kern_scheme, unit) K" where
  "sleep ch lk =
     bindK myproc (\<lambda>p.
     seqK [acquire (LkProc p),
           release lk,
           upd_proc p (\<lambda>q. q\<lparr>chan := Some ch\<rparr>),
           upd_proc p (\<lambda>q. q\<lparr>state := SLEEPING\<rparr>),
           sched,
           sleep_tail p lk])"

definition wakeup1 :: "chan \<Rightarrow> proc \<Rightarrow> proc" where
  "wakeup1 ch q = (if state q = SLEEPING \<and> chan q = Some ch then q\<lparr>state := RUNNABLE\<rparr> else q)"

definition wakeup :: "chan \<Rightarrow> ('z kern_scheme, unit) K" where
  "wakeup ch =
     forK [0..<NPROC] (\<lambda>i.
       bindK (getK curproc) (\<lambda>me.
       whenK (Some i \<noteq> me)
         (seqK [acquire (LkProc i), upd_proc i (wakeup1 ch), release (LkProc i)])))"

section \<open>Laws of locking\<close>

lemma acquire_Ok [simp]: "l \<notin> set (held s) \<Longrightarrow> acquire l s = Ok () (s\<lparr>held := l # held s\<rparr>)"
  by (simp add: acquire_def)

lemma release_Ok [simp]: "l \<in> set (held s) \<Longrightarrow> release l s = Ok () (s\<lparr>held := remove1 l (held s)\<rparr>)"
  by (simp add: release_def)

lemma myproc_Some [simp]: "curproc s = Some p \<Longrightarrow> myproc s = Ok p s"
  by (simp add: myproc_def)

text \<open>A critical section that only updates the state leaves the set of held locks as it was.\<close>

lemma critical_section:
  assumes "l \<notin> set (held s)" "\<And>s. held (f s) = held s"
    and "\<And>s h. f (s\<lparr>held := h\<rparr>) = (f s)\<lparr>held := h\<rparr>"
  shows "seqK [acquire l, modifyK f, release l] s = Ok () (f s)"
  using assms by (simp add: K_defs)

lemma upd_proc_locked:
  assumes "LkProc i \<notin> set (held s)"
  shows "seqK [acquire (LkProc i), upd_proc i f, release (LkProc i)] s
       = Ok () (s\<lparr>procs := (procs s)(i := f (procs s i))\<rparr>)"
  using assms by (simp add: upd_proc_def K_defs)

definition wake_all :: "chan \<Rightarrow> nat option \<Rightarrow> (nat \<Rightarrow> proc) \<Rightarrow> nat \<Rightarrow> proc" where
  "wake_all ch me ps = (\<lambda>i. if i < NPROC \<and> Some i \<noteq> me then wakeup1 ch (ps i) else ps i)"

lemma wakeup_eq:
  assumes "\<And>i. LkProc i \<notin> set (held s)"
  shows "wakeup ch s = Ok () (s\<lparr>procs := wake_all ch (curproc s) (procs s)\<rparr>)"
proof -
  define S where "S n = s\<lparr>procs := (\<lambda>i. if i < n \<and> Some i \<noteq> curproc s then wakeup1 ch (procs s i) else procs s i)\<rparr>"
    for n
  have "wakeup ch (S 0) = Ok () (S NPROC)"
    unfolding wakeup_def
  proof (rule forK_upt)
    fix i
    have "LkProc i \<notin> set (held (S i))" using assms by (simp add: S_def)
    note upd = upd_proc_locked [OF this, of "wakeup1 ch"]
    have cur: "curproc (S i) = curproc s" by (simp add: S_def)
    show "bindK (getK curproc) (\<lambda>me. whenK (Some i \<noteq> me)
           (seqK [acquire (LkProc i), upd_proc i (wakeup1 ch), release (LkProc i)])) (S i)
        = Ok () (S (Suc i))"
      unfolding bindK_def getK_def outcome.case cur whenK_def
      by (cases "Some i = curproc s"; simp only: upd returnK_def not_False_eq_True not_True_eq_False if_True if_False)
         (auto simp: S_def fun_eq_iff less_Suc_eq)
  qed
  then show ?thesis by (simp add: S_def wake_all_def)
qed

lemma sleep_eq:
  assumes "curproc s = Some p" "held s = [lk]" "lk \<noteq> LkProc p"
  shows "sleep ch lk s
       = Block ch (s\<lparr>procs := (procs s)(p := (procs s p)\<lparr>chan := Some ch, state := SLEEPING\<rparr>), held := []\<rparr>)"
  using assms by (simp add: sleep_def sched_def upd_proc_def K_defs)

lemma sleep_panics:
  assumes "curproc s = Some p" "LkProc p \<notin> set (held s)" "lk \<in> set (held s)" "length (held s) \<noteq> 1"
  shows "sleep ch lk s = Panic ''sched locks''"
  using assms length_pos_if_in_set [OF assms(3)]
  by (cases "held s") (auto simp: sleep_def sched_def upd_proc_def K_defs length_remove1)

end
