(* ===== verification/Kalloc.thy ===== *)
theory Kalloc
  imports Kern
begin

text \<open>
  \<^verbatim>\<open>kernel/kalloc.c\<close>: the physical page allocator.  The free pages form a list linked
  through their first eight bytes in physical memory; \<open>runs\<close> relates that list to a list
  of addresses, and \<open>kalloc_ok\<close> is the allocator's invariant.  The interface the clients
  rely on is the locale \<open>page_allocator\<close>.
\<close>

section \<open>State and operations\<close>

text \<open>\<open>kend\<close> is the address the linker gives the symbol \<^verbatim>\<open>end\<close>, the end of the kernel image.\<close>

record kalloc_state = kern +
  kend :: u64
  freelist :: u64

definition kfree :: "u64 \<Rightarrow> ('z kalloc_state_scheme, unit) K" where
  "kfree pa =
     bindK (getK kend) (\<lambda>e.
     seqK [panic_if (pa mod PGSIZE \<noteq> 0 \<or> pa < e \<or> PHYSTOP \<le> pa) ''kfree'',
           setmem (\<lambda>m. memset m pa 1 PGSIZE),
           acquire LkKmem,
           modifyK (\<lambda>s. s\<lparr>pmem := store64 (pmem s) pa (freelist s)\<rparr>),
           modifyK (\<lambda>s. s\<lparr>freelist := pa\<rparr>),
           release LkKmem])"

definition kalloc :: "('z kalloc_state_scheme, u64) K" where
  "kalloc =
     thenK (acquire LkKmem)
     (bindK (getK freelist) (\<lambda>r.
      thenK (seqK [whenK (r \<noteq> 0) (modifyK (\<lambda>s. s\<lparr>freelist := load64 (pmem s) r\<rparr>)),
                   release LkKmem,
                   whenK (r \<noteq> 0) (setmem (\<lambda>m. memset m r 5 PGSIZE))])
      (returnK r)))"

text \<open>Pointers in \<open>freerange\<close> do not wrap around: the loop compares them as numbers.\<close>

function freerange_loop :: "nat \<Rightarrow> nat \<Rightarrow> ('z kalloc_state_scheme, unit) K" where
  "freerange_loop p pa_end =
     (if p + PGSIZE \<le> pa_end
      then thenK (kfree (of_nat p)) (freerange_loop (p + PGSIZE) pa_end)
      else returnK ())"
  by pat_completeness auto
termination
  by (relation "measure (\<lambda>(p, e). e - p)") auto

declare freerange_loop.simps [simp del]

definition freerange :: "u64 \<Rightarrow> u64 \<Rightarrow> ('z kalloc_state_scheme, unit) K" where
  "freerange pa_start pa_end = freerange_loop (unat (PGROUNDUP pa_start)) (unat pa_end)"

definition kinit :: "('z kalloc_state_scheme, unit) K" where
  "kinit = bindK (getK kend) (\<lambda>e. freerange e PHYSTOP)"

section \<open>Pages\<close>

definition in_page :: "u64 \<Rightarrow> u64 \<Rightarrow> bool" where
  "in_page p x \<longleftrightarrow> unat (x - p) < PGSIZE"

definition valid_page :: "u64 \<Rightarrow> u64 \<Rightarrow> bool" where
  "valid_page e p \<longleftrightarrow> page_aligned p \<and> e \<le> p \<and> p < PHYSTOP"

lemma page_offset_unat:
  assumes "page_aligned p" "i < PGSIZE"
  shows "unat (p + of_nat i) = unat p + i"
proof -
  obtain k where k: "unat p = 4096 * k" using assms(1) by (auto simp: page_aligned_def mod_eq_0_iff_dvd)
  have "unat p < 2 ^ 64" using unsigned_less [of p] by simp
  then have "k < 2 ^ 52" unfolding k by simp
  then have "unat p + i < 2 ^ 64" using assms(2) unfolding k by simp
  then show ?thesis by (simp add: unat_word_ariths unat_of_nat64)
qed

lemma in_pageE:
  assumes "in_page p x" obtains i where "i < PGSIZE" "x = p + of_nat i"
proof
  show "unat (x - p) < PGSIZE" using assms by (simp add: in_page_def)
  show "x = p + of_nat (unat (x - p))" by simp
qed

lemma in_page_div:
  assumes "page_aligned p" "in_page p x" shows "unat x div PGSIZE = unat p div PGSIZE"
  using assms by (auto elim!: in_pageE simp: page_offset_unat page_aligned_def)

lemma page_aligned_eqI:
  assumes "page_aligned p" "page_aligned q" "unat p div PGSIZE = unat q div PGSIZE" shows "p = q"
  using assms by (metis (no_types, lifting) div_mult_mod_eq page_aligned_def word_unat_eq_iff)

lemma pages_disjoint:
  assumes "page_aligned p" "page_aligned q" "p \<noteq> q" "in_page p x" shows "\<not> in_page q x"
  using assms in_page_div page_aligned_eqI by metis

lemma in_page_offset: "i < PGSIZE \<Longrightarrow> in_page p (p + of_nat i)"
  by (simp add: in_page_def unat_of_nat64)

lemma page_multiples:
  assumes "page_aligned q" "(p :: nat) mod PGSIZE = 0"
  shows "\<exists>a b. unat q = 4096 * a \<and> p = 4096 * b"
  using assms by (auto simp: page_aligned_def mod_eq_0_iff_dvd elim!: dvdE)

lemma page_step:
  assumes "page_aligned q" "p mod PGSIZE = 0" "p \<le> unat q" "q \<noteq> of_nat p"
  shows "p + PGSIZE \<le> unat q"
proof -
  obtain a b where "unat q = 4096 * a" "p = 4096 * b"
    using page_multiples [OF assms(1,2)] by blast
  moreover have "unat q \<noteq> p" using assms(4) by auto
  ultimately show ?thesis using assms(3) by auto
qed

lemma page_room:
  assumes "page_aligned q" "p mod PGSIZE = 0" "p \<le> unat q" "unat q < unat (PHYSTOP :: u64)"
  shows "p + PGSIZE \<le> unat (PHYSTOP :: u64)"
proof -
  obtain a b where "unat q = 4096 * a" "p = 4096 * b"
    using page_multiples [OF assms(1,2)] by blast
  then show ?thesis using assms(3,4) by simp
qed

lemma page_round:
  assumes "page_aligned q" "p mod PGSIZE = 0" "e \<le> p" "p < e + PGSIZE" "e \<le> unat q"
  shows "p \<le> unat q"
proof -
  obtain a b where "unat q = 4096 * a" "p = 4096 * b"
    using page_multiples [OF assms(1,2)] by blast
  then show ?thesis using assms(3-5) by simp
qed

section \<open>The free list\<close>

primrec runs :: "mem \<Rightarrow> u64 \<Rightarrow> u64 list \<Rightarrow> bool" where
  "runs m p [] \<longleftrightarrow> p = 0"
| "runs m p (q # qs) \<longleftrightarrow> p = q \<and> q \<noteq> 0 \<and> runs m (load64 m q) qs"

definition kalloc_ok :: "'z kalloc_state_scheme \<Rightarrow> u64 list \<Rightarrow> bool" where
  "kalloc_ok s fl \<longleftrightarrow>
     0 < kend s \<and> LkKmem \<notin> set (held s) \<and> runs (pmem s) (freelist s) fl \<and> distinct fl
     \<and> (\<forall>p\<in>set fl. valid_page (kend s) p)"

lemma load64_cong:
  assumes "\<And>i. i < 8 \<Longrightarrow> m (a + of_nat i) = m' (a + of_nat i)" shows "load64 m a = load64 m' a"
proof -
  have "mread m a 8 = mread m' a 8" unfolding mread_def using assms by (intro map_cong) auto
  then show ?thesis by (rule load64_mread_cong)
qed

lemma runs_cong:
  assumes "runs m p fl" "\<And>q x. q \<in> set fl \<Longrightarrow> in_page q x \<Longrightarrow> m' x = m x"
  shows "runs m' p fl"
  using assms
proof (induction fl arbitrary: p)
  case (Cons q fl)
  have "load64 m' q = load64 m q"
    using Cons.prems(2) [of q] by (intro load64_cong) (simp add: in_page_offset)
  then show ?case using Cons by auto
qed simp

lemma valid_pageD:
  assumes "valid_page e p" shows "page_aligned p" "e \<le> p" "p < PHYSTOP" "0 < e \<Longrightarrow> p \<noteq> 0"
  using assms by (auto simp: valid_page_def word_less_nat_alt word_le_nat_alt)

lemma mod_PGSIZE: "(p :: u64) mod PGSIZE = 0 \<longleftrightarrow> page_aligned p"
  by (simp add: page_aligned_def word_unat_eq_iff unat_mod_distrib)

lemma kfree_guard: "(pa mod PGSIZE \<noteq> 0 \<or> pa < e \<or> PHYSTOP \<le> pa) \<longleftrightarrow> \<not> valid_page e pa"
  unfolding valid_page_def mod_PGSIZE by (auto simp: not_less not_le)

lemma kfree_panics: "\<not> valid_page (kend s) pa \<Longrightarrow> kfree pa s = Panic ''kfree''"
  unfolding kfree_def by (simp only: kfree_guard) (simp add: K_defs)

lemma kfree_eq:
  assumes "valid_page (kend s) pa" "LkKmem \<notin> set (held s)"
  shows "kfree pa s = Ok () (s\<lparr>pmem := store64 (memset (pmem s) pa 1 PGSIZE) pa (freelist s), freelist := pa\<rparr>)"
  using assms unfolding kfree_def by (simp only: kfree_guard) (simp add: K_defs setmem_def)

lemma kalloc_eq:
  assumes "LkKmem \<notin> set (held s)"
  shows "kalloc s = Ok (freelist s)
     (if freelist s = 0 then s
      else s\<lparr>freelist := load64 (pmem s) (freelist s), pmem := memset (pmem s) (freelist s) 5 PGSIZE\<rparr>)"
  using assms by (simp add: kalloc_def K_defs setmem_def)

lemma store64_outside: "8 \<le> unat (x - a) \<Longrightarrow> store64 m a v x = m x"
  by (simp add: store64_def mwrite_outside)

lemma fill_outside:
  assumes "\<not> in_page p x"
  shows "store64 (memset m p 1 PGSIZE) p v x = m x" "memset m p c PGSIZE x = m x"
  using assms by (simp_all add: in_page_def store64_outside memset_eq)

lemma kfree_correct:
  assumes ok: "kalloc_ok s fl" and v: "valid_page (kend s) pa" and new: "pa \<notin> set fl"
  shows "\<exists>t. kfree pa s = Ok () t \<and> kalloc_ok t (pa # fl)
           \<and> (\<forall>x. \<not> in_page pa x \<longrightarrow> pmem t x = pmem s x) \<and> held t = held s"
proof -
  let ?m = "store64 (memset (pmem s) pa 1 PGSIZE) pa (freelist s)"
  have disj: "\<not> in_page pa x" if "q \<in> set fl" "in_page q x" for q x
    using that ok new v pages_disjoint [of q pa x] by (auto simp: kalloc_ok_def valid_page_def)
  have "runs ?m (freelist s) fl"
    using ok by (auto simp: kalloc_ok_def fill_outside disj intro: runs_cong [of "pmem s"])
  moreover have "load64 ?m pa = freelist s" by simp
  ultimately show ?thesis
    using ok v new valid_pageD(4) [OF v]
    by (simp add: kfree_eq kalloc_ok_def fill_outside)
qed

lemma kalloc_correct:
  assumes ok: "kalloc_ok s (p # fl)"
  shows "\<exists>t. kalloc s = Ok p t \<and> kalloc_ok t fl
           \<and> (\<forall>x. pmem t x = (if in_page p x then 5 else pmem s x)) \<and> held t = held s"
proof -
  have p: "freelist s = p" "p \<noteq> 0" "runs (pmem s) (load64 (pmem s) p) fl" "valid_page (kend s) p"
    using ok by (auto simp: kalloc_ok_def)
  have disj: "\<not> in_page p x" if "q \<in> set fl" "in_page q x" for q x
    using that ok pages_disjoint [of q p x] by (auto simp: kalloc_ok_def valid_page_def)
  have "runs (memset (pmem s) p 5 PGSIZE) (load64 (pmem s) p) fl"
    by (rule runs_cong [OF p(3)]) (auto dest: disj simp: fill_outside)
  then show ?thesis
    using ok p by (simp add: kalloc_eq kalloc_ok_def memset_eq in_page_def)
qed

lemma kalloc_empty:
  assumes "kalloc_ok s []" shows "kalloc s = Ok 0 s"
  using assms by (simp add: kalloc_eq kalloc_ok_def)

section \<open>Initialisation\<close>

lemma freerange_loop_correct:
  assumes "kalloc_ok s fl" "p mod PGSIZE = 0" "unat (kend s) \<le> p" "\<forall>q\<in>set fl. unat q < p"
  shows "\<exists>t fl'. freerange_loop p (unat (PHYSTOP :: u64)) s = Ok () t \<and> kalloc_ok t fl'
           \<and> set fl' = set fl \<union> {q. page_aligned q \<and> p \<le> unat q \<and> q < PHYSTOP} \<and> kend t = kend s"
  using assms
proof (induction p "unat (PHYSTOP :: u64)" arbitrary: s fl rule: freerange_loop.induct)
  case (1 p)
  show ?case
  proof (cases "p + PGSIZE \<le> unat (PHYSTOP :: u64)")
    case True
    then have up: "unat (of_nat p :: u64) = p" by (simp add: unat_of_nat64)
    have v: "valid_page (kend s) (of_nat p)"
      using True 1(3,4) up by (simp add: valid_page_def page_aligned_def word_le_nat_alt word_less_nat_alt)
    have "of_nat p \<notin> set fl" using 1(5) up by auto
    from kfree_correct [OF 1(2) v this]
    obtain t where t: "kfree (of_nat p) s = Ok () t" "kalloc_ok t (of_nat p # fl)" by blast
    have kt: "kend t = kend s" using t(1) v 1(2) by (auto simp: kfree_eq kalloc_ok_def)
    have "\<exists>u fl'. freerange_loop (p + PGSIZE) (unat (PHYSTOP :: u64)) t = Ok () u \<and> kalloc_ok u fl'
        \<and> set fl' = set (of_nat p # fl) \<union> {q. page_aligned q \<and> p + PGSIZE \<le> unat q \<and> q < PHYSTOP}
        \<and> kend u = kend t"
      using True 1(3,4,5) up kt t(2) by (intro 1(1)) auto
    moreover have "{q. page_aligned q \<and> p \<le> unat q \<and> q < PHYSTOP}
        = insert (of_nat p) {q. page_aligned q \<and> p + PGSIZE \<le> unat q \<and> q < PHYSTOP}"
      using 1(3) v up page_step [of _ p] by (auto simp: valid_page_def)
    ultimately show ?thesis
      using True kt by (auto simp: freerange_loop.simps [of p] thenK_def bindK_def t(1))
  next
    case False
    then have "{q. page_aligned q \<and> p \<le> unat q \<and> q < PHYSTOP} = {}"
      using 1(3) page_room [of _ p] by (auto simp: word_less_nat_alt)
    then show ?thesis using False 1(2) by (auto simp: freerange_loop.simps [of p] returnK_def)
  qed
qed

lemma kinit_correct:
  assumes "kalloc_ok s []" "kend s \<le> PHYSTOP"
  shows "\<exists>t fl. kinit s = Ok () t \<and> kalloc_ok t fl \<and> set fl = {p. valid_page (kend s) p}"
proof -
  let ?p = "unat (PGROUNDUP (kend s))"
  have k: "unat (kend s) \<le> ?p" "?p mod PGSIZE = 0" and rnd: "?p < unat (kend s) + PGSIZE"
    using assms(2) by (auto simp: unat_PGROUNDUP word_le_nat_alt)
  have "page_aligned q \<Longrightarrow> (?p \<le> unat q) = (kend s \<le> q)" for q
    using page_round [OF _ k(2) k(1) rnd] k(1) by (auto simp: word_le_nat_alt)
  then have "{q. page_aligned q \<and> ?p \<le> unat q \<and> q < PHYSTOP} = {p. valid_page (kend s) p}"
    by (auto simp: valid_page_def)
  with freerange_loop_correct [OF assms(1) k(2,1)] show ?thesis
    by (fastforce simp: kinit_def freerange_def K_defs)
qed

section \<open>The interface of the allocator\<close>

locale page_allocator =
  fixes alloc :: "'s \<Rightarrow> (u64, 's) outcome"
    and free :: "u64 \<Rightarrow> 's \<Rightarrow> (unit, 's) outcome"
    and avail :: "'s \<Rightarrow> u64 list \<Rightarrow> bool"
    and memory :: "'s \<Rightarrow> mem"
    and usable :: "'s \<Rightarrow> u64 \<Rightarrow> bool"
  assumes alloc_page: "avail s (p # fl) \<Longrightarrow>
      \<exists>t. alloc s = Ok p t \<and> avail t fl \<and> usable t = usable s
        \<and> (\<forall>x. \<not> in_page p x \<longrightarrow> memory t x = memory s x)"
    and alloc_fail: "avail s [] \<Longrightarrow> alloc s = Ok 0 s"
    and free_page: "avail s fl \<Longrightarrow> usable s p \<Longrightarrow> p \<notin> set fl \<Longrightarrow>
      \<exists>t. free p s = Ok () t \<and> avail t (p # fl) \<and> usable t = usable s
        \<and> (\<forall>x. \<not> in_page p x \<longrightarrow> memory t x = memory s x)"
    and avail_distinct: "avail s fl \<Longrightarrow> distinct fl"
    and avail_usable: "avail s fl \<Longrightarrow> p \<in> set fl \<Longrightarrow> usable s p"
    and usable_aligned: "avail s fl \<Longrightarrow> usable s p \<Longrightarrow> page_aligned p \<and> p \<noteq> 0"
begin

lemma alloc_not_free:
  assumes "avail s fl" "alloc s = Ok p t"
  shows "(p = 0 \<and> fl = []) \<or> (p \<noteq> 0 \<and> (\<exists>fl'. fl = p # fl' \<and> avail t fl' \<and> p \<notin> set fl'))"
proof (cases fl)
  case Nil
  then show ?thesis using assms alloc_fail by simp
next
  case (Cons q fl')
  with assms alloc_page [of s q fl'] have "q = p" "avail t fl'" by auto
  then show ?thesis
    using Cons assms(1) avail_distinct [of s fl] avail_usable [of s fl p] usable_aligned [of s fl p] by auto
qed

lemma free_then_alloc:
  assumes "avail s fl" "usable s p" "p \<notin> set fl"
  shows "\<exists>t. thenK (free p) alloc s = Ok p t \<and> avail t fl
          \<and> (\<forall>x. \<not> in_page p x \<longrightarrow> memory t x = memory s x)"
proof -
  obtain u where u: "free p s = Ok () u" "avail u (p # fl)" "\<forall>x. \<not> in_page p x \<longrightarrow> memory u x = memory s x"
    using free_page [OF assms] by blast
  obtain t where "alloc u = Ok p t" "avail t fl" "\<forall>x. \<not> in_page p x \<longrightarrow> memory t x = memory u x"
    using alloc_page [OF u(2)] by blast
  then show ?thesis using u by (auto simp: thenK_def bindK_def)
qed

lemma alloc_alloc_distinct:
  assumes "avail s (p # q # fl)"
  shows "\<exists>t u. alloc s = Ok p t \<and> alloc t = Ok q u \<and> p \<noteq> q \<and> (\<forall>x. in_page p x \<longrightarrow> memory u x = memory t x)"
proof -
  obtain t where t: "alloc s = Ok p t" "avail t (q # fl)" "usable t = usable s"
    using alloc_page [OF assms] by blast
  obtain u where u: "alloc t = Ok q u" "\<forall>x. \<not> in_page q x \<longrightarrow> memory u x = memory t x"
    using alloc_page [OF t(2)] by blast
  have ne: "p \<noteq> q" using avail_distinct [OF assms] by auto
  have "page_aligned p" "page_aligned q"
    using usable_aligned [OF assms] avail_usable [OF assms] by auto
  then show ?thesis using t u ne pages_disjoint by blast
qed

end

lemma kalloc_kend: "kalloc s = Ok p t \<Longrightarrow> LkKmem \<notin> set (held s) \<Longrightarrow> kend t = kend s"
  by (auto simp: kalloc_eq split: if_splits)

lemma kfree_kend: "kfree p s = Ok () t \<Longrightarrow> LkKmem \<notin> set (held s) \<Longrightarrow> kend t = kend s"
  by (cases "valid_page (kend s) p") (auto simp: kfree_eq kfree_panics)

lemma kalloc_ok_lock: "kalloc_ok s fl \<Longrightarrow> LkKmem \<notin> set (held s)"
  by (simp add: kalloc_ok_def)

interpretation pages: page_allocator kalloc kfree kalloc_ok pmem "\<lambda>s. valid_page (kend s)"
proof
  fix s :: "'z kalloc_state_scheme" and p fl
  show "\<exists>t. kalloc s = Ok p t \<and> kalloc_ok t fl \<and> valid_page (kend t) = valid_page (kend s)
        \<and> (\<forall>x. \<not> in_page p x \<longrightarrow> pmem t x = pmem s x)" if "kalloc_ok s (p # fl)"
    using kalloc_correct [OF that] kalloc_kend kalloc_ok_lock [OF that] by fastforce
  show "kalloc s = Ok 0 s" if "kalloc_ok s []" using that by (rule kalloc_empty)
  show "\<exists>t. kfree p s = Ok () t \<and> kalloc_ok t (p # fl) \<and> valid_page (kend t) = valid_page (kend s)
        \<and> (\<forall>x. \<not> in_page p x \<longrightarrow> pmem t x = pmem s x)"
    if "kalloc_ok s fl" "valid_page (kend s) p" "p \<notin> set fl"
    using kfree_correct [OF that] kfree_kend kalloc_ok_lock [OF that(1)] by fastforce
  show "distinct fl" if "kalloc_ok s fl" using that by (simp add: kalloc_ok_def)
  show "valid_page (kend s) p" if "kalloc_ok s fl" "p \<in> set fl" using that by (simp add: kalloc_ok_def)
  show "page_aligned p \<and> p \<noteq> 0" if "kalloc_ok s fl" "valid_page (kend s) p"
    using that valid_pageD [OF that(2)] by (simp add: kalloc_ok_def)
qed

section \<open>Properties\<close>

definition boot_kalloc :: "u64 \<Rightarrow> kalloc_state" where
  "boot_kalloc e = kern.extend boot_kern \<lparr>kend = e, freelist = 0\<rparr>"

lemma boot_kalloc_ok: "0 < e \<Longrightarrow> kalloc_ok (boot_kalloc e) []"
  by (simp add: kalloc_ok_def boot_kalloc_def boot_kern_def kern.defs)

lemma boot_kalloc_kend [simp]: "kend (boot_kalloc e) = e"
  by (simp add: boot_kalloc_def kern.defs)

text \<open>C28. After \<open>kinit\<close> every whole page between the end of the kernel and \<^verbatim>\<open>PHYSTOP\<close> is on the
  free list exactly once, and nothing else is.\<close>

theorem kinit_free_pages:
  assumes "kalloc_ok s []" "kend s \<le> PHYSTOP"
  shows "\<exists>t fl. kinit s = Ok () t \<and> kalloc_ok t fl \<and> set fl = {p. valid_page (kend s) p}"
  using assms by (rule kinit_correct)

theorem kinit_free_pages_witness:
  "\<exists>t fl. kinit (boot_kalloc 0x80021000) = Ok () t \<and> kalloc_ok t fl \<and> set fl = {p. valid_page 0x80021000 p}"
  using kinit_free_pages [OF boot_kalloc_ok [of "0x80021000"]] by simp

text \<open>C29. A page that \<open>kfree\<close> gives back is the page the next \<open>kalloc\<close> returns; the free list
  is then what it was, and no byte outside the page has changed.\<close>

theorem kfree_kalloc:
  assumes "kalloc_ok s fl" "valid_page (kend s) p" "p \<notin> set fl"
  shows "\<exists>t. thenK (kfree p) kalloc s = Ok p t \<and> kalloc_ok t fl
           \<and> (\<forall>x. \<not> in_page p x \<longrightarrow> pmem t x = pmem s x)"
  using assms by (rule pages.free_then_alloc)

theorem kfree_kalloc_witness:
  "\<exists>t. thenK (kfree 0x80030000) kalloc (boot_kalloc 0x80021000) = Ok 0x80030000 t \<and> kalloc_ok t []"
  using kfree_kalloc [OF boot_kalloc_ok [of "0x80021000"], of "0x80030000"]
  by (auto simp: valid_page_def page_aligned_def)

text \<open>\<open>kalloc\<close> hands out a page only once: two calls in a row return different pages, and
  what the second does leaves the page of the first alone.\<close>

theorem kalloc_twice:
  assumes "kalloc_ok s (p # q # fl)"
  shows "\<exists>t u. kalloc s = Ok p t \<and> kalloc t = Ok q u \<and> p \<noteq> q \<and> (\<forall>x. in_page p x \<longrightarrow> pmem u x = pmem t x)"
  using assms by (rule pages.alloc_alloc_distinct)

lemma two_free_pages:
  "\<exists>s. thenK (kfree 0x80030000) (kfree 0x80031000) (boot_kalloc 0x80021000) = Ok () s
     \<and> kalloc_ok s [0x80031000, 0x80030000]"
proof -
  obtain s where s: "kfree 0x80030000 (boot_kalloc 0x80021000) = Ok () s" "kalloc_ok s [0x80030000]"
    using kfree_correct [OF boot_kalloc_ok [of "0x80021000"], of "0x80030000"]
    by (auto simp: valid_page_def page_aligned_def)
  have "kend s = 0x80021000"
    using kfree_kend [OF s(1)] by (simp add: boot_kalloc_def boot_kern_def kern.defs)
  then show ?thesis
    using kfree_correct [OF s(2), of "0x80031000"] s(1)
    by (auto simp: valid_page_def page_aligned_def thenK_def bindK_def)
qed

theorem kalloc_twice_witness:
  "\<exists>s t u. thenK (kfree 0x80030000) (kfree 0x80031000) (boot_kalloc 0x80021000) = Ok () s
     \<and> kalloc s = Ok 0x80031000 t \<and> kalloc t = Ok 0x80030000 u"
proof -
  obtain s where s: "thenK (kfree 0x80030000) (kfree 0x80031000) (boot_kalloc 0x80021000) = Ok () s"
    "kalloc_ok s [0x80031000, 0x80030000]" using two_free_pages by blast
  show ?thesis using kalloc_twice [OF s(2)] s(1) by auto
qed

end
