(* ===== verification/Sleeplocks.thy ===== *)
theory Sleeplocks
  imports Kalloc
begin

text \<open>
  \<^verbatim>\<open>kernel/sleeplock.c\<close>: locks that are held while a thread sleeps.  The closed forms are for a
  thread that holds no spin lock, which is how the kernel calls these functions.
\<close>

record sleeplock =
  slocked :: u32
  spid :: int

record sleep_state = kalloc_state +
  slks :: "sleepid \<Rightarrow> sleeplock"

definition upd_slk :: "sleepid \<Rightarrow> (sleeplock \<Rightarrow> sleeplock) \<Rightarrow> ('z sleep_state_scheme, unit) K" where
  "upd_slk l f = modifyK (\<lambda>s. s\<lparr>slks := (slks s)(l := f (slks s l))\<rparr>)"

definition mypid :: "'z kern_scheme \<Rightarrow> int" where
  "mypid s = (case curproc s of None \<Rightarrow> 0 | Some p \<Rightarrow> pid (procs s p))"

definition initsleeplock :: "sleepid \<Rightarrow> ('z sleep_state_scheme, unit) K" where
  "initsleeplock l = seqK [upd_slk l (\<lambda>k. k\<lparr>slocked := 0\<rparr>), upd_slk l (\<lambda>k. k\<lparr>spid := 0\<rparr>)]"

text \<open>
  The loop of \<open>acquiresleep\<close>: when the lock is taken the thread goes to sleep, and tests the
  lock again once it has been woken and has run \<open>sleep_tail\<close>.
\<close>

definition acquiresleep :: "sleepid \<Rightarrow> ('z sleep_state_scheme, unit) K" where
  "acquiresleep l =
     thenK (acquire (LkSleep l))
     (bindK (getK (\<lambda>s. slocked (slks s l))) (\<lambda>taken.
      bindK (thenK (whenK (taken \<noteq> 0) (sleep (ChSleeplock l) (LkSleep l))) myproc) (\<lambda>p.
      bindK (getK (\<lambda>s. pid (procs s p))) (\<lambda>me.
      seqK [upd_slk l (\<lambda>k. k\<lparr>slocked := 1\<rparr>),
            upd_slk l (\<lambda>k. k\<lparr>spid := me\<rparr>),
            release (LkSleep l)]))))"

definition releasesleep :: "sleepid \<Rightarrow> ('z sleep_state_scheme, unit) K" where
  "releasesleep l =
     seqK [acquire (LkSleep l),
           upd_slk l (\<lambda>k. k\<lparr>slocked := 0\<rparr>),
           upd_slk l (\<lambda>k. k\<lparr>spid := 0\<rparr>),
           wakeup (ChSleeplock l),
           release (LkSleep l)]"

definition holdingsleep :: "sleepid \<Rightarrow> ('z sleep_state_scheme, bool) K" where
  "holdingsleep l =
     thenK (acquire (LkSleep l))
     (bindK myproc (\<lambda>p.
      bindK (getK (\<lambda>s. slocked (slks s l) \<noteq> 0 \<and> spid (slks s l) = pid (procs s p))) (\<lambda>r.
      thenK (release (LkSleep l)) (returnK r))))"

section \<open>Closed forms\<close>

definition quiet :: "'z kern_scheme \<Rightarrow> bool" where
  "quiet s \<longleftrightarrow> held s = [] \<and> curproc s \<noteq> None"

lemma acquiresleep_eq:
  assumes "quiet s" "slocked (slks s l) = 0"
  shows "acquiresleep l s = Ok () (s\<lparr>slks := (slks s)(l := \<lparr>slocked = 1, spid = mypid s\<rparr>)\<rparr>)"
  using assms by (cases "slks s l") (auto simp: quiet_def acquiresleep_def upd_slk_def mypid_def K_defs)

lemma acquiresleep_blocks:
  assumes "quiet s" "slocked (slks s l) \<noteq> 0"
  shows "\<exists>t. acquiresleep l s = Block (ChSleeplock l) t \<and> held t = []
           \<and> (\<forall>p. curproc s = Some p \<longrightarrow> state (procs t p) = SLEEPING \<and> chan (procs t p) = Some (ChSleeplock l))"
proof -
  obtain p where p: "curproc s = Some p" using assms(1) by (auto simp: quiet_def)
  have s: "held s = []" "curproc s = Some p" using assms(1) p by (auto simp: quiet_def)
  have "sleep (ChSleeplock l) (LkSleep l) (s\<lparr>held := [LkSleep l]\<rparr>)
      = Block (ChSleeplock l) (s\<lparr>procs := (procs s)(p := (procs s p)\<lparr>chan := Some (ChSleeplock l), state := SLEEPING\<rparr>), held := []\<rparr>)"
    using sleep_eq [of "s\<lparr>held := [LkSleep l]\<rparr>" p "LkSleep l" "ChSleeplock l"] s by simp
  then show ?thesis using assms(2) s by (simp add: acquiresleep_def K_defs)
qed

lemma releasesleep_eq:
  assumes "quiet s"
  shows "releasesleep l s = Ok () (s\<lparr>slks := (slks s)(l := \<lparr>slocked = 0, spid = 0\<rparr>),
           procs := wake_all (ChSleeplock l) (curproc s) (procs s)\<rparr>)"
  using assms by (cases "slks s l") (simp add: quiet_def releasesleep_def upd_slk_def wakeup_eq K_defs)

lemma holdingsleep_eq:
  assumes "quiet s"
  shows "holdingsleep l s = Ok (slocked (slks s l) \<noteq> 0 \<and> spid (slks s l) = mypid s) s"
  using assms by (auto simp: quiet_def holdingsleep_def mypid_def K_defs)

lemma pid_wake_all [simp]: "pid (wake_all ch me ps i) = pid (ps i)"
  by (simp add: wake_all_def wakeup1_def)

end
