(* ===== verification/Bio.thy ===== *)
theory Bio
  imports Sleeplocks
begin

text \<open>
  \<^verbatim>\<open>kernel/bio.c\<close>: the buffer cache.  Buffers are the indices \<open>0\<close> to \<open>NBUF - 1\<close> and the list head
  is the index \<open>NBUF\<close>; the least-recently-used order is kept in the \<open>bprev\<close> and \<open>bnext\<close> links, as
  in the code.  The disk is a map from block numbers to contents, and \<open>wtrace\<close> records the
  sequence of block writes it has received, which is what the crash analysis of the log needs.

  A block transfer (\<^verbatim>\<open>virtio_disk_rw\<close>) is one step here: the calling thread sleeps until the
  device has finished.  The invariant \<open>bio_ok\<close> says that the links form a ring through all
  buffers, that no block is cached twice and that a buffer nobody refers to is clean.  The
  lemmas then describe every operation by its effect on \<open>cont\<close>, the contents of a block as seen
  through the cache, and \<open>refs\<close>, the number of references to it.
\<close>

section \<open>State and operations\<close>

record buf =
  valid :: bool
  dev :: u32
  blockno :: u32
  refcnt :: u32
  bprev :: nat
  bnext :: nat
  data :: bytes

record bio_state = sleep_state +
  bufs :: "nat \<Rightarrow> buf"
  dsk :: "u32 \<Rightarrow> bytes"
  wtrace :: "(u32 \<times> bytes) list"

abbreviation (input) bhead :: nat where "bhead \<equiv> NBUF"

definition upd_buf :: "nat \<Rightarrow> (buf \<Rightarrow> buf) \<Rightarrow> ('z bio_state_scheme, unit) K" where
  "upd_buf b f = modifyK (\<lambda>s. s\<lparr>bufs := (bufs s)(b := f (bufs s b))\<rparr>)"

definition get_buf :: "nat \<Rightarrow> ('z bio_state_scheme, buf) K" where
  "get_buf b = getK (\<lambda>s. bufs s b)"

text \<open>
  Reading or writing a block.  The thread sleeps on the buffer with \<^verbatim>\<open>vdisk_lock\<close>, so it panics
  in \<open>sched\<close> when it holds another lock.
\<close>

definition disk_transfer :: "nat \<Rightarrow> bool \<Rightarrow> 'z bio_state_scheme \<Rightarrow> 'z bio_state_scheme" where
  "disk_transfer b write s =
     (if write
      then s\<lparr>dsk := (dsk s)(blockno (bufs s b) := data (bufs s b)),
             wtrace := wtrace s @ [(blockno (bufs s b), data (bufs s b))]\<rparr>
      else s\<lparr>bufs := (bufs s)(b := (bufs s b)\<lparr>data := dsk s (blockno (bufs s b))\<rparr>)\<rparr>)"

definition virtio_disk_rw :: "nat \<Rightarrow> bool \<Rightarrow> ('z bio_state_scheme, unit) K" where
  "virtio_disk_rw b write =
     thenK (acquire LkVdisk)
     (bindK (getK held) (\<lambda>h.
      seqK [panic_if (length h \<noteq> 1) ''sched locks'',
            modifyK (disk_transfer b write),
            release LkVdisk]))"

definition link_front :: "nat \<Rightarrow> ('z bio_state_scheme, unit) K" where
  "link_front b =
     seqK [modifyK (\<lambda>s. s\<lparr>bufs := (bufs s)(b := (bufs s b)\<lparr>bnext := bnext (bufs s bhead)\<rparr>)\<rparr>),
           upd_buf b (\<lambda>k. k\<lparr>bprev := bhead\<rparr>),
           bindK (getK (\<lambda>s. bnext (bufs s bhead))) (\<lambda>f. upd_buf f (\<lambda>k. k\<lparr>bprev := b\<rparr>)),
           upd_buf bhead (\<lambda>k. k\<lparr>bnext := b\<rparr>)]"

definition binit :: "('z bio_state_scheme, unit) K" where
  "binit =
     seqK [upd_buf bhead (\<lambda>k. k\<lparr>bprev := bhead\<rparr>),
           upd_buf bhead (\<lambda>k. k\<lparr>bnext := bhead\<rparr>),
           forK [0..<NBUF] (\<lambda>b. seqK [link_front b, initsleeplock (SlBuf b)])]"

text \<open>The two list scans of \<open>bget\<close>, in either direction, for at most \<open>fuel\<close> nodes.\<close>

fun scan :: "nat \<Rightarrow> (buf \<Rightarrow> nat) \<Rightarrow> (buf \<Rightarrow> bool) \<Rightarrow> (nat \<Rightarrow> buf) \<Rightarrow> nat \<Rightarrow> nat option" where
  "scan 0 link P bs b = None"
| "scan (Suc fuel) link P bs b =
     (if b = bhead then None
      else if P (bs b) then Some b
      else scan fuel link P bs (link (bs b)))"

definition scan_ring :: "(buf \<Rightarrow> nat) \<Rightarrow> (buf \<Rightarrow> bool) \<Rightarrow> 'z bio_state_scheme \<Rightarrow> nat option" where
  "scan_ring link P s = scan (NBUF + 1) link P (bufs s) (link (bufs s bhead))"

definition bget :: "u32 \<Rightarrow> u32 \<Rightarrow> ('z bio_state_scheme, nat) K" where
  "bget dv bn =
     thenK (acquire LkBcache)
     (bindK (getK (scan_ring bnext (\<lambda>k. dev k = dv \<and> blockno k = bn))) (\<lambda>r.
      case r of
        Some b \<Rightarrow>
          thenK (seqK [upd_buf b (\<lambda>k. k\<lparr>refcnt := refcnt k + 1\<rparr>),
                       release LkBcache,
                       acquiresleep (SlBuf b)])
          (returnK b)
      | None \<Rightarrow>
          bindK (getK (scan_ring bprev (\<lambda>k. refcnt k = 0))) (\<lambda>r.
          case r of
            Some b \<Rightarrow>
              thenK (seqK [upd_buf b (\<lambda>k. k\<lparr>dev := dv, blockno := bn, valid := False, refcnt := 1\<rparr>),
                           release LkBcache,
                           acquiresleep (SlBuf b)])
              (returnK b)
          | None \<Rightarrow> panicK ''bget: no buffers'')))"

definition bread :: "u32 \<Rightarrow> u32 \<Rightarrow> ('z bio_state_scheme, nat) K" where
  "bread dv bn =
     bindK (bget dv bn) (\<lambda>b.
     bindK (get_buf b) (\<lambda>k.
     thenK (whenK (\<not> valid k)
              (seqK [virtio_disk_rw b False, upd_buf b (\<lambda>k. k\<lparr>valid := True\<rparr>)]))
     (returnK b)))"

definition bwrite :: "nat \<Rightarrow> ('z bio_state_scheme, unit) K" where
  "bwrite b =
     bindK (holdingsleep (SlBuf b)) (\<lambda>h.
     seqK [panic_if (\<not> h) ''bwrite'', virtio_disk_rw b True])"

definition unlink :: "nat \<Rightarrow> ('z bio_state_scheme, unit) K" where
  "unlink b =
     bindK (get_buf b) (\<lambda>k.
     seqK [upd_buf (bnext k) (\<lambda>j. j\<lparr>bprev := bprev k\<rparr>),
           upd_buf (bprev k) (\<lambda>j. j\<lparr>bnext := bnext k\<rparr>)])"

definition brelse :: "nat \<Rightarrow> ('z bio_state_scheme, unit) K" where
  "brelse b =
     bindK (holdingsleep (SlBuf b)) (\<lambda>h.
     seqK [panic_if (\<not> h) ''brelse'',
           releasesleep (SlBuf b),
           acquire LkBcache,
           upd_buf b (\<lambda>k. k\<lparr>refcnt := refcnt k - 1\<rparr>),
           bindK (get_buf b) (\<lambda>k.
             whenK (refcnt k = 0) (seqK [unlink b, link_front b])),
           release LkBcache])"

definition bpin :: "nat \<Rightarrow> ('z bio_state_scheme, unit) K" where
  "bpin b = seqK [acquire LkBcache, upd_buf b (\<lambda>k. k\<lparr>refcnt := refcnt k + 1\<rparr>), release LkBcache]"

definition bunpin :: "nat \<Rightarrow> ('z bio_state_scheme, unit) K" where
  "bunpin b = seqK [acquire LkBcache, upd_buf b (\<lambda>k. k\<lparr>refcnt := refcnt k - 1\<rparr>), release LkBcache]"

section \<open>Doubly linked lists\<close>

text \<open>\<open>dll nx pv p xs q\<close>: following \<open>nx\<close> from \<open>p\<close> visits \<open>xs\<close> and arrives at \<open>q\<close>, and \<open>pv\<close> leads back.\<close>

primrec dll :: "(nat \<Rightarrow> nat) \<Rightarrow> (nat \<Rightarrow> nat) \<Rightarrow> nat \<Rightarrow> nat list \<Rightarrow> nat \<Rightarrow> bool" where
  "dll nx pv p [] q \<longleftrightarrow> nx p = q \<and> pv q = p"
| "dll nx pv p (x # xs) q \<longleftrightarrow> nx p = x \<and> pv x = p \<and> dll nx pv x xs q"

lemma dll_append: "dll nx pv p (xs @ x # ys) q \<longleftrightarrow> dll nx pv p xs x \<and> dll nx pv x ys q"
  by (induction xs arbitrary: p) auto

lemma dll_cong:
  assumes "dll nx pv p xs q" "\<And>y. y \<in> insert p (set xs) \<Longrightarrow> nx' y = nx y" "\<And>y. y \<in> insert q (set xs) \<Longrightarrow> pv' y = pv y"
  shows "dll nx' pv' p xs q"
  using assms by (induction xs arbitrary: p) auto

lemma dll_pv_last: "dll nx pv p xs q \<Longrightarrow> pv q = last (p # xs)"
  by (induction xs arbitrary: p) auto

lemma dll_nx_first: "dll nx pv p xs q \<Longrightarrow> nx p = hd (xs @ [q])"
  by (cases xs) auto

lemma dll_unlink:
  assumes "dll nx pv p xs b" "dll nx pv b ys q" "distinct (p # xs @ b # ys)" "q \<notin> set (xs @ b # ys)"
  shows "dll (nx(pv b := nx b)) (pv(nx b := pv b)) p (xs @ ys) q"
  using assms
proof (induction xs arbitrary: p)
  case Nil
  then have "pv b = p" by simp
  show ?case
  proof (cases ys)
    case Nil
    then show ?thesis using Nil.prems \<open>pv b = p\<close> by simp
  next
    case (Cons c cs)
    then have c: "dll nx pv c cs q" "nx b = c" using Nil.prems by auto
    have "dll (nx(p := c)) (pv(c := p)) c cs q"
      by (rule dll_cong [OF c(1)]) (use Cons Nil.prems in auto)
    then show ?thesis using Cons c(2) \<open>pv b = p\<close> by (simp add: fun_upd_def)
  qed
next
  case (Cons x xs)
  have "pv b \<in> set (x # xs)" using dll_pv_last [of nx pv x xs b] Cons.prems(1)
    by (metis dll.simps(2) last_in_set list.distinct(1))
  moreover have "nx b \<in> set ys \<union> {q}" using dll_nx_first [OF Cons.prems(2)] by (cases ys) auto
  ultimately show ?case using Cons by auto
qed

lemma dll_link_front:
  assumes "dll nx pv h xs h" "b \<notin> set (h # xs)" "h \<notin> set xs" "distinct xs"
  shows "dll (nx(b := nx h, h := b)) (pv(b := h, nx h := b)) h (b # xs) h"
  using assms by (cases xs) (auto intro!: dll_cong [of nx pv])

section \<open>The ring of buffers\<close>

definition lru_ring :: "(nat \<Rightarrow> buf) \<Rightarrow> nat list \<Rightarrow> bool" where
  "lru_ring bs xs \<longleftrightarrow> distinct xs \<and> set xs = {..<NBUF}
     \<and> dll (\<lambda>i. bnext (bs i)) (\<lambda>i. bprev (bs i)) bhead xs bhead"

lemma scan_find:
  assumes "dll (\<lambda>i. link (bs i)) pv p xs bhead" "bhead \<notin> set xs" "length xs < fuel"
  shows "scan fuel link P bs (link (bs p)) = find (\<lambda>i. P (bs i)) xs"
  using assms
proof (induction xs arbitrary: p fuel)
  case Nil
  then show ?case by (cases fuel) auto
next
  case (Cons x xs)
  then obtain f where "fuel = Suc f" by (cases fuel) auto
  then show ?case using Cons by auto
qed

lemma dll_rev: "dll nx pv p xs q \<longleftrightarrow> dll pv nx q (rev xs) p"
  by (induction xs arbitrary: p) (auto simp: dll_append)

text \<open>The scans look at every buffer: the fuel is enough.\<close>

lemma lru_ring_length: "lru_ring bs xs \<Longrightarrow> length xs = NBUF"
  unfolding lru_ring_def by (metis card_lessThan distinct_card)

lemma scan_ring_next:
  assumes "lru_ring (bufs s) xs"
  shows "scan_ring bnext P s = find (\<lambda>i. P (bufs s i)) xs"
  using assms scan_find [of bnext "bufs s" "\<lambda>i. bprev (bufs s i)" bhead xs "NBUF + 1" P] lru_ring_length [OF assms]
  by (simp add: scan_ring_def lru_ring_def)

lemma scan_ring_prev:
  assumes "lru_ring (bufs s) xs"
  shows "scan_ring bprev P s = find (\<lambda>i. P (bufs s i)) (rev xs)"
  using assms scan_find [of bprev "bufs s" "\<lambda>i. bnext (bufs s i)" bhead "rev xs" "NBUF + 1" P] lru_ring_length [OF assms]
  by (simp add: scan_ring_def lru_ring_def dll_rev [of "\<lambda>i. bnext (bufs s i)"])

lemma find_in_set: "find P xs = Some i \<Longrightarrow> i \<in> set xs \<and> P i"
  by (auto simp: find_Some_iff)

lemma lru_ring_cong:
  assumes "lru_ring bs xs" "\<And>i. i \<le> bhead \<Longrightarrow> bnext (bs' i) = bnext (bs i) \<and> bprev (bs' i) = bprev (bs i)"
  shows "lru_ring bs' xs"
proof -
  have "dll (\<lambda>i. bnext (bs' i)) (\<lambda>i. bprev (bs' i)) bhead xs bhead"
    by (rule dll_cong [of "\<lambda>i. bnext (bs i)" "\<lambda>i. bprev (bs i)"]) (use assms in \<open>auto simp: lru_ring_def\<close>)
  then show ?thesis using assms(1) by (simp add: lru_ring_def)
qed

lemma lru_ring_move:
  assumes ring: "lru_ring bs (xs @ b # ys)"
    and nx: "\<And>i. nx i = bnext (bs i)" and pv: "\<And>i. pv i = bprev (bs i)"
    and nx': "nx' = nx(pv b := nx b)" and pv': "pv' = pv(nx b := pv b)"
  shows "dll (nx'(b := nx' bhead, bhead := b)) (pv'(b := bhead, nx' bhead := b)) bhead (b # xs @ ys) bhead"
proof -
  have e: "(\<lambda>i. bnext (bs i)) = nx" "(\<lambda>i. bprev (bs i)) = pv" using nx pv by auto
  have d: "distinct (xs @ b # ys)" "set (xs @ b # ys) = {..<bhead}"
    "dll nx pv bhead xs b" "dll nx pv b ys bhead"
    using ring by (auto simp: lru_ring_def dll_append e)
  have h: "bhead \<notin> set (xs @ b # ys)" using d(2) by simp
  have "dll nx' pv' bhead (xs @ ys) bhead" unfolding nx' pv'
    by (rule dll_unlink [OF d(3,4)]) (use d(1) h in auto)
  then show ?thesis by (rule dll_link_front) (use d(1) h in auto)
qed

section \<open>The invariant and the view of the clients\<close>

definition caches :: "'z bio_state_scheme \<Rightarrow> nat \<Rightarrow> u32 \<Rightarrow> bool" where
  "caches s i b \<longleftrightarrow> i < NBUF \<and> dev (bufs s i) = ROOTDEV \<and> blockno (bufs s i) = b"

definition buf_ok :: "'z bio_state_scheme \<Rightarrow> nat \<Rightarrow> bool" where
  "buf_ok s i \<longleftrightarrow>
     (dev (bufs s i) = ROOTDEV \<longleftrightarrow> valid (bufs s i))
   \<and> (\<not> valid (bufs s i) \<longrightarrow> refcnt (bufs s i) = 0)
   \<and> (refcnt (bufs s i) = 0 \<longrightarrow> slocked (slks s (SlBuf i)) = 0)
   \<and> (valid (bufs s i) \<longrightarrow> length (data (bufs s i)) = BSIZE)
   \<and> (valid (bufs s i) \<and> refcnt (bufs s i) = 0 \<longrightarrow> data (bufs s i) = dsk s (blockno (bufs s i)))"

definition bio_ok :: "'z bio_state_scheme \<Rightarrow> bool" where
  "bio_ok s \<longleftrightarrow> quiet s \<and> (\<exists>xs. lru_ring (bufs s) xs)
     \<and> (\<forall>b i j. caches s i b \<longrightarrow> caches s j b \<longrightarrow> i = j)
     \<and> (\<forall>i<NBUF. buf_ok s i) \<and> (\<forall>b. length (dsk s b) = BSIZE)"

definition bidx :: "'z bio_state_scheme \<Rightarrow> u32 \<Rightarrow> nat option" where
  "bidx s b = find (\<lambda>i. caches s i b) [0..<NBUF]"

definition cont :: "'z bio_state_scheme \<Rightarrow> u32 \<Rightarrow> bytes" where
  "cont s b = (case bidx s b of None \<Rightarrow> dsk s b | Some i \<Rightarrow> data (bufs s i))"

definition refs :: "'z bio_state_scheme \<Rightarrow> u32 \<Rightarrow> nat" where
  "refs s b = (case bidx s b of None \<Rightarrow> 0 | Some i \<Rightarrow> unat (refcnt (bufs s i)))"

definition lockedb :: "'z bio_state_scheme \<Rightarrow> u32 \<Rightarrow> bool" where
  "lockedb s b \<longleftrightarrow> (case bidx s b of None \<Rightarrow> False | Some i \<Rightarrow> slocked (slks s (SlBuf i)) \<noteq> 0)"

text \<open>Buffer \<open>i\<close> is the caller's: it holds the buffer's lock.\<close>

definition mine :: "'z bio_state_scheme \<Rightarrow> nat \<Rightarrow> bool" where
  "mine s i \<longleftrightarrow> slocked (slks s (SlBuf i)) \<noteq> 0 \<and> spid (slks s (SlBuf i)) = mypid s"

definition inuse :: "'z bio_state_scheme \<Rightarrow> nat" where
  "inuse s = card {b. 0 < refs s b}"

text \<open>What no operation of the cache touches.\<close>

definition bframe :: "'z bio_state_scheme \<Rightarrow> 'z bio_state_scheme \<Rightarrow> bool" where
  "bframe s t \<longleftrightarrow> held t = held s \<and> curproc t = curproc s \<and> (\<forall>i. pid (procs t i) = pid (procs s i))
     \<and> pmem t = pmem s \<and> kend t = kend s \<and> freelist t = freelist s
     \<and> (\<forall>i. slks t (SlInode i) = slks s (SlInode i)) \<and> bio_state.more t = bio_state.more s"

lemma bframe_refl [simp]: "bframe s s"
  by (simp add: bframe_def)

lemma bframe_trans: "bframe s t \<Longrightarrow> bframe t u \<Longrightarrow> bframe s u"
  by (simp add: bframe_def)

lemma bframe_mypid: "bframe s t \<Longrightarrow> mypid t = mypid s"
  by (simp add: bframe_def mypid_def split: option.splits)

lemma bframe_quiet: "bframe s t \<Longrightarrow> quiet t \<longleftrightarrow> quiet s"
  by (simp add: bframe_def quiet_def)

definition unique_bufs :: "'z bio_state_scheme \<Rightarrow> bool" where
  "unique_bufs s \<longleftrightarrow> (\<forall>b i j. caches s i b \<longrightarrow> caches s j b \<longrightarrow> i = j)"

lemma bio_ok_unique: "bio_ok s \<Longrightarrow> unique_bufs s"
  by (simp add: bio_ok_def unique_bufs_def)

lemma bidx_None: "bidx s b = None \<longleftrightarrow> (\<forall>i. \<not> caches s i b)"
  unfolding bidx_def find_None_iff by (auto simp: caches_def)

lemma bidx_Some:
  assumes "unique_bufs s" shows "bidx s b = Some i \<longleftrightarrow> caches s i b"
proof
  assume "bidx s b = Some i"
  then show "caches s i b" unfolding bidx_def using find_in_set by fastforce
next
  assume c: "caches s i b"
  then obtain j where j: "bidx s b = Some j" using bidx_None by (metis not_Some_eq)
  then have "caches s j b" unfolding bidx_def using find_in_set by fastforce
  then show "bidx s b = Some i" using c j assms by (auto simp: unique_bufs_def)
qed

lemma view_cached:
  assumes "unique_bufs s" "caches s i b"
  shows "cont s b = data (bufs s i)" "refs s b = unat (refcnt (bufs s i))"
    "lockedb s b \<longleftrightarrow> slocked (slks s (SlBuf i)) \<noteq> 0"
  using assms bidx_Some [OF assms(1), of b i] by (simp_all add: cont_def refs_def lockedb_def)

lemma view_uncached:
  assumes "\<And>i. \<not> caches s i b"
  shows "cont s b = dsk s b" "refs s b = 0" "\<not> lockedb s b"
  using assms bidx_None [of s b] by (simp_all add: cont_def refs_def lockedb_def)

section \<open>Closed forms of the operations\<close>

lemma scan_ring_held [simp]: "scan_ring link P (s\<lparr>held := h\<rparr>) = scan_ring link P s"
  by (simp add: scan_ring_def)

text \<open>Updates of the lock list move below the updates of the cache's own fields.\<close>

lemma held_commute [simp]:
  "s\<lparr>bufs := b, held := h\<rparr> = s\<lparr>held := h, bufs := b\<rparr>" "s\<lparr>dsk := d, held := h\<rparr> = s\<lparr>held := h, dsk := d\<rparr>"
  "s\<lparr>wtrace := w, held := h\<rparr> = s\<lparr>held := h, wtrace := w\<rparr>" "s\<lparr>slks := l, held := h\<rparr> = s\<lparr>held := h, slks := l\<rparr>"
  by (rule bio_state.equality; simp)+

lemma held_triv [simp]: "held s = h \<Longrightarrow> s\<lparr>held := h\<rparr> = s"
  by (rule kern.equality) simp_all

lemma quiet_held: "quiet s \<Longrightarrow> held s = []"
  by (simp add: quiet_def)

lemma quiet_upd [simp]:
  "quiet (s\<lparr>bufs := x\<rparr>) \<longleftrightarrow> quiet s" "quiet (s\<lparr>slks := y\<rparr>) \<longleftrightarrow> quiet s" "quiet (s\<lparr>dsk := d\<rparr>) \<longleftrightarrow> quiet s"
  "quiet (s\<lparr>wtrace := w\<rparr>) \<longleftrightarrow> quiet s" "quiet (s\<lparr>procs := q\<rparr>) \<longleftrightarrow> quiet s" "quiet (s\<lparr>held := []\<rparr>) \<longleftrightarrow> curproc s \<noteq> None"
  by (simp_all add: quiet_def)

lemma mypid_upd [simp]:
  "mypid (s\<lparr>bufs := x\<rparr>) = mypid s" "mypid (s\<lparr>slks := y\<rparr>) = mypid s" "mypid (s\<lparr>dsk := d\<rparr>) = mypid s"
  "mypid (s\<lparr>wtrace := w\<rparr>) = mypid s" "mypid (s\<lparr>held := h\<rparr>) = mypid s"
  by (simp_all add: mypid_def split: option.splits)

lemma virtio_disk_rw_eq:
  assumes "held s = []" shows "virtio_disk_rw b w s = Ok () (disk_transfer b w s)"
  using assms by (simp add: virtio_disk_rw_def K_defs disk_transfer_def)

definition take_buf :: "nat \<Rightarrow> buf \<Rightarrow> 'z bio_state_scheme \<Rightarrow> 'z bio_state_scheme" where
  "take_buf i k s = s\<lparr>bufs := (bufs s)(i := k), slks := (slks s)(SlBuf i := \<lparr>slocked = 1, spid = mypid s\<rparr>)\<rparr>"

lemma bget_cached:
  assumes "quiet s" "scan_ring bnext (\<lambda>k. dev k = dv \<and> blockno k = bn) s = Some i"
    "slocked (slks s (SlBuf i)) = 0"
  shows "bget dv bn s = Ok i (take_buf i ((bufs s i)\<lparr>refcnt := refcnt (bufs s i) + 1\<rparr>) s)"
  using assms acquiresleep_eq [of "s\<lparr>bufs := (bufs s)(i := (bufs s i)\<lparr>refcnt := refcnt (bufs s i) + 1\<rparr>), held := []\<rparr>" "SlBuf i"]
  by (auto simp: bget_def K_defs quiet_def upd_buf_def take_buf_def)

lemma bget_fresh:
  assumes "quiet s" "scan_ring bnext (\<lambda>k. dev k = dv \<and> blockno k = bn) s = None"
    "scan_ring bprev (\<lambda>k. refcnt k = 0) s = Some i" "slocked (slks s (SlBuf i)) = 0"
  shows "bget dv bn s = Ok i (take_buf i ((bufs s i)\<lparr>dev := dv, blockno := bn, valid := False, refcnt := 1\<rparr>) s)"
  using assms acquiresleep_eq [of "s\<lparr>bufs := (bufs s)(i := (bufs s i)\<lparr>dev := dv, blockno := bn, valid := False, refcnt := 1\<rparr>), held := []\<rparr>" "SlBuf i"]
  by (auto simp: bget_def K_defs quiet_def upd_buf_def take_buf_def)

lemma bget_full:
  assumes "quiet s" "scan_ring bnext (\<lambda>k. dev k = dv \<and> blockno k = bn) s = None"
    "scan_ring bprev (\<lambda>k. refcnt k = 0) s = None"
  shows "bget dv bn s = Panic ''bget: no buffers''"
  using assms by (simp add: bget_def K_defs quiet_held)

lemma bread_cached:
  assumes "quiet s" "scan_ring bnext (\<lambda>k. dev k = dv \<and> blockno k = bn) s = Some i"
    "slocked (slks s (SlBuf i)) = 0" "valid (bufs s i)"
  shows "bread dv bn s = Ok i (take_buf i ((bufs s i)\<lparr>refcnt := refcnt (bufs s i) + 1\<rparr>) s)"
  using assms(4) bget_cached [OF assms(1-3)] by (simp add: bread_def K_defs get_buf_def take_buf_def)

lemma bread_fresh:
  assumes "quiet s" "scan_ring bnext (\<lambda>k. dev k = dv \<and> blockno k = bn) s = None"
    "scan_ring bprev (\<lambda>k. refcnt k = 0) s = Some i" "slocked (slks s (SlBuf i)) = 0"
  shows "bread dv bn s
       = Ok i (take_buf i ((bufs s i)\<lparr>dev := dv, blockno := bn, valid := True, refcnt := 1, data := dsk s bn\<rparr>) s)"
  using assms(1) bget_fresh [OF assms]
  by (auto simp: bread_def K_defs get_buf_def take_buf_def virtio_disk_rw_eq quiet_held disk_transfer_def upd_buf_def
      intro!: bio_state.equality)

lemma bwrite_eq:
  assumes "quiet s" "mine s i"
  shows "bwrite i s = Ok () (s\<lparr>dsk := (dsk s)(blockno (bufs s i) := data (bufs s i)),
           wtrace := wtrace s @ [(blockno (bufs s i), data (bufs s i))]\<rparr>)"
  using assms by (simp add: bwrite_def K_defs holdingsleep_eq mine_def virtio_disk_rw_eq quiet_held disk_transfer_def)

lemma bwrite_panics: "quiet s \<Longrightarrow> \<not> mine s i \<Longrightarrow> bwrite i s = Panic ''bwrite''"
  by (auto simp: bwrite_def K_defs holdingsleep_eq mine_def)

lemma brelse_panics: "quiet s \<Longrightarrow> \<not> mine s i \<Longrightarrow> brelse i s = Panic ''brelse''"
  by (auto simp: brelse_def K_defs holdingsleep_eq mine_def)

lemma bpin_eq:
  "LkBcache \<notin> set (held s) \<Longrightarrow>
   bpin i s = Ok () (s\<lparr>bufs := (bufs s)(i := (bufs s i)\<lparr>refcnt := refcnt (bufs s i) + 1\<rparr>)\<rparr>)"
  by (simp add: bpin_def K_defs upd_buf_def)

lemma bunpin_eq:
  "LkBcache \<notin> set (held s) \<Longrightarrow>
   bunpin i s = Ok () (s\<lparr>bufs := (bufs s)(i := (bufs s i)\<lparr>refcnt := refcnt (bufs s i) - 1\<rparr>)\<rparr>)"
  by (simp add: bunpin_def K_defs upd_buf_def)

section \<open>Releasing a buffer\<close>

text \<open>A buffer without its links.\<close>

definition strip :: "buf \<Rightarrow> buf" where
  "strip k = k\<lparr>bnext := 0, bprev := 0\<rparr>"

definition relinks :: "(nat \<Rightarrow> buf) \<Rightarrow> (nat \<Rightarrow> nat) \<Rightarrow> (nat \<Rightarrow> nat) \<Rightarrow> (nat \<Rightarrow> buf) \<Rightarrow> bool" where
  "relinks bs nx pv bs' \<longleftrightarrow> (\<lambda>j. bnext (bs' j)) = nx \<and> (\<lambda>j. bprev (bs' j)) = pv \<and> (\<forall>j. strip (bs' j) = strip (bs j))"

lemma link_front_eq:
  assumes "i \<noteq> bhead"
  shows "\<exists>bs. link_front i s = Ok () (s\<lparr>bufs := bs\<rparr>)
     \<and> relinks (bufs s) ((\<lambda>j. bnext (bufs s j))(i := bnext (bufs s bhead), bhead := i))
         ((\<lambda>j. bprev (bufs s j))(i := bhead, bnext (bufs s bhead) := i)) bs"
proof -
  let ?b1 = "(bufs s)(i := (bufs s i)\<lparr>bnext := bnext (bufs s bhead)\<rparr>)"
  let ?b2 = "?b1(i := (?b1 i)\<lparr>bprev := bhead\<rparr>)"
  let ?f = "bnext (?b2 bhead)"
  let ?b3 = "?b2(?f := (?b2 ?f)\<lparr>bprev := i\<rparr>)"
  let ?b4 = "?b3(bhead := (?b3 bhead)\<lparr>bnext := i\<rparr>)"
  have "link_front i s = Ok () (s\<lparr>bufs := ?b4\<rparr>)"
    by (simp add: link_front_def K_defs upd_buf_def)
  moreover have "relinks (bufs s) ((\<lambda>j. bnext (bufs s j))(i := bnext (bufs s bhead), bhead := i))
         ((\<lambda>j. bprev (bufs s j))(i := bhead, bnext (bufs s bhead) := i)) ?b4"
    using assms by (auto simp: relinks_def strip_def fun_eq_iff)
  ultimately show ?thesis by blast
qed

lemma unlink_eq:
  "\<exists>bs. unlink i s = Ok () (s\<lparr>bufs := bs\<rparr>)
     \<and> relinks (bufs s) ((\<lambda>j. bnext (bufs s j))(bprev (bufs s i) := bnext (bufs s i)))
         ((\<lambda>j. bprev (bufs s j))(bnext (bufs s i) := bprev (bufs s i))) bs"
proof -
  let ?k = "bufs s i"
  let ?b1 = "(bufs s)(bnext ?k := (bufs s (bnext ?k))\<lparr>bprev := bprev ?k\<rparr>)"
  let ?b2 = "?b1(bprev ?k := (?b1 (bprev ?k))\<lparr>bnext := bnext ?k\<rparr>)"
  have "unlink i s = Ok () (s\<lparr>bufs := ?b2\<rparr>)"
    by (simp add: unlink_def get_buf_def K_defs upd_buf_def)
  moreover have "relinks (bufs s) ((\<lambda>j. bnext (bufs s j))(bprev ?k := bnext ?k))
         ((\<lambda>j. bprev (bufs s j))(bnext ?k := bprev ?k)) ?b2"
    by (auto simp: relinks_def strip_def fun_eq_iff)
  ultimately show ?thesis by blast
qed

lemma move_front_eq:
  assumes ring: "lru_ring (bufs s) xs" and i: "i < bhead"
  shows "\<exists>bs ys. thenK (unlink i) (link_front i) s = Ok () (s\<lparr>bufs := bs\<rparr>) \<and> lru_ring bs (i # ys)
           \<and> (\<forall>j. strip (bs j) = strip (bufs s j))"
proof -
  have "i \<in> set xs" using ring i by (simp add: lru_ring_def)
  then obtain us vs where xs: "xs = us @ i # vs" by (meson split_list)
  define nx pv where "nx = (\<lambda>j. bnext (bufs s j))" and "pv = (\<lambda>j. bprev (bufs s j))"
  obtain b1 where b1: "unlink i s = Ok () (s\<lparr>bufs := b1\<rparr>)"
    "relinks (bufs s) (nx(pv i := nx i)) (pv(nx i := pv i)) b1"
    using unlink_eq [of i s] by (auto simp: nx_def pv_def)
  obtain b2 where b2: "link_front i (s\<lparr>bufs := b1\<rparr>) = Ok () (s\<lparr>bufs := b2\<rparr>)"
    "relinks b1 ((\<lambda>j. bnext (b1 j))(i := bnext (b1 bhead), bhead := i))
       ((\<lambda>j. bprev (b1 j))(i := bhead, bnext (b1 bhead) := i)) b2"
    using link_front_eq [of i "s\<lparr>bufs := b1\<rparr>"] i by auto
  have l1: "(\<lambda>j. bnext (b1 j)) = nx(pv i := nx i)" "(\<lambda>j. bprev (b1 j)) = pv(nx i := pv i)"
    using b1(2) by (simp_all add: relinks_def)
  have h: "bnext (b1 bhead) = (nx(pv i := nx i)) bhead" using fun_cong [OF l1(1), of bhead] by simp
  have "dll (\<lambda>j. bnext (b2 j)) (\<lambda>j. bprev (b2 j)) bhead (i # us @ vs) bhead"
    using lru_ring_move [OF ring [unfolded xs], of nx pv] b2(2) unfolding relinks_def l1 h
    by (simp add: nx_def pv_def)
  then have "lru_ring b2 (i # us @ vs)" using ring xs by (auto simp: lru_ring_def)
  moreover have "strip (b2 j) = strip (bufs s j)" for j using b1(2) b2(2) by (simp add: relinks_def)
  ultimately show ?thesis using b1(1) b2(1) by (auto simp: thenK_def bindK_def)
qed

lemma strip_fields:
  assumes "strip k = strip k'"
  shows "valid k = valid k'" "dev k = dev k'" "blockno k = blockno k'" "refcnt k = refcnt k'" "data k = data k'"
  using assms by (cases k; cases k'; simp add: strip_def)+

lemma brelse_eq:
  assumes q: "quiet s" and m: "mine s i" and i: "i < NBUF" and ring: "lru_ring (bufs s) xs"
  shows "\<exists>bs ys. brelse i s = Ok () (s\<lparr>slks := (slks s)(SlBuf i := \<lparr>slocked = 0, spid = 0\<rparr>),
             procs := wake_all (ChSleeplock (SlBuf i)) (curproc s) (procs s), bufs := bs\<rparr>)
           \<and> lru_ring bs ys
           \<and> (\<forall>j. strip (bs j) = strip (((bufs s)(i := (bufs s i)\<lparr>refcnt := refcnt (bufs s i) - 1\<rparr>)) j))"
proof -
  let ?k = "(bufs s i)\<lparr>refcnt := refcnt (bufs s i) - 1\<rparr>"
  define t where "t = s\<lparr>slks := (slks s)(SlBuf i := \<lparr>slocked = 0, spid = 0\<rparr>),
             procs := wake_all (ChSleeplock (SlBuf i)) (curproc s) (procs s), bufs := (bufs s)(i := ?k)\<rparr>"
  have ring': "lru_ring (bufs (t\<lparr>held := [LkBcache]\<rparr>)) xs"
    by (rule lru_ring_cong [OF ring]) (simp add: t_def)
  obtain bs ys where mv: "thenK (unlink i) (link_front i) (t\<lparr>held := [LkBcache]\<rparr>) = Ok () (t\<lparr>held := [LkBcache], bufs := bs\<rparr>)"
      "lru_ring bs ys" "\<forall>j. strip (bs j) = strip (bufs t j)"
    using move_front_eq [OF ring' i] by auto
  have br: "brelse i s = bindK (whenK (refcnt ?k = 0) (thenK (unlink i) (thenK (link_front i) (returnK ()))))
      (\<lambda>_. thenK (release LkBcache) (returnK ())) (t\<lparr>held := [LkBcache]\<rparr>)"
    using q m by (simp add: brelse_def holdingsleep_eq mine_def releasesleep_eq thenK_def bindK_def getK_def
        returnK_def panic_if_def upd_buf_def modifyK_def get_buf_def t_def quiet_def)
  have un: "thenK (unlink i) (thenK (link_front i) (returnK ())) (t\<lparr>held := [LkBcache]\<rparr>) = Ok () (t\<lparr>held := [LkBcache], bufs := bs\<rparr>)"
    using mv(1) by simp
  have h: "held t = []" using q by (simp add: t_def quiet_def)
  show ?thesis
  proof (cases "refcnt ?k = 0")
    case True
    have "brelse i s = Ok () (t\<lparr>bufs := bs\<rparr>)"
      using True un h unfolding br by (simp add: whenK_def bindK_def thenK_def [of "release LkBcache"] returnK_def)
    then show ?thesis using mv(2,3) by (intro exI [of _ bs] exI [of _ ys]) (simp add: t_def)
  next
    case False
    have "brelse i s = Ok () t"
      using False h unfolding br by (simp add: whenK_def bindK_def thenK_def returnK_def)
    moreover have "lru_ring (bufs t) xs" using ring' by simp
    ultimately show ?thesis by (intro exI [of _ "bufs t"] exI [of _ xs]) (simp add: t_def)
  qed
qed

end
