(* ===== verification/BioView.thy ===== *)
theory BioView
  imports Bio
begin

text \<open>
  The buffer cache as its clients see it: the effect of each operation on the contents
  \<open>cont\<close> of the blocks, on the reference counts \<open>refs\<close>, and on the disk.  \<open>binit\<close> establishes the
  invariant and every operation keeps it.
\<close>

section \<open>The operations as seen by the clients\<close>

text \<open>A change to one cached buffer that leaves its identity alone.\<close>

definition touches :: "nat \<Rightarrow> 'z bio_state_scheme \<Rightarrow> 'z bio_state_scheme \<Rightarrow> bool" where
  "touches i s t \<longleftrightarrow> (\<forall>j. j \<noteq> i \<longrightarrow> strip (bufs t j) = strip (bufs s j) \<and> slks t (SlBuf j) = slks s (SlBuf j))
     \<and> dev (bufs t i) = dev (bufs s i) \<and> blockno (bufs t i) = blockno (bufs s i) \<and> valid (bufs t i) = valid (bufs s i)
     \<and> (\<forall>c. c \<noteq> blockno (bufs s i) \<longrightarrow> dsk t c = dsk s c)"

lemma touchesD:
  assumes "touches i s t"
  shows "j \<noteq> i \<Longrightarrow> strip (bufs t j) = strip (bufs s j)" "j \<noteq> i \<Longrightarrow> slks t (SlBuf j) = slks s (SlBuf j)"
    "dev (bufs t i) = dev (bufs s i)" "blockno (bufs t i) = blockno (bufs s i)"
    "caches s i b \<Longrightarrow> d \<noteq> b \<Longrightarrow> dsk t d = dsk s d"
  using assms unfolding touches_def caches_def by blast+

lemma touches_caches:
  assumes "touches i s t" shows "caches t j c \<longleftrightarrow> caches s j c"
proof (cases "j = i")
  case True
  then show ?thesis using touchesD(3,4) [OF assms] by (simp add: caches_def)
next
  case False
  then show ?thesis using strip_fields(2,3) [OF touchesD(1) [OF assms False]] by (simp add: caches_def)
qed

lemma touches_view:
  assumes tc: "touches i s t" and u: "unique_bufs s" and c: "caches s i b"
  shows "unique_bufs t" "cont t = (cont s)(b := data (bufs t i))" "refs t = (refs s)(b := unat (refcnt (bufs t i)))"
    "lockedb t = (lockedb s)(b := slocked (slks t (SlBuf i)) \<noteq> 0)"
proof -
  note same = touches_caches [OF tc]
  show u': "unique_bufs t" using u by (simp add: unique_bufs_def same)
  have "cont t d = ((cont s)(b := data (bufs t i))) d \<and> refs t d = ((refs s)(b := unat (refcnt (bufs t i)))) d
      \<and> lockedb t d = ((lockedb s)(b := slocked (slks t (SlBuf i)) \<noteq> 0)) d" for d
  proof (cases "\<exists>j. caches s j d")
    case True
    then obtain j where j: "caches s j d" by blast
    then have jt: "caches t j d" by (simp add: same)
    show ?thesis
    proof (cases "j = i")
      case True
      then show ?thesis using j c view_cached [OF u' jt] by (simp add: caches_def)
    next
      case False
      then have "d \<noteq> b" using j c u unfolding unique_bufs_def by blast
      then show ?thesis
        using view_cached [OF u' jt] view_cached [OF u j] strip_fields [OF touchesD(1) [OF tc False]]
          touchesD(2) [OF tc False] by simp
    qed
  next
    case False
    then have "d \<noteq> b" using c by auto
    then show ?thesis
      using view_uncached [of t d] view_uncached [of s d] False same touchesD(5) [OF tc c] by simp
  qed
  then show "cont t = (cont s)(b := data (bufs t i))" "refs t = (refs s)(b := unat (refcnt (bufs t i)))"
    "lockedb t = (lockedb s)(b := slocked (slks t (SlBuf i)) \<noteq> 0)" by blast+
qed

lemma touches_ok:
  assumes tc: "touches i s t" and ok: "bio_ok s" and c: "caches s i b" and q: "quiet t"
    and ring: "lru_ring (bufs t) ys" and bi: "buf_ok t i" and len: "length (dsk t b) = BSIZE"
  shows "bio_ok t"
proof -
  have u: "unique_bufs s" by (rule bio_ok_unique [OF ok])
  have "buf_ok t j" if "j < NBUF" for j
  proof (cases "j = i")
    case False
    note st = touchesD(1,2) [OF tc False]
    have oj: "buf_ok s j" using ok that by (simp add: bio_ok_def)
    have "dsk t (blockno (bufs s j)) = dsk s (blockno (bufs s j))" if "valid (bufs s j)"
    proof -
      have "caches s j (blockno (bufs s j))" using oj that \<open>j < NBUF\<close> by (auto simp: caches_def buf_ok_def)
      then have "blockno (bufs s j) \<noteq> b" using c u False unfolding unique_bufs_def by blast
      then show ?thesis by (rule touchesD(5) [OF tc c])
    qed
    then show ?thesis using oj st by (simp add: buf_ok_def strip_fields [OF st(1)])
  qed (use bi in simp)
  moreover have "length (dsk t d) = BSIZE" for d
    using touchesD(5) [OF tc c, of d] len ok by (cases "d = b") (simp_all add: bio_ok_def)
  ultimately show ?thesis
    using touches_view(1) [OF tc u c] q ring by (auto simp: bio_ok_def unique_bufs_def)
qed

text \<open>
  \<open>bstep i s t\<close>: an operation on buffer \<open>i\<close> kept the invariant, the buffers in use and the locks
  of the caller on other buffers.
\<close>

definition bstep :: "nat \<Rightarrow> 'z bio_state_scheme \<Rightarrow> 'z bio_state_scheme \<Rightarrow> bool" where
  "bstep i s t \<longleftrightarrow> bio_ok t \<and> bframe s t
     \<and> (\<forall>j c. caches s j c \<longrightarrow> refcnt (bufs s j) \<noteq> 0 \<longrightarrow> caches t j c)
     \<and> (\<forall>j. j \<noteq> i \<longrightarrow> mine s j \<longrightarrow> mine t j)"

lemma bstepD:
  assumes "bstep i s t"
  shows "bio_ok t" "bframe s t" "caches s j c \<Longrightarrow> refcnt (bufs s j) \<noteq> 0 \<Longrightarrow> caches t j c"
    "j \<noteq> i \<Longrightarrow> mine s j \<Longrightarrow> mine t j"
  using assms by (auto simp: bstep_def)

lemma mine_buf:
  assumes "bio_ok s" "caches s i b" "mine s i"
  shows "refcnt (bufs s i) \<noteq> 0" "valid (bufs s i)" "0 < refs s b" "length (data (bufs s i)) = BSIZE" "lockedb s b"
proof -
  have o: "buf_ok s i" "unique_bufs s" using assms bio_ok_unique by (auto simp: bio_ok_def caches_def)
  then show r: "refcnt (bufs s i) \<noteq> 0" using assms(3) by (auto simp: buf_ok_def mine_def)
  then show "valid (bufs s i)" "length (data (bufs s i)) = BSIZE" using o(1) by (auto simp: buf_ok_def)
  show "0 < refs s b" using view_cached(2) [OF o(2) assms(2)] r by (simp add: unat_gt_0)
  show "lockedb s b" using view_cached(3) [OF o(2) assms(2)] assms(3) by (simp add: mine_def)
qed

lemma touches_bstep:
  assumes tc: "touches i s t" and ok: "bio_ok s" and c: "caches s i b" and f: "bframe s t"
    and ring: "lru_ring (bufs t) ys" and bi: "buf_ok t i" and len: "length (dsk t b) = BSIZE"
  shows "bstep i s t"
proof -
  have q: "quiet t" using ok bframe_quiet [OF f] by (simp add: bio_ok_def)
  have "mine t j" if "j \<noteq> i" "mine s j" for j
    using touchesD(2) [OF tc that(1)] that(2) bframe_mypid [OF f] by (simp add: mine_def)
  then show ?thesis
    using touches_ok [OF tc ok c q ring bi len] f touches_caches [OF tc] by (simp add: bstep_def)
qed

lemma ring_upd_same:
  assumes "lru_ring (bufs s) xs" "bnext k = bnext (bufs s i)" "bprev k = bprev (bufs s i)"
  shows "lru_ring ((bufs s)(i := k)) xs"
  by (rule lru_ring_cong [OF assms(1)]) (simp add: assms(2,3))

lemma bio_ok_ring: "bio_ok s \<Longrightarrow> \<exists>xs. lru_ring (bufs s) xs"
  by (simp add: bio_ok_def)

lemma bwrite_ok:
  assumes ok: "bio_ok s" and c: "caches s i b" and m: "mine s i"
  shows "\<exists>t. bwrite i s = Ok () t \<and> bstep i s t \<and> mine t i \<and> caches t i b \<and> cont t = cont s \<and> refs t = refs s
     \<and> lockedb t = lockedb s \<and> dsk t = (dsk s)(b := cont s b) \<and> wtrace t = wtrace s @ [(b, cont s b)]"
proof -
  have u: "unique_bufs s" by (rule bio_ok_unique [OF ok])
  note v = view_cached [OF u c]
  have b: "blockno (bufs s i) = b" using c by (simp add: caches_def)
  define t where "t = s\<lparr>dsk := (dsk s)(b := data (bufs s i)), wtrace := wtrace s @ [(b, data (bufs s i))]\<rparr>"
  have e: "bwrite i s = Ok () t" using bwrite_eq [of s i] ok m b by (simp add: t_def bio_ok_def)
  have tc: "touches i s t" using b by (simp add: touches_def t_def)
  obtain xs where xs: "lru_ring (bufs s) xs" using bio_ok_ring [OF ok] ..
  note mb = mine_buf [OF ok c m]
  have "buf_ok s i" using ok c by (simp add: bio_ok_def caches_def)
  then have bi: "buf_ok t i" using mb(1) by (simp add: buf_ok_def t_def)
  have st: "bstep i s t"
    by (rule touches_bstep [OF tc ok c _ _ bi, of xs]) (use xs mb in \<open>simp_all add: t_def bframe_def\<close>)
  have "mine t i" using m by (simp add: mine_def t_def)
  then show ?thesis
    using e st touches_view [OF tc u c] touches_caches [OF tc, of i b] c v by (auto simp: t_def fun_eq_iff)
qed

text \<open>Changing the contents or the reference count of a buffer the caller has locked.\<close>

lemma upd_mine:
  assumes ok: "bio_ok s" and c: "caches s i b" and m: "mine s i"
    and k: "strip (k\<lparr>refcnt := r, data := d\<rparr>) = strip ((bufs s i)\<lparr>refcnt := r, data := d\<rparr>)"
      "bnext k = bnext (bufs s i)" "bprev k = bprev (bufs s i)"
    and r: "refcnt k \<noteq> 0" and d: "length (data k) = BSIZE"
    and t: "t = s\<lparr>bufs := (bufs s)(i := k)\<rparr>"
  shows "bstep i s t" "mine t i" "caches t i b" "cont t = (cont s)(b := data k)"
    "refs t = (refs s)(b := unat (refcnt k))" "lockedb t = lockedb s"
proof -
  have u: "unique_bufs s" by (rule bio_ok_unique [OF ok])
  have f: "valid k = valid (bufs s i)" "dev k = dev (bufs s i)" "blockno k = blockno (bufs s i)"
    using strip_fields [OF k(1)] by simp_all
  have tc: "touches i s t" using f by (simp add: touches_def t)
  obtain xs where xs: "lru_ring (bufs s) xs" using bio_ok_ring [OF ok] ..
  have o: "buf_ok s i" "length (dsk s b) = BSIZE" using ok c by (simp_all add: bio_ok_def caches_def)
  then have bi: "buf_ok t i" using r d f mine_buf(2) [OF ok c m] by (simp add: buf_ok_def t)
  have ring: "lru_ring (bufs t) xs" using ring_upd_same [OF xs k(2,3)] by (simp add: t)
  show "bstep i s t"
    by (rule touches_bstep [OF tc ok c _ ring bi]) (use o in \<open>simp_all add: t bframe_def\<close>)
  show "mine t i" using m by (simp add: mine_def t)
  show "caches t i b" using touches_caches [OF tc] c by simp
  show "cont t = (cont s)(b := data k)" "refs t = (refs s)(b := unat (refcnt k))" "lockedb t = lockedb s"
    using touches_view [OF tc u c] view_cached(3) [OF u c] by (simp_all add: t fun_eq_iff)
qed

definition set_data :: "nat \<Rightarrow> bytes \<Rightarrow> ('z bio_state_scheme, unit) K" where
  "set_data i d = upd_buf i (\<lambda>k. k\<lparr>data := d\<rparr>)"

lemma set_data_ok:
  assumes ok: "bio_ok s" and c: "caches s i b" and m: "mine s i" and d: "length d = BSIZE"
  shows "\<exists>t. set_data i d s = Ok () t \<and> bstep i s t \<and> mine t i \<and> caches t i b \<and> cont t = (cont s)(b := d)
     \<and> refs t = refs s \<and> lockedb t = lockedb s \<and> dsk t = dsk s \<and> wtrace t = wtrace s"
proof -
  have u: "unique_bufs s" by (rule bio_ok_unique [OF ok])
  define t where "t = s\<lparr>bufs := (bufs s)(i := (bufs s i)\<lparr>data := d\<rparr>)\<rparr>"
  have "refcnt ((bufs s i)\<lparr>data := d\<rparr>) \<noteq> 0" using mine_buf(1) [OF ok c m] by simp
  note up = upd_mine [OF ok c m _ _ _ this _ t_def, of "[]" 0]
  have "set_data i d s = Ok () t" by (simp add: set_data_def upd_buf_def modifyK_def t_def)
  moreover have "refs t = refs s" using up(5) d view_cached(2) [OF u c] by (simp add: strip_def fun_eq_iff)
  ultimately show ?thesis using up(1-4,6) d by (simp add: strip_def) (simp add: t_def)
qed

lemma pin_ok:
  assumes ok: "bio_ok s" and c: "caches s i b" and m: "mine s i" and r: "refs s b + 1 < 2 ^ 32"
    and t: "t = s\<lparr>bufs := (bufs s)(i := (bufs s i)\<lparr>refcnt := refcnt (bufs s i) + 1\<rparr>)\<rparr>"
  shows "bstep i s t" "mine t i" "caches t i b" "cont t = cont s"
    "refs t = (refs s)(b := refs s b + 1)" "lockedb t = lockedb s"
proof -
  have u: "unique_bufs s" by (rule bio_ok_unique [OF ok])
  note v = view_cached [OF u c]
  have n: "unat (refcnt (bufs s i) + 1) = refs s b + 1" using r v(2) by (simp add: unat_word_ariths)
  then have "refcnt ((bufs s i)\<lparr>refcnt := refcnt (bufs s i) + 1\<rparr>) \<noteq> 0" by auto
  note up = upd_mine [OF ok c m _ _ _ this _ t, of "[]" 0]
  show "bstep i s t" "mine t i" "caches t i b" "cont t = cont s"
    "refs t = (refs s)(b := refs s b + 1)" "lockedb t = lockedb s"
    using up n v(1) mine_buf(4) [OF ok c m] by (simp_all add: strip_def fun_eq_iff)
qed

lemma bunpin_ok:
  assumes ok: "bio_ok s" and c: "caches s i b" and m: "mine s i" and r: "1 < refs s b"
  shows "\<exists>t. bunpin i s = Ok () t \<and> bstep i s t \<and> mine t i \<and> caches t i b \<and> cont t = cont s
     \<and> refs t = (refs s)(b := refs s b - 1) \<and> lockedb t = lockedb s \<and> dsk t = dsk s \<and> wtrace t = wtrace s"
proof -
  have u: "unique_bufs s" by (rule bio_ok_unique [OF ok])
  note v = view_cached [OF u c]
  define t where "t = s\<lparr>bufs := (bufs s)(i := (bufs s i)\<lparr>refcnt := refcnt (bufs s i) - 1\<rparr>)\<rparr>"
  have n: "unat (refcnt (bufs s i) - 1) = refs s b - 1"
    using r v(2) by (metis One_nat_def less_numeral_extra(1) order_less_trans unat_gt_0 unat_minus_one)
  then have "refcnt ((bufs s i)\<lparr>refcnt := refcnt (bufs s i) - 1\<rparr>) \<noteq> 0" using r by auto
  note up = upd_mine [OF ok c m _ _ _ this _ t_def, of "[]" 0]
  have "bunpin i s = Ok () t" using bunpin_eq [of s i] ok by (simp add: t_def bio_ok_def quiet_def)
  then show ?thesis
    using up n v(1) mine_buf(4) [OF ok c m] by (simp add: strip_def fun_eq_iff) (simp add: t_def)
qed

lemma brelse_ok:
  assumes ok: "bio_ok s" and c: "caches s i b" and m: "mine s i"
    and clean: "refs s b = 1 \<Longrightarrow> cont s b = dsk s b"
  shows "\<exists>t. brelse i s = Ok () t \<and> bstep i s t \<and> cont t = cont s \<and> refs t = (refs s)(b := refs s b - 1)
     \<and> lockedb t = (lockedb s)(b := False) \<and> dsk t = dsk s \<and> wtrace t = wtrace s"
proof -
  have u: "unique_bufs s" by (rule bio_ok_unique [OF ok])
  note v = view_cached [OF u c]
  note mb = mine_buf [OF ok c m]
  obtain xs where xs: "lru_ring (bufs s) xs" using bio_ok_ring [OF ok] ..
  have i: "i < NBUF" "blockno (bufs s i) = b" using c by (simp_all add: caches_def)
  have q: "quiet s" using ok by (simp add: bio_ok_def)
  obtain bs ys where br: "brelse i s = Ok () (s\<lparr>slks := (slks s)(SlBuf i := \<lparr>slocked = 0, spid = 0\<rparr>),
             procs := wake_all (ChSleeplock (SlBuf i)) (curproc s) (procs s), bufs := bs\<rparr>)" "lru_ring bs ys"
     "\<And>j. strip (bs j) = strip (((bufs s)(i := (bufs s i)\<lparr>refcnt := refcnt (bufs s i) - 1\<rparr>)) j)"
    using brelse_eq [OF q m i(1) xs] by blast
  define t where "t = s\<lparr>slks := (slks s)(SlBuf i := \<lparr>slocked = 0, spid = 0\<rparr>),
             procs := wake_all (ChSleeplock (SlBuf i)) (curproc s) (procs s), bufs := bs\<rparr>"
  have si: "strip (bs i) = strip ((bufs s i)\<lparr>refcnt := refcnt (bufs s i) - 1\<rparr>)" using br(3) [of i] by simp
  note f = strip_fields [OF si]
  have tc: "touches i s t" using br(3) f by (simp add: touches_def t_def)
  have n: "unat (refcnt (bs i)) = refs s b - 1" using f(4) v(2) mb(1) by (simp add: unat_minus_one)
  have z: "refcnt (bs i) = 0 \<longleftrightarrow> refs s b = 1"
    using n mb(3) by (simp add: unat_eq_0 [symmetric]) linarith
  have o: "buf_ok s i" "length (dsk s b) = BSIZE" using ok i(1) by (simp_all add: bio_ok_def)
  have bi: "buf_ok t i"
    using o(1) mb(2) z clean v(1) i(2) f by (simp add: buf_ok_def t_def)
  have fr: "bframe s t" by (simp add: bframe_def t_def)
  have ring: "lru_ring (bufs t) ys" using br(2) by (simp add: t_def)
  have st: "bstep i s t" by (rule touches_bstep [OF tc ok c fr ring bi]) (use o in \<open>simp add: t_def\<close>)
  have "data (bufs t i) = cont s b" "refcnt (bufs t i) = refcnt (bs i)" "\<not> slocked (slks t (SlBuf i)) \<noteq> 0"
    using f v(1) by (simp_all add: t_def)
  then show ?thesis
    using br(1) st touches_view [OF tc u c] n unfolding t_def [symmetric] by (simp add: fun_eq_iff) (simp add: t_def)
qed

section \<open>Reading a block\<close>

lemma refs_card:
  assumes ok: "bio_ok s" shows "inuse s = card {i. i < NBUF \<and> refcnt (bufs s i) \<noteq> 0}"
proof -
  have u: "unique_bufs s" by (rule bio_ok_unique [OF ok])
  have used: "caches s i (blockno (bufs s i))" if "i < NBUF" "refcnt (bufs s i) \<noteq> 0" for i
    using ok that by (auto simp: bio_ok_def buf_ok_def caches_def)
  have "bij_betw (\<lambda>i. blockno (bufs s i)) {i. i < NBUF \<and> refcnt (bufs s i) \<noteq> 0} {b. 0 < refs s b}"
  proof (rule bij_betw_imageI)
    show "inj_on (\<lambda>i. blockno (bufs s i)) {i. i < NBUF \<and> refcnt (bufs s i) \<noteq> 0}"
    proof (rule inj_onI)
      fix i j assume i: "i \<in> {i. i < NBUF \<and> refcnt (bufs s i) \<noteq> 0}" and j: "j \<in> {i. i < NBUF \<and> refcnt (bufs s i) \<noteq> 0}"
        and e: "blockno (bufs s i) = blockno (bufs s j)"
      then show "i = j" using used [of i] used [of j] u unfolding unique_bufs_def e by simp
    qed
    show "(\<lambda>i. blockno (bufs s i)) ` {i. i < NBUF \<and> refcnt (bufs s i) \<noteq> 0} = {b. 0 < refs s b}"
    proof (intro set_eqI iffI)
      fix b assume "b \<in> (\<lambda>i. blockno (bufs s i)) ` {i. i < NBUF \<and> refcnt (bufs s i) \<noteq> 0}"
      then obtain i where i: "i < NBUF" "refcnt (bufs s i) \<noteq> 0" "b = blockno (bufs s i)" by auto
      then show "b \<in> {b. 0 < refs s b}" using view_cached(2) [OF u used] by (simp add: unat_gt_0)
    next
      fix b assume b: "b \<in> {b. 0 < refs s b}"
      then obtain i where c: "caches s i b" using view_uncached(2) [of s b] by auto
      then have "refcnt (bufs s i) \<noteq> 0" using b view_cached(2) [OF u c] by (auto simp: unat_eq_0)
      then show "b \<in> (\<lambda>i. blockno (bufs s i)) ` {i. i < NBUF \<and> refcnt (bufs s i) \<noteq> 0}"
        using c by (auto simp: caches_def)
    qed
  qed
  then show ?thesis unfolding inuse_def by (rule bij_betw_same_card [symmetric])
qed

lemma free_buffer:
  assumes ok: "bio_ok s" and n: "inuse s < NBUF" shows "\<exists>i<NBUF. refcnt (bufs s i) = 0"
proof (rule ccontr)
  assume "\<not> (\<exists>i<NBUF. refcnt (bufs s i) = 0)"
  then have "{i. i < NBUF \<and> refcnt (bufs s i) \<noteq> 0} = {..<NBUF}" by auto
  then show False using refs_card [OF ok] n by simp
qed

lemma bread_hit:
  assumes ok: "bio_ok s" and c: "caches s i b" and l: "\<not> lockedb s b" and r: "refs s b + 1 < 2 ^ 32"
  shows "\<exists>t. bread ROOTDEV b s = Ok i t \<and> bstep i s t \<and> caches t i b \<and> mine t i \<and> cont t = cont s
     \<and> refs t = (refs s)(b := refs s b + 1) \<and> lockedb t = (lockedb s)(b := True) \<and> dsk t = dsk s \<and> wtrace t = wtrace s"
proof -
  have u: "unique_bufs s" by (rule bio_ok_unique [OF ok])
  note v = view_cached [OF u c]
  obtain xs where xs: "lru_ring (bufs s) xs" using bio_ok_ring [OF ok] ..
  have i: "i < NBUF" "i \<in> set xs" using c xs by (auto simp: caches_def lru_ring_def)
  have o: "buf_ok s i" "length (dsk s b) = BSIZE" "quiet s" using ok i(1) by (simp_all add: bio_ok_def)
  have val: "valid (bufs s i)" using o(1) c by (simp add: buf_ok_def caches_def)
  have nb: "bhead \<notin> set xs" using xs by (auto simp: lru_ring_def)
  have "find (\<lambda>j. dev (bufs s j) = ROOTDEV \<and> blockno (bufs s j) = b) xs = Some i"
  proof -
    obtain j where j: "find (\<lambda>j. dev (bufs s j) = ROOTDEV \<and> blockno (bufs s j) = b) xs = Some j"
      using i(2) c by (cases "find (\<lambda>j. dev (bufs s j) = ROOTDEV \<and> blockno (bufs s j) = b) xs")
        (auto simp: find_None_iff caches_def)
    have "j \<in> set xs" "dev (bufs s j) = ROOTDEV \<and> blockno (bufs s j) = b" using find_in_set [OF j] by auto
    then have "caches s j b" using xs by (auto simp: caches_def lru_ring_def)
    then show ?thesis using j c u unfolding unique_bufs_def by blast
  qed
  then have sc: "scan_ring bnext (\<lambda>k. dev k = ROOTDEV \<and> blockno k = b) s = Some i"
    using scan_ring_next [OF xs] by simp
  define k where "k = (bufs s i)\<lparr>refcnt := refcnt (bufs s i) + 1\<rparr>"
  define t where "t = take_buf i k s"
  have e: "bread ROOTDEV b s = Ok i t"
    using bread_cached [OF o(3) sc _ val] l v(3) by (simp add: t_def k_def)
  have n: "unat (refcnt k) = refs s b + 1" using r v(2) by (simp add: k_def unat_word_ariths)
  have tc: "touches i s t" by (simp add: touches_def t_def take_buf_def k_def)
  have "refcnt k \<noteq> 0" using n by auto
  then have bi: "buf_ok t i" using o(1) val by (simp add: buf_ok_def t_def take_buf_def k_def)
  have ring: "lru_ring (bufs t) xs" using ring_upd_same [OF xs, of k i] by (simp add: t_def take_buf_def k_def)
  have fr: "bframe s t" by (simp add: bframe_def t_def take_buf_def)
  have st: "bstep i s t" by (rule touches_bstep [OF tc ok c fr ring bi]) (use o in \<open>simp add: t_def take_buf_def\<close>)
  have "data (bufs t i) = cont s b" "refcnt (bufs t i) = refcnt k" "slocked (slks t (SlBuf i)) \<noteq> 0" "mine t i"
    using v(1) by (simp_all add: t_def take_buf_def k_def mine_def mypid_def split: option.splits)
  then show ?thesis
    using e st touches_view [OF tc u c] n touches_caches [OF tc, of i b] c by (simp add: fun_eq_iff) (simp add: t_def take_buf_def)
qed

text \<open>Replacing the identity of an unreferenced buffer.\<close>

lemma reuse_view:
  assumes ok: "bio_ok s" and i: "i < NBUF" "refcnt (bufs s i) = 0" and nb: "\<And>j. \<not> caches s j b"
    and k: "dev k = ROOTDEV" "blockno k = b" "data k = dsk s b" "refcnt k = 1"
    and t: "t = take_buf i k s"
  shows "unique_bufs t" "caches t j c \<longleftrightarrow> (if j = i then c = b else caches s j c)" "cont t = cont s"
    "refs t = (refs s)(b := 1)" "lockedb t = (lockedb s)(b := True)"
proof -
  have u: "unique_bufs s" by (rule bio_ok_unique [OF ok])
  show ct: "caches t j c \<longleftrightarrow> (if j = i then c = b else caches s j c)" for j c
    using i(1) k by (auto simp: caches_def t take_buf_def)
  show u': "unique_bufs t" using u nb unfolding unique_bufs_def ct by (auto split: if_splits)
  have other: "cont t c = cont s c \<and> refs t c = refs s c \<and> (lockedb t c \<longleftrightarrow> lockedb s c)" if "c \<noteq> b" for c
  proof (cases "\<exists>j. caches t j c")
    case True
    then obtain j where j: "caches t j c" by blast
    then have s: "caches s j c" "j \<noteq> i" using ct that by (auto split: if_splits)
    then show ?thesis using view_cached [OF u' j] view_cached [OF u s(1)] by (simp add: t take_buf_def)
  next
    case False
    have j: "j = i" if "caches s j c" for j using False ct [of j c] that by metis
    have un: "cont t c = dsk s c" "refs t c = 0" "\<not> lockedb t c"
      using view_uncached [of t c] False by (simp_all add: t take_buf_def)
    show ?thesis
    proof (cases "caches s i c")
      case True
      have "buf_ok s i" using ok i(1) by (simp add: bio_ok_def)
      then have "data (bufs s i) = dsk s c" "slocked (slks s (SlBuf i)) = 0"
        using i(2) True by (auto simp: buf_ok_def caches_def)
      then show ?thesis using un view_cached [OF u True] i(2) by simp
    next
      case False
      then show ?thesis using un view_uncached [of s c] j by metis
    qed
  qed
  have bt: "caches t i b" by (simp add: ct)
  have "cont t b = cont s b \<and> refs t b = 1 \<and> lockedb t b"
    using view_cached [OF u' bt] view_uncached [of s b] nb k by (simp add: t take_buf_def)
  then have "cont t c = cont s c \<and> refs t c = ((refs s)(b := 1)) c \<and> lockedb t c = ((lockedb s)(b := True)) c" for c
    using other [of c] by (cases "c = b") auto
  then show "cont t = cont s" "refs t = (refs s)(b := 1)" "lockedb t = (lockedb s)(b := True)" by blast+
qed

lemma bread_miss:
  assumes ok: "bio_ok s" and nb: "\<And>j. \<not> caches s j b" and n: "inuse s < NBUF"
  shows "\<exists>i t. bread ROOTDEV b s = Ok i t \<and> bstep i s t \<and> caches t i b \<and> mine t i \<and> cont t = cont s
     \<and> refs t = (refs s)(b := 1) \<and> lockedb t = (lockedb s)(b := True) \<and> dsk t = dsk s \<and> wtrace t = wtrace s"
proof -
  obtain xs where xs: "lru_ring (bufs s) xs" using bio_ok_ring [OF ok] ..
  have q: "quiet s" using ok by (simp add: bio_ok_def)
  have set: "set xs = {..<NBUF}" using xs by (simp add: lru_ring_def)
  have s1: "scan_ring bnext (\<lambda>k. dev k = ROOTDEV \<and> blockno k = b) s = None"
    unfolding scan_ring_next [OF xs] find_None_iff using nb set by (auto simp: caches_def)
  obtain i where f: "find (\<lambda>j. refcnt (bufs s j) = 0) (rev xs) = Some i"
    using free_buffer [OF ok n] set
    by (cases "find (\<lambda>j. refcnt (bufs s j) = 0) (rev xs)") (auto simp: find_None_iff)
  then have s2: "scan_ring bprev (\<lambda>k. refcnt k = 0) s = Some i" by (simp add: scan_ring_prev [OF xs])
  have i: "i < NBUF" "refcnt (bufs s i) = 0" using find_in_set [OF f] set by auto
  have o: "slocked (slks s (SlBuf i)) = 0" "\<And>c. length (dsk s c) = BSIZE"
    using ok i by (auto simp: bio_ok_def buf_ok_def)
  define k where "k = (bufs s i)\<lparr>dev := ROOTDEV, blockno := b, valid := True, refcnt := 1, data := dsk s b\<rparr>"
  define t where "t = take_buf i k s"
  have e: "bread ROOTDEV b s = Ok i t" using bread_fresh [OF q s1 s2 o(1)] by (simp add: t_def k_def)
  note rv = reuse_view [OF ok i nb, of k t]
  have k: "dev k = ROOTDEV" "blockno k = b" "data k = dsk s b" "refcnt k = 1" by (simp_all add: k_def)
  have fr: "bframe s t" by (simp add: bframe_def t_def take_buf_def)
  have "buf_ok t j" if "j < NBUF" for j
  proof (cases "j = i")
    case True
    then show ?thesis using o(2) by (simp add: buf_ok_def t_def take_buf_def k_def)
  next
    case False
    have "buf_ok s j" using ok that by (simp add: bio_ok_def)
    then show ?thesis using False by (simp add: buf_ok_def t_def take_buf_def)
  qed
  moreover have "lru_ring (bufs t) xs" using ring_upd_same [OF xs, of k i] by (simp add: t_def take_buf_def k_def)
  moreover have "unique_bufs t" by (rule rv(1) [OF k t_def])
  moreover have "quiet t" using q by (simp add: t_def take_buf_def)
  moreover have "dsk t = dsk s" by (simp add: t_def take_buf_def)
  ultimately have okt: "bio_ok t" using o(2) by (auto simp: bio_ok_def unique_bufs_def)
  have ct: "caches t j c \<longleftrightarrow> (if j = i then c = b else caches s j c)" for j c by (rule rv(2) [OF k t_def])
  have "bstep i s t"
    unfolding bstep_def
  proof (intro conjI allI impI okt fr)
    show "caches t j c" if "caches s j c" "refcnt (bufs s j) \<noteq> 0" for j c using that i(2) ct by auto
    show "mine t j" if "j \<noteq> i" "mine s j" for j using that by (simp add: mine_def t_def take_buf_def)
  qed
  moreover have "caches t i b" by (simp add: ct)
  moreover have "mine t i" by (simp add: mine_def t_def take_buf_def)
  ultimately show ?thesis
    using e rv(3-5) [OF k t_def] by (intro exI [of _ i] exI [of _ t]) (simp add: t_def take_buf_def)
qed

text \<open>
  \<open>bread\<close> returns a locked buffer with the contents of the block, counts the reference, and
  changes nothing else a client can see.
\<close>

lemma bread_ok:
  assumes ok: "bio_ok s" and l: "\<not> lockedb s b" and r: "refs s b + 1 < 2 ^ 32" and n: "0 < refs s b \<or> inuse s < NBUF"
  shows "\<exists>i t. bread ROOTDEV b s = Ok i t \<and> bstep i s t \<and> caches t i b \<and> mine t i \<and> cont t = cont s
     \<and> refs t = (refs s)(b := refs s b + 1) \<and> lockedb t = (lockedb s)(b := True) \<and> dsk t = dsk s \<and> wtrace t = wtrace s"
proof (cases "\<exists>i. caches s i b")
  case True
  then obtain i where "caches s i b" ..
  then show ?thesis using bread_hit [OF ok _ l r] by blast
next
  case False
  then have "refs s b = 0" using view_uncached(2) by blast
  then show ?thesis using bread_miss [OF ok, of b] False n by auto
qed

lemma bread_full:
  assumes ok: "bio_ok s" and u: "\<And>j. \<not> caches s j b" and n: "inuse s = NBUF"
  shows "bread ROOTDEV b s = Panic ''bget: no buffers''"
proof -
  obtain xs where xs: "lru_ring (bufs s) xs" using bio_ok_ring [OF ok] ..
  have q: "quiet s" using ok by (simp add: bio_ok_def)
  have set: "set xs = {..<NBUF}" using xs by (simp add: lru_ring_def)
  have s1: "scan_ring bnext (\<lambda>k. dev k = ROOTDEV \<and> blockno k = b) s = None"
    unfolding scan_ring_next [OF xs] find_None_iff using u set by (auto simp: caches_def)
  have "{i. i < NBUF \<and> refcnt (bufs s i) \<noteq> 0} = {..<NBUF}"
    by (rule card_subset_eq) (use refs_card [OF ok] n in auto)
  then have "scan_ring bprev (\<lambda>k. refcnt k = 0) s = None"
    unfolding scan_ring_prev [OF xs] find_None_iff using set by auto
  then have "bget ROOTDEV b s = Panic ''bget: no buffers''" by (rule bget_full [OF q s1])
  then show ?thesis by (simp add: bread_def bindK_def)
qed

section \<open>Initialisation\<close>

text \<open>Buffers and locks in zeroed memory.\<close>

definition fresh_bufs :: "'z bio_state_scheme \<Rightarrow> bool" where
  "fresh_bufs s \<longleftrightarrow> (\<forall>i. \<not> valid (bufs s i) \<and> dev (bufs s i) = 0 \<and> refcnt (bufs s i) = 0)
     \<and> (\<forall>i. slocked (slks s (SlBuf i)) = 0) \<and> (\<forall>b. length (dsk s b) = BSIZE)"

definition binit_inv :: "'z bio_state_scheme \<Rightarrow> nat \<Rightarrow> 'z bio_state_scheme \<Rightarrow> bool" where
  "binit_inv s k t \<longleftrightarrow>
     dll (\<lambda>i. bnext (bufs t i)) (\<lambda>i. bprev (bufs t i)) bhead (rev [0..<k]) bhead
     \<and> fresh_bufs t \<and> bframe s t \<and> dsk t = dsk s \<and> wtrace t = wtrace s"

lemma link_front_dll:
  assumes d: "dll (\<lambda>i. bnext (bufs s i)) (\<lambda>i. bprev (bufs s i)) bhead xs bhead"
    and i: "i \<notin> set xs" "i \<noteq> bhead" "bhead \<notin> set xs" "distinct xs"
  shows "\<exists>bs. link_front i s = Ok () (s\<lparr>bufs := bs\<rparr>) \<and> (\<forall>j. strip (bs j) = strip (bufs s j))
     \<and> dll (\<lambda>i. bnext (bs i)) (\<lambda>i. bprev (bs i)) bhead (i # xs) bhead"
proof -
  obtain bs where bs: "link_front i s = Ok () (s\<lparr>bufs := bs\<rparr>)"
    "relinks (bufs s) ((\<lambda>j. bnext (bufs s j))(i := bnext (bufs s bhead), bhead := i))
         ((\<lambda>j. bprev (bufs s j))(i := bhead, bnext (bufs s bhead) := i)) bs"
    using link_front_eq [OF i(2), of s] by blast
  have "dll (\<lambda>i. bnext (bs i)) (\<lambda>i. bprev (bs i)) bhead (i # xs) bhead"
    using dll_link_front [OF d, of i] i bs(2) unfolding relinks_def by simp
  then show ?thesis using bs unfolding relinks_def by blast
qed

lemma binit_step:
  assumes inv: "binit_inv s k t" and k: "k < NBUF"
  shows "\<exists>u. seqK [link_front k, initsleeplock (SlBuf k)] t = Ok () u \<and> binit_inv s (Suc k) u"
proof -
  have d: "dll (\<lambda>i. bnext (bufs t i)) (\<lambda>i. bprev (bufs t i)) bhead (rev [0..<k]) bhead"
    and fr: "fresh_bufs t" and fm: "bframe s t" "dsk t = dsk s" "wtrace t = wtrace s"
    using inv by (auto simp: binit_inv_def)
  obtain bs where bs: "link_front k t = Ok () (t\<lparr>bufs := bs\<rparr>)" "\<And>j. strip (bs j) = strip (bufs t j)"
     "dll (\<lambda>i. bnext (bs i)) (\<lambda>i. bprev (bs i)) bhead (rev [0..<Suc k]) bhead"
    using link_front_dll [OF d, of k] k by auto
  define u where "u = t\<lparr>bufs := bs, slks := (slks t)(SlBuf k := \<lparr>slocked = 0, spid = 0\<rparr>)\<rparr>"
  have "seqK [link_front k, initsleeplock (SlBuf k)] t = Ok () u"
    by (cases "slks t (SlBuf k)") (simp add: thenK_def bindK_def bs(1) initsleeplock_def upd_slk_def modifyK_def returnK_def u_def)
  moreover have "fresh_bufs u" using fr strip_fields [OF bs(2)] by (simp add: fresh_bufs_def u_def)
  moreover have "bframe s u" using fm(1) by (simp add: bframe_def u_def)
  ultimately show ?thesis using bs(3) fm by (auto simp: binit_inv_def u_def)
qed

lemma binit_ok:
  assumes fr: "fresh_bufs s"
  shows "\<exists>t. binit s = Ok () t \<and> fresh_bufs t \<and> lru_ring (bufs t) (rev [0..<NBUF]) \<and> bframe s t
     \<and> dsk t = dsk s \<and> wtrace t = wtrace s"
proof -
  define s0 where "s0 = s\<lparr>bufs := (bufs s)(bhead := (bufs s bhead)\<lparr>bprev := bhead, bnext := bhead\<rparr>)\<rparr>"
  have i0: "binit_inv s 0 s0" using fr by (auto simp: binit_inv_def s0_def fresh_bufs_def bframe_def)
  have "holds (binit_inv s 0) (forK [0..<NBUF] (\<lambda>b. seqK [link_front b, initsleeplock (SlBuf b)]))
      (\<lambda>_. binit_inv s (length [0..<NBUF::nat]))"
  proof (rule holds_for)
    fix k assume "k < length [0..<NBUF::nat]"
    then show "holds (binit_inv s k) (seqK [link_front ([0..<NBUF] ! k), initsleeplock (SlBuf ([0..<NBUF] ! k))])
        (\<lambda>_. binit_inv s (Suc k))"
      using binit_step [of s k] by (auto simp: holds_def)
  qed
  from holdsD [OF this i0] obtain t where t: "forK [0..<NBUF] (\<lambda>b. seqK [link_front b, initsleeplock (SlBuf b)]) s0 = Ok () t"
    "binit_inv s NBUF t" by auto
  have "binit s = Ok () t" using t(1) by (simp add: binit_def upd_buf_def thenK_def bindK_def modifyK_def returnK_def s0_def)
  then show ?thesis using t(2) by (auto simp: binit_inv_def lru_ring_def)
qed

lemma fresh_bufs_ok:
  assumes "fresh_bufs t" "lru_ring (bufs t) xs" "quiet t"
  shows "bio_ok t" "cont t = dsk t" "refs t = (\<lambda>_. 0)" "lockedb t = (\<lambda>_. False)"
proof -
  have n: "\<not> caches t i b" for i b using assms(1) by (simp add: fresh_bufs_def caches_def)
  then show "cont t = dsk t" "refs t = (\<lambda>_. 0)" "lockedb t = (\<lambda>_. False)"
    using view_uncached [of t] by (auto simp: fun_eq_iff)
  show "bio_ok t" using assms n by (auto simp: bio_ok_def buf_ok_def fresh_bufs_def)
qed

section \<open>Properties\<close>

definition boot_bio :: "(u32 \<Rightarrow> bytes) \<Rightarrow> bio_state" where
  "boot_bio d = \<lparr>pmem = (\<lambda>_. 0), procs = (\<lambda>_. zero_proc), curproc = Some 0, held = [],
     kend = 0x80021000, freelist = 0, slks = (\<lambda>_. \<lparr>slocked = 0, spid = 0\<rparr>),
     bufs = (\<lambda>_. \<lparr>valid = False, dev = 0, blockno = 0, refcnt = 0, bprev = 0, bnext = 0, data = replicate BSIZE 0\<rparr>),
     dsk = d, wtrace = []\<rparr>"

lemma boot_bio_fresh: "(\<And>b. length (d b) = BSIZE) \<Longrightarrow> fresh_bufs (boot_bio d)"
  by (simp add: fresh_bufs_def boot_bio_def)

lemma boot_binit:
  assumes "\<And>b. length (d b) = BSIZE"
  shows "\<exists>t. binit (boot_bio d) = Ok () t \<and> bio_ok t \<and> cont t = d \<and> refs t = (\<lambda>_. 0) \<and> lockedb t = (\<lambda>_. False)
     \<and> dsk t = d \<and> mypid t = 0 \<and> wtrace t = []"
proof -
  obtain t where t: "binit (boot_bio d) = Ok () t" "fresh_bufs t" "lru_ring (bufs t) (rev [0..<NBUF])" "bframe (boot_bio d) t"
     "dsk t = dsk (boot_bio d)" "wtrace t = wtrace (boot_bio d)"
    using binit_ok [OF boot_bio_fresh [of d]] assms by blast
  have "quiet t" using t(4) by (simp add: bframe_def quiet_def boot_bio_def)
  from fresh_bufs_ok [OF t(2,3) this] t bframe_mypid [OF t(4)] show ?thesis
    by (auto simp: boot_bio_def mypid_def zero_proc_def)
qed

text \<open>C5. \<open>bread\<close> returns a buffer locked by the caller that holds the current contents of the
  block (the cached copy when there is one, else what is on disk), adds one reference to it and
  changes neither the contents of any block nor the disk; the cache invariant (each block cached
  at most once, the list links a ring through all buffers, unreferenced buffers clean) still holds.\<close>

theorem bread_returns_block:
  assumes "bio_ok s" "\<not> lockedb s b" "refs s b + 1 < 2 ^ 32" "0 < refs s b \<or> inuse s < NBUF"
  shows "\<exists>i t. bread ROOTDEV b s = Ok i t \<and> bio_ok t \<and> mine t i \<and> data (bufs t i) = cont s b \<and> cont t = cont s
     \<and> refs t = (refs s)(b := refs s b + 1) \<and> dsk t = dsk s \<and> wtrace t = wtrace s"
proof -
  obtain i t where t: "bread ROOTDEV b s = Ok i t" "bstep i s t" "caches t i b" "mine t i" "cont t = cont s"
     "refs t = (refs s)(b := refs s b + 1)" "dsk t = dsk s" "wtrace t = wtrace s"
    using bread_ok [OF assms] by blast
  moreover have "bio_ok t" by (rule bstepD(1) [OF t(2)])
  moreover have "data (bufs t i) = cont s b"
    using view_cached(1) [OF bio_ok_unique [OF \<open>bio_ok t\<close>] t(3)] t(5) by simp
  ultimately show ?thesis by blast
qed

theorem bread_returns_block_witness:
  "\<exists>s i t. binit (boot_bio (\<lambda>b. replicate BSIZE (ucast b))) = Ok () s \<and> bread ROOTDEV 7 s = Ok i t
     \<and> data (bufs t i) = replicate BSIZE 7 \<and> refs t 7 = 1"
proof -
  obtain s where s: "binit (boot_bio (\<lambda>b. replicate BSIZE (ucast b))) = Ok () s" "bio_ok s"
     "cont s = (\<lambda>b. replicate BSIZE (ucast b))" "refs s = (\<lambda>_. 0)" "lockedb s = (\<lambda>_. False)"
    using boot_binit [of "\<lambda>b. replicate BSIZE (ucast b)"] by auto
  have "inuse s < NBUF" by (simp add: inuse_def s(4))
  then show ?thesis using bread_returns_block [of s 7] s by (fastforce simp: fun_eq_iff)
qed

text \<open>C6. A buffer is written to disk and forgotten only by its holder: \<open>bwrite\<close> and \<open>brelse\<close> of a
  buffer whose lock the caller does not hold panic; \<open>bwrite\<close> by the holder makes exactly the block
  on disk equal to the cached contents.\<close>

theorem bwrite_needs_lock:
  assumes "bio_ok s" "caches s i b"
  shows "(\<not> mine s i \<longrightarrow> bwrite i s = Panic ''bwrite'' \<and> brelse i s = Panic ''brelse'')
       \<and> (mine s i \<longrightarrow> (\<exists>t. bwrite i s = Ok () t \<and> bio_ok t \<and> cont t = cont s
            \<and> dsk t = (dsk s)(b := cont s b) \<and> wtrace t = wtrace s @ [(b, cont s b)]))"
proof -
  have q: "quiet s" using assms(1) by (simp add: bio_ok_def)
  show ?thesis
    using bwrite_panics [OF q, of i] brelse_panics [OF q, of i] bwrite_ok [OF assms] bstepD(1) by blast
qed

theorem bwrite_needs_lock_witness:
  "\<exists>s i t. thenK binit (bread ROOTDEV 7) (boot_bio (\<lambda>b. replicate BSIZE 0)) = Ok i s \<and> bwrite i s = Ok () t
     \<and> wtrace t = [(7, replicate BSIZE 0)]"
proof -
  obtain s where s: "binit (boot_bio (\<lambda>b. replicate BSIZE 0)) = Ok () s" "bio_ok s"
     "cont s = (\<lambda>b. replicate BSIZE 0)" "refs s = (\<lambda>_. 0)" "lockedb s = (\<lambda>_. False)" "wtrace s = []"
    using boot_binit [of "\<lambda>b. replicate BSIZE 0"] by auto
  have "inuse s < NBUF" by (simp add: inuse_def s(4))
  then obtain i t where t: "bread ROOTDEV 7 s = Ok i t" "bstep i s t" "caches t i 7" "mine t i" "cont t = cont s" "wtrace t = wtrace s"
    using bread_ok [OF s(2), of 7] s(4,5) by auto
  then show ?thesis
    using bwrite_needs_lock [OF bstepD(1) [OF t(2)] t(3)] s by (auto simp: thenK_def bindK_def)
qed

end
