(* ===== verification/Log.thy ===== *)
theory Log
  imports BioView
begin

text \<open>
  \<^verbatim>\<open>kernel/log.c\<close>: the write-ahead log.  The in-memory log is part of the state; the header
  block is encoded with \<open>put32\<close> into the block's bytes exactly where the C structure has its
  fields.  Reading or writing \<^verbatim>\<open>log.lh.block\<close> out of its bounds is undefined in C and is the
  outcome \<open>Panic ''undefined behaviour''\<close> here.
\<close>

section \<open>State and operations\<close>

record log_state = bio_state +
  lstart :: int
  lsize :: int
  outstanding :: int
  committing :: bool
  ldev :: int
  ln :: int
  lblock :: "u32 list"

definition ub_if :: "bool \<Rightarrow> ('s, unit) K" where
  "ub_if c = panic_if c ''undefined behaviour''"

definition bread_log :: "int \<Rightarrow> ('z log_state_scheme, nat) K" where
  "bread_log blk = bindK (getK ldev) (\<lambda>d. bread (word_of_int d) (word_of_int blk))"

definition log_block :: "nat \<Rightarrow> ('z log_state_scheme, u32) K" where
  "log_block i = thenK (ub_if (LOGSIZE \<le> i)) (getK (\<lambda>s. lblock s ! i))"

definition install_one :: "bool \<Rightarrow> nat \<Rightarrow> ('z log_state_scheme, unit) K" where
  "install_one recovering tail =
     bindK (getK lstart) (\<lambda>start.
     bindK (bread_log (start + int tail + 1)) (\<lambda>lbuf.
     bindK (log_block tail) (\<lambda>blk.
     bindK (bread_log (uint blk)) (\<lambda>dbuf.
     bindK (get_buf lbuf) (\<lambda>k.
     seqK [set_data dbuf (data k),
           bwrite dbuf,
           whenK (\<not> recovering) (bunpin dbuf),
           brelse lbuf,
           brelse dbuf])))))"

definition install_trans :: "bool \<Rightarrow> ('z log_state_scheme, unit) K" where
  "install_trans recovering = bindK (getK ln) (\<lambda>n. forK [0..<nat n] (install_one recovering))"

definition read_head :: "('z log_state_scheme, unit) K" where
  "read_head =
     bindK (getK lstart) (\<lambda>start.
     bindK (bread_log start) (\<lambda>b.
     bindK (get_buf b) (\<lambda>k.
     seqK [modifyK (\<lambda>s. s\<lparr>ln := sint (get32 (data k) 0)\<rparr>),
           forK [0..<nat (sint (get32 (data k) 0))] (\<lambda>i.
             seqK [ub_if (LOGSIZE \<le> i),
                   modifyK (\<lambda>s. s\<lparr>lblock := (lblock s)[i := get32 (data k) (4 + 4 * i)]\<rparr>)]),
           brelse b])))"

definition write_head :: "('z log_state_scheme, unit) K" where
  "write_head =
     bindK (getK lstart) (\<lambda>start.
     bindK (bread_log start) (\<lambda>b.
     bindK (getK ln) (\<lambda>n.
     seqK [upd_buf b (\<lambda>k. k\<lparr>data := put32 (data k) 0 (word_of_int n)\<rparr>),
           forK [0..<nat n] (\<lambda>i. bindK (log_block i) (\<lambda>v.
             upd_buf b (\<lambda>k. k\<lparr>data := put32 (data k) (4 + 4 * i) v\<rparr>))),
           bwrite b,
           brelse b])))"

definition recover_from_log :: "('z log_state_scheme, unit) K" where
  "recover_from_log = seqK [read_head, install_trans True, modifyK (\<lambda>s. s\<lparr>ln := 0\<rparr>), write_head]"

text \<open>The superblock's \<^verbatim>\<open>logstart\<close> and \<^verbatim>\<open>nlog\<close> are the arguments; \<^verbatim>\<open>sizeof(struct logheader)\<close> is 124.\<close>

definition initlog :: "int \<Rightarrow> u32 \<Rightarrow> u32 \<Rightarrow> ('z log_state_scheme, unit) K" where
  "initlog dv logstart nlog =
     seqK [panic_if (4 + 4 * LOGSIZE \<ge> (BSIZE :: nat)) ''initlog: too big logheader'',
           modifyK (\<lambda>s. s\<lparr>lstart := sint logstart\<rparr>),
           modifyK (\<lambda>s. s\<lparr>lsize := sint nlog\<rparr>),
           modifyK (\<lambda>s. s\<lparr>ldev := dv\<rparr>),
           recover_from_log]"

definition begin_op :: "('z log_state_scheme, unit) K" where
  "begin_op =
     thenK (acquire LkLog)
     (bindK (getK id) (\<lambda>s.
      if committing s then sleep ChLog LkLog
      else if ln s + (outstanding s + 1) * MAXOPBLOCKS > LOGSIZE then sleep ChLog LkLog
      else seqK [modifyK (\<lambda>s. s\<lparr>outstanding := outstanding s + 1\<rparr>), release LkLog]))"

definition write_log_one :: "nat \<Rightarrow> ('z log_state_scheme, unit) K" where
  "write_log_one tail =
     bindK (getK lstart) (\<lambda>start.
     bindK (bread_log (start + int tail + 1)) (\<lambda>to.
     bindK (log_block tail) (\<lambda>blk.
     bindK (bread_log (uint blk)) (\<lambda>from.
     bindK (get_buf from) (\<lambda>k.
     seqK [set_data to (data k), bwrite to, brelse from, brelse to])))))"

definition write_log :: "('z log_state_scheme, unit) K" where
  "write_log = bindK (getK ln) (\<lambda>n. forK [0..<nat n] write_log_one)"

definition commit :: "('z log_state_scheme, unit) K" where
  "commit =
     bindK (getK ln) (\<lambda>n.
     whenK (n > 0)
       (seqK [write_log, write_head, install_trans False, modifyK (\<lambda>s. s\<lparr>ln := 0\<rparr>), write_head]))"

definition end_op :: "('z log_state_scheme, unit) K" where
  "end_op =
     seqK [acquire LkLog,
           modifyK (\<lambda>s. s\<lparr>outstanding := outstanding s - 1\<rparr>),
           bindK (getK committing) (\<lambda>c. panic_if c ''log.committing''),
           bindK (getK outstanding) (\<lambda>n.
             if n = 0
             then seqK [modifyK (\<lambda>s. s\<lparr>committing := True\<rparr>), release LkLog,
                        commit,
                        acquire LkLog, modifyK (\<lambda>s. s\<lparr>committing := False\<rparr>), wakeup ChLog, release LkLog]
             else seqK [wakeup ChLog, release LkLog])]"

text \<open>The position of a block number in the header, or \<open>n\<close>: the search loop of \<open>log_write\<close>.\<close>

function absorb :: "u32 list \<Rightarrow> nat \<Rightarrow> u32 \<Rightarrow> nat \<Rightarrow> nat" where
  "absorb bl n bn i = (if i < n then (if bl ! i = bn then i else absorb bl n bn (i + 1)) else i)"
  by pat_completeness auto
termination
  by (relation "measure (\<lambda>(bl, n, bn, i). n - i)") auto

declare absorb.simps [simp del]

definition log_write :: "nat \<Rightarrow> ('z log_state_scheme, unit) K" where
  "log_write b =
     thenK (acquire LkLog)
     (bindK (getK id) (\<lambda>s.
      seqK [panic_if (ln s \<ge> LOGSIZE \<or> ln s \<ge> lsize s - 1) ''too big a transaction'',
            panic_if (outstanding s < 1) ''log_write outside of trans'',
            (let i = absorb (lblock s) (nat (ln s)) (blockno (bufs s b)) 0 in
             seqK [modifyK (\<lambda>s. s\<lparr>lblock := (lblock s)[i := blockno (bufs s b)]\<rparr>),
                   whenK (int i = ln s) (seqK [bpin b, modifyK (\<lambda>s. s\<lparr>ln := ln s + 1\<rparr>)])]),
            release LkLog]))"

section \<open>The cache and the log's own fields\<close>

definition same_bio :: "'z bio_state_scheme \<Rightarrow> 'z bio_state_scheme \<Rightarrow> bool" where
  "same_bio s t \<longleftrightarrow> bufs t = bufs s \<and> slks t = slks s \<and> dsk t = dsk s \<and> procs t = procs s
     \<and> curproc t = curproc s \<and> held t = held s"

lemma same_bio_view:
  assumes "same_bio s t"
  shows "bio_ok t \<longleftrightarrow> bio_ok s" "cont t = cont s" "refs t = refs s" "lockedb t = lockedb s" "mine t i \<longleftrightarrow> mine s i"
    "caches t i b \<longleftrightarrow> caches s i b" "inuse t = inuse s"
proof -
  have c: "caches t = caches s" using assms by (simp add: same_bio_def caches_def fun_eq_iff)
  have x: "bidx t = bidx s" by (simp add: bidx_def c fun_eq_iff)
  show "cont t = cont s" "lockedb t = lockedb s"
    using assms by (simp_all add: cont_def lockedb_def same_bio_def x fun_eq_iff split: option.splits)
  show r: "refs t = refs s" using assms by (simp add: refs_def same_bio_def x fun_eq_iff split: option.splits)
  have pidt: "mypid t = mypid s" using assms by (simp add: same_bio_def mypid_def split: option.splits)
  show "mine t i \<longleftrightarrow> mine s i" using assms by (simp add: mine_def same_bio_def pidt)
  show "caches t i b \<longleftrightarrow> caches s i b" by (simp add: c)
  show "inuse t = inuse s" by (simp add: inuse_def r)
  show "bio_ok t \<longleftrightarrow> bio_ok s" using assms by (simp add: bio_ok_def buf_ok_def quiet_def same_bio_def c)
qed

lemma log_upd_same [simp]:
  "same_bio s (s\<lparr>ln := n\<rparr>)" "same_bio s (s\<lparr>lblock := l\<rparr>)" "same_bio s (s\<lparr>lstart := a\<rparr>)" "same_bio s (s\<lparr>lsize := z\<rparr>)"
  "same_bio s (s\<lparr>ldev := d\<rparr>)" "same_bio s (s\<lparr>outstanding := n\<rparr>)" "same_bio s (s\<lparr>committing := c\<rparr>)"
  by (simp_all add: same_bio_def)

text \<open>The operations of the cache leave the log's fields alone.\<close>

definition same_log :: "'z log_state_scheme \<Rightarrow> 'z log_state_scheme \<Rightarrow> bool" where
  "same_log s t \<longleftrightarrow> lstart t = lstart s \<and> lsize t = lsize s \<and> outstanding t = outstanding s \<and> committing t = committing s
     \<and> ldev t = ldev s \<and> ln t = ln s \<and> lblock t = lblock s"

lemma bframe_log: "bframe s t \<Longrightarrow> same_log s t"
  by (cases s; cases t) (simp add: bframe_def same_log_def)

lemma same_log_trans: "same_log s t \<Longrightarrow> same_log t u \<Longrightarrow> same_log s u"
  by (simp add: same_log_def)

section \<open>Copying a block through the cache\<close>

lemma bread_log_ok:
  assumes "bio_ok s" "ldev s = 1" "\<not> lockedb s (word_of_int b)" "refs s (word_of_int b) + 1 < 2 ^ 32"
    "0 < refs s (word_of_int b) \<or> inuse s < NBUF"
  shows "\<exists>i t. bread_log b s = Ok i t \<and> bstep i s t \<and> caches t i (word_of_int b) \<and> mine t i \<and> cont t = cont s
     \<and> refs t = (refs s)(word_of_int b := refs s (word_of_int b) + 1)
     \<and> lockedb t = (lockedb s)(word_of_int b := True) \<and> dsk t = dsk s \<and> wtrace t = wtrace s"
  using bread_ok [OF assms(1,3-5)] assms(2) by (simp add: bread_log_def bindK_def getK_def)

lemma log_block_Ok: "i < LOGSIZE \<Longrightarrow> log_block i s = Ok (lblock s ! i) s"
  by (simp add: log_block_def ub_if_def K_defs)

text \<open>
  \<open>step_to s t\<close>: a compound operation returned to a quiet cache with the frame and the log
  fields untouched.
\<close>

definition step_to :: "'z log_state_scheme \<Rightarrow> 'z log_state_scheme \<Rightarrow> bool" where
  "step_to s t \<longleftrightarrow> bio_ok t \<and> bframe s t"

lemma step_to_log: "step_to s t \<Longrightarrow> same_log s t"
  by (simp add: step_to_def bframe_log)

lemma caches_keep:
  assumes "bstep j s t" "bio_ok s" "caches s i b" "mine s i" shows "caches t i b"
  using bstepD(3) [OF assms(1,3)] mine_buf(1) [OF assms(2-4)] by blast

lemma caches_data: "bio_ok s \<Longrightarrow> caches s i b \<Longrightarrow> data (bufs s i) = cont s b"
  using view_cached(1) bio_ok_unique by metis

lemma caches_neq: "caches s i a \<Longrightarrow> caches s j b \<Longrightarrow> a \<noteq> b \<Longrightarrow> i \<noteq> j"
  by (auto simp: caches_def)

lemma inuse_upd:
  "refs t = (refs s)(a := n) \<Longrightarrow> inuse t \<le> inuse s + 1"
proof -
  assume r: "refs t = (refs s)(a := n)"
  have "inuse t \<le> card (insert a {b. 0 < refs s b})"
    unfolding inuse_def by (rule card_mono) (auto simp: r split: if_splits)
  also have "\<dots> \<le> inuse s + 1" unfolding inuse_def by (simp add: card_insert_if)
  finally show ?thesis .
qed

lemma two_breads:
  fixes s :: "'z log_state_scheme" and a b :: int
  defines "wa \<equiv> word_of_int a :: u32" and "wb \<equiv> word_of_int b :: u32"
  assumes ok: "bio_ok s" and dev: "ldev s = 1" and ne: "wa \<noteq> wb" and l: "\<not> lockedb s wa" "\<not> lockedb s wb"
    and ra: "refs s wa = 0" and rb: "refs s wb \<le> 1" and n: "inuse s < NBUF" "refs s wb = 1 \<or> inuse s + 1 < NBUF"
  shows "\<exists>i j t u. bread_log a s = Ok i t \<and> bread_log b t = Ok j u \<and> same_log s t \<and> step_to s u \<and> i \<noteq> j
     \<and> caches u i wa \<and> caches u j wb \<and> mine u i \<and> mine u j \<and> cont u = cont s
     \<and> refs u = (refs s)(wa := 1, wb := refs s wb + 1) \<and> lockedb u = (lockedb s)(wa := True, wb := True)
     \<and> dsk u = dsk s \<and> wtrace u = wtrace s"
proof -
  obtain i t where t: "bread_log a s = Ok i t" "bstep i s t" "caches t i wa" "mine t i" "cont t = cont s"
     "refs t = (refs s)(wa := 1)" "lockedb t = (lockedb s)(wa := True)" "dsk t = dsk s" "wtrace t = wtrace s"
    using bread_log_ok [OF ok dev, of a] l(1) ra n(1) unfolding wa_def by auto
  note t' = bstepD [OF t(2)]
  have lg: "same_log s t" by (rule bframe_log [OF t'(2)])
  have "ldev t = 1" using lg dev by (simp add: same_log_def)
  moreover have "inuse t \<le> inuse s + 1" by (rule inuse_upd [OF t(6)])
  ultimately obtain j u where u: "bread_log b t = Ok j u" "bstep j t u" "caches u j wb" "mine u j" "cont u = cont t"
     "refs u = (refs t)(wb := refs t wb + 1)" "lockedb u = (lockedb t)(wb := True)" "dsk u = dsk t" "wtrace u = wtrace t"
    using bread_log_ok [OF t'(1), of b] l(2) rb n(2) ne t(6,7) unfolding wb_def by fastforce
  note u' = bstepD [OF u(2)]
  have ci: "caches u i wa" by (rule caches_keep [OF u(2) t'(1) t(3,4)])
  have ij: "i \<noteq> j" by (rule caches_neq [OF ci u(3) ne])
  have "step_to s u" using u'(1) bframe_trans [OF t'(2) u'(2)] by (simp add: step_to_def)
  moreover have "mine u i" using u'(4) [OF ij t(4)] .
  ultimately show ?thesis using t(1,5-9) u(1,3-9) ci ij lg ne by auto
qed

lemma brelse_two:
  assumes ok: "bio_ok s" and c: "caches s i a" "caches s j b" and m: "mine s i" "mine s j" and ij: "i \<noteq> j" and ab: "a \<noteq> b"
    and clean: "refs s a = 1 \<Longrightarrow> cont s a = dsk s a" "refs s b = 1 \<Longrightarrow> cont s b = dsk s b"
  shows "\<exists>t. seqK [brelse i, brelse j] s = Ok () t \<and> bio_ok t \<and> bframe s t \<and> cont t = cont s
     \<and> refs t = (refs s)(a := refs s a - 1, b := refs s b - 1) \<and> lockedb t = (lockedb s)(a := False, b := False)
     \<and> dsk t = dsk s \<and> wtrace t = wtrace s"
proof -
  obtain t where t: "brelse i s = Ok () t" "bstep i s t" "cont t = cont s" "refs t = (refs s)(a := refs s a - 1)"
     "lockedb t = (lockedb s)(a := False)" "dsk t = dsk s" "wtrace t = wtrace s"
    using brelse_ok [OF ok c(1) m(1) clean(1)] by blast
  note t' = bstepD [OF t(2)]
  have cj: "caches t j b" by (rule caches_keep [OF t(2) ok c(2) m(2)])
  have mj: "mine t j" using t'(4) [of j] ij m(2) by simp
  have cl: "refs t b = 1 \<Longrightarrow> cont t b = dsk t b" using clean(2) ab t(3,4,6) by simp
  obtain u where u: "brelse j t = Ok () u" "bstep j t u" "cont u = cont t" "refs u = (refs t)(b := refs t b - 1)"
     "lockedb u = (lockedb t)(b := False)" "dsk u = dsk t" "wtrace u = wtrace t"
    using brelse_ok [OF t'(1) cj mj cl] by blast
  have "bframe s u" using t'(2) bstepD(2) [OF u(2)] by (rule bframe_trans)
  then show ?thesis using t u bstepD(1) [OF u(2)] ab by (simp add: thenK_def bindK_def returnK_def)
qed

lemma copy_write:
  assumes ok: "bio_ok s" and c: "caches s i a" "caches s j b" and m: "mine s i" "mine s j"
  shows "\<exists>t. thenK (set_data j (cont s a)) (bwrite j) s = Ok () t \<and> bio_ok t \<and> bframe s t \<and> caches t i a \<and> caches t j b
     \<and> mine t i \<and> mine t j \<and> cont t = (cont s)(b := cont s a) \<and> refs t = refs s \<and> lockedb t = lockedb s
     \<and> dsk t = (dsk s)(b := cont s a) \<and> wtrace t = wtrace s @ [(b, cont s a)]"
proof -
  have len: "length (cont s a) = BSIZE" using mine_buf(4) [OF ok c(1) m(1)] caches_data [OF ok c(1)] by simp
  obtain t where t: "set_data j (cont s a) s = Ok () t" "bstep j s t" "mine t j" "caches t j b" "cont t = (cont s)(b := cont s a)"
     "refs t = refs s" "lockedb t = lockedb s" "dsk t = dsk s" "wtrace t = wtrace s"
    using set_data_ok [OF ok c(2) m(2) len] by blast
  note t' = bstepD [OF t(2)]
  have ci: "caches t i a" by (rule caches_keep [OF t(2) ok c(1) m(1)])
  have mi: "mine t i" using t'(4) m(1) t(3) by (cases "i = j") auto
  obtain u where u: "bwrite j t = Ok () u" "bstep j t u" "mine u j" "caches u j b" "cont u = cont t" "refs u = refs t"
     "lockedb u = lockedb t" "dsk u = (dsk t)(b := cont t b)" "wtrace u = wtrace t @ [(b, cont t b)]"
    using bwrite_ok [OF t'(1) t(4,3)] by blast
  note u' = bstepD [OF u(2)]
  have "caches u i a" by (rule caches_keep [OF u(2) t'(1) ci mi])
  moreover have "mine u i" using u'(4) mi u(3) by (cases "i = j") auto
  moreover have "bframe s u" using t'(2) u'(2) by (rule bframe_trans)
  ultimately show ?thesis using t u u'(1) by (simp add: thenK_def bindK_def)
qed

lemma clean_unref:
  assumes ok: "bio_ok s" and r: "refs s a = 0" shows "cont s a = dsk s a"
proof (cases "\<exists>i. caches s i a")
  case True
  then obtain i where c: "caches s i a" ..
  note v = view_cached [OF bio_ok_unique [OF ok] c]
  have "buf_ok s i" using ok c by (simp add: bio_ok_def caches_def)
  moreover have "refcnt (bufs s i) = 0" using r v(2) by (simp add: unat_eq_0)
  ultimately show ?thesis using c v(1) by (auto simp: buf_ok_def caches_def)
qed (use view_uncached(1) in blast)

definition lblk :: "int \<Rightarrow> nat \<Rightarrow> u32" where
  "lblk start i = word_of_int (start + int i)"

lemma write_log_one_ok:
  fixes s :: "'z log_state_scheme" and tail :: nat
  defines "a \<equiv> lblk (lstart s) (Suc tail)" and "b \<equiv> lblock s ! tail"
  assumes ok: "bio_ok s" and dev: "ldev s = 1" and tail: "tail < LOGSIZE" and ne: "a \<noteq> b"
    and l: "lockedb s = (\<lambda>_. False)" and r: "refs s a = 0" "refs s b = 1" and n: "inuse s < NBUF"
  shows "\<exists>t. write_log_one tail s = Ok () t \<and> step_to s t \<and> cont t = (cont s)(a := cont s b) \<and> refs t = refs s
     \<and> lockedb t = (\<lambda>_. False) \<and> dsk t = (dsk s)(a := cont s b) \<and> wtrace t = wtrace s @ [(a, cont s b)]"
proof -
  have a': "word_of_int (lstart s + int tail + 1) = a" by (simp add: a_def lblk_def ac_simps)
  have b': "word_of_int (uint b) = b" by simp
  obtain i j t u where u: "bread_log (lstart s + int tail + 1) s = Ok i t" "bread_log (uint b) t = Ok j u" "same_log s t"
     "step_to s u" "i \<noteq> j" "caches u i a" "caches u j b" "mine u i" "mine u j" "cont u = cont s"
     "refs u = (refs s)(a := 1, b := 2)" "lockedb u = (lockedb s)(a := True, b := True)"
     "dsk u = dsk s" "wtrace u = wtrace s"
    using two_breads [OF ok dev, of "lstart s + int tail + 1" "uint b"] l r n ne unfolding a' b' by (auto simp: numeral_2_eq_2)
  have oku: "bio_ok u" "bframe s u" using u(4) by (simp_all add: step_to_def)
  obtain v where v: "thenK (set_data i (cont u b)) (bwrite i) u = Ok () v" "bio_ok v" "bframe u v" "caches v j b" "caches v i a"
     "mine v j" "mine v i" "cont v = (cont u)(a := cont u b)" "refs v = refs u" "lockedb v = lockedb u"
     "dsk v = (dsk u)(a := cont u b)" "wtrace v = wtrace u @ [(a, cont u b)]"
    using copy_write [OF oku(1) u(7,6,9,8)] by blast
  obtain w where w: "seqK [brelse j, brelse i] v = Ok () w" "bio_ok w" "bframe v w" "cont w = cont v"
     "refs w = (refs v)(b := refs v b - 1, a := refs v a - 1)" "lockedb w = (lockedb v)(b := False, a := False)"
     "dsk w = dsk v" "wtrace w = wtrace v"
    using brelse_two [OF v(2,4,5,6,7)] u(5,11) v(8,9,11) ne by force
  have "write_log_one tail s = Ok () w"
    using w(1) u(1,2) tail u(3) caches_data [OF oku(1) u(7)]
    by (simp add: write_log_one_def bindK_def getK_def log_block_Ok same_log_def b_def [symmetric] get_buf_def
        thenK_thenK_Ok [of "set_data i (cont u b)" "bwrite i", OF v(1)])
  moreover have "step_to s w" using w(2) oku(2) v(3) w(3) bframe_trans unfolding step_to_def by blast
  moreover have "refs w = refs s" using w(5) v(9) u(11) r ne by auto
  moreover have "lockedb w = (\<lambda>_. False)" using w(6) v(10) u(12) l by (simp add: fun_eq_iff)
  ultimately show ?thesis using w(4,7,8) v(8,11,12) u(10,13,14) by auto
qed

lemma install_one_ok:
  fixes s :: "'z log_state_scheme" and tail :: nat
  defines "a \<equiv> lblk (lstart s) (Suc tail)" and "b \<equiv> lblock s ! tail"
  assumes ok: "bio_ok s" and dev: "ldev s = 1" and tail: "tail < LOGSIZE" and ne: "a \<noteq> b"
    and l: "lockedb s = (\<lambda>_. False)" and r: "refs s a = 0" "refs s b = (if recovering then 0 else 1)"
    and n: "inuse s < NBUF" "recovering \<Longrightarrow> inuse s + 1 < NBUF"
  shows "\<exists>t. install_one recovering tail s = Ok () t \<and> step_to s t \<and> cont t = (cont s)(b := cont s a)
     \<and> refs t = (refs s)(b := 0)
     \<and> lockedb t = (\<lambda>_. False) \<and> dsk t = (dsk s)(b := cont s a) \<and> wtrace t = wtrace s @ [(b, cont s a)]"
proof -
  have a': "word_of_int (lstart s + int tail + 1) = a" by (simp add: a_def lblk_def ac_simps)
  have b': "word_of_int (uint b) = b" by simp
  obtain i j t u where u: "bread_log (lstart s + int tail + 1) s = Ok i t" "bread_log (uint b) t = Ok j u" "same_log s t"
     "step_to s u" "i \<noteq> j" "caches u i a" "caches u j b" "mine u i" "mine u j" "cont u = cont s"
     "refs u = (refs s)(a := 1, b := refs s b + 1)" "lockedb u = (lockedb s)(a := True, b := True)"
     "dsk u = dsk s" "wtrace u = wtrace s"
    using two_breads [OF ok dev, of "lstart s + int tail + 1" "uint b"] l r n ne unfolding a' b' by (cases recovering) auto
  have oku: "bio_ok u" "bframe s u" using u(4) by (simp_all add: step_to_def)
  obtain v where v: "thenK (set_data j (cont u a)) (bwrite j) u = Ok () v" "bio_ok v" "bframe u v" "caches v i a" "caches v j b"
     "mine v i" "mine v j" "cont v = (cont u)(b := cont u a)" "refs v = refs u" "lockedb v = lockedb u"
     "dsk v = (dsk u)(b := cont u a)" "wtrace v = wtrace u @ [(b, cont u a)]"
    using copy_write [OF oku(1) u(6,7,8,9)] by blast
  obtain x where x: "whenK (\<not> recovering) (bunpin j) v = Ok () x" "bio_ok x" "bframe v x" "caches x i a" "caches x j b"
     "mine x i" "mine x j" "cont x = cont v" "refs x = (refs v)(b := 1)" "lockedb x = lockedb v" "dsk x = dsk v" "wtrace x = wtrace v"
  proof (cases recovering)
    case True
    have "refs v = (refs v)(b := 1)" using v(9) u(11) r ne True by (auto simp: fun_eq_iff)
    with True v that [of v] show ?thesis by (simp add: whenK_def returnK_def)
  next
    case False
    have rv: "refs v b = 2" using v(9) u(11) r ne False by simp
    obtain y where y: "bunpin j v = Ok () y" "bstep j v y" "mine y j" "caches y j b" "cont y = cont v"
       "refs y = (refs v)(b := refs v b - 1)" "lockedb y = lockedb v" "dsk y = dsk v" "wtrace y = wtrace v"
      using bunpin_ok [OF v(2,5,7)] rv by auto
    have "caches y i a" by (rule caches_keep [OF y(2) v(2,4,6)])
    moreover have "mine y i" using bstepD(4) [OF y(2)] u(5) v(6) by blast
    ultimately show ?thesis using that [of y] y bstepD(1,2) [OF y(2)] False rv by (simp add: whenK_def)
  qed
  have cl: "cont x a = dsk x a" "cont x b = dsk x b"
    using x(8,11) v(8,11) u(10,13) ne clean_unref [OF ok r(1)] by simp_all
  obtain w where w: "seqK [brelse i, brelse j] x = Ok () w" "bio_ok w" "bframe x w" "cont w = cont x"
     "refs w = (refs x)(a := refs x a - 1, b := refs x b - 1)" "lockedb w = (lockedb x)(a := False, b := False)"
     "dsk w = dsk x" "wtrace w = wtrace x"
    using brelse_two [OF x(2,4,5,6,7) u(5) ne] cl by blast
  have "install_one recovering tail s = Ok () w"
    using w(1) u(1,2) tail u(3) caches_data [OF oku(1) u(6)]
    by (simp add: install_one_def bindK_def getK_def log_block_Ok same_log_def b_def [symmetric] get_buf_def
        thenK_thenK_Ok [of "set_data j (cont u a)" "bwrite j", OF v(1)]
        thenK_Ok [of "whenK (\<not> recovering) (bunpin j)", OF x(1)])
  moreover have "step_to s w" using w(2) oku(2) v(3) x(3) w(3) bframe_trans unfolding step_to_def by blast
  moreover have "refs w = (refs s)(b := 0)" using w(5) x(9) v(9) u(11) r ne by auto
  moreover have "lockedb w = (\<lambda>_. False)" using w(6) x(10) v(10) u(12) l by (simp add: fun_eq_iff)
  ultimately show ?thesis using w(4,7,8) x(8,11,12) v(8,11,12) u(10,13,14) by auto
qed

section \<open>Sequences of block writes\<close>

definition apply_writes :: "(u32 \<times> bytes) list \<Rightarrow> (u32 \<Rightarrow> bytes) \<Rightarrow> u32 \<Rightarrow> bytes" where
  "apply_writes W d = fold (\<lambda>(b, x) d. d(b := x)) W d"

lemma apply_writes_simps [simp]:
  "apply_writes [] d = d" "apply_writes ((b, x) # W) d = apply_writes W (d(b := x))"
  "apply_writes (V @ W) d = apply_writes W (apply_writes V d)"
  by (simp_all add: apply_writes_def)

lemma apply_writes_other: "b \<notin> fst ` set W \<Longrightarrow> apply_writes W d b = d b"
  by (induction W arbitrary: d) (auto simp: apply_writes_def)

lemma apply_writes_map_other:
  "(\<And>i. i \<in> set xs \<Longrightarrow> f i \<noteq> b) \<Longrightarrow> apply_writes (map (\<lambda>i. (f i, g i)) xs) d b = d b"
  by (rule apply_writes_other) force

lemma apply_writes_map:
  assumes "distinct (map f xs)" "i \<in> set xs" shows "apply_writes (map (\<lambda>i. (f i, g i)) xs) d (f i) = g i"
  using assms
proof (induction xs arbitrary: d)
  case (Cons x xs)
  show ?case
  proof (cases "i \<in> set xs")
    case True
    then show ?thesis using Cons by simp
  next
    case False
    then have "i = x" using Cons.prems by simp
    have "f x \<notin> f ` set xs" using Cons.prems(1) by simp
    then have "f j \<noteq> f x" if "j \<in> set xs" for j using that by (metis imageI)
    then show ?thesis using apply_writes_map_other [of xs f "f x" g "d(f x := g x)"] \<open>i = x\<close> by simp
  qed
qed simp

text \<open>The effect of a compound operation on a cache in which nothing is locked.\<close>

definition effect :: "(u32 \<times> bytes) list \<Rightarrow> (u32 \<Rightarrow> nat) \<Rightarrow> 'z log_state_scheme \<Rightarrow> 'z log_state_scheme \<Rightarrow> bool" where
  "effect W R s t \<longleftrightarrow> step_to s t \<and> lockedb t = (\<lambda>_. False) \<and> refs t = R \<and> dsk t = apply_writes W (dsk s)
     \<and> cont t = apply_writes W (cont s) \<and> wtrace t = wtrace s @ W"

lemma effect_trans: "effect V R s t \<Longrightarrow> effect W R' t u \<Longrightarrow> effect (V @ W) R' s u"
  by (auto simp: effect_def step_to_def intro: bframe_trans)

lemma effect_refl: "bio_ok s \<Longrightarrow> lockedb s = (\<lambda>_. False) \<Longrightarrow> effect [] (refs s) s s"
  by (simp add: effect_def step_to_def)

lemma effectD:
  assumes "effect W R s t"
  shows "bio_ok t" "same_log s t" "lockedb t = (\<lambda>_. False)" "refs t = R" "cont t = apply_writes W (cont s)"
    "dsk t = apply_writes W (dsk s)" "wtrace t = wtrace s @ W" "bframe s t"
  using assms by (auto simp: effect_def step_to_def bframe_log)

section \<open>The geometry of the log\<close>

definition log_geom :: "'z log_state_scheme \<Rightarrow> bool" where
  "log_geom s \<longleftrightarrow> ldev s = 1 \<and> 0 \<le> lstart s \<and> lstart s + LOGSIZE < 2 ^ 31 \<and> length (lblock s) = LOGSIZE
     \<and> 0 \<le> ln s \<and> ln s < LOGSIZE \<and> distinct (take (nat (ln s)) (lblock s))
     \<and> (\<forall>b\<in>set (take (nat (ln s)) (lblock s)). \<forall>k<LOGSIZE. b \<noteq> lblk (lstart s) k)"

lemma log_geom_same: "same_log s t \<Longrightarrow> log_geom t \<longleftrightarrow> log_geom s"
  by (simp add: log_geom_def same_log_def)

lemma lblk_inject:
  assumes "0 \<le> st" "st + LOGSIZE < 2 ^ 31" "j \<le> LOGSIZE" "k \<le> LOGSIZE"
  shows "lblk st j = lblk st k \<longleftrightarrow> j = k"
proof -
  have "uint (lblk st m) = st + int m" if "m \<le> LOGSIZE" for m
    unfolding lblk_def by (subst uint_word_of_int) (use assms(1,2) that in \<open>simp add: take_bit_int_eq_self_iff\<close>)
  then show ?thesis using assms(3,4) by (metis add_left_cancel of_nat_eq_iff)
qed

lemma log_geom_n: "log_geom s \<Longrightarrow> nat (ln s) < LOGSIZE"
  by (auto simp: log_geom_def nat_less_iff)

lemma logged_nth:
  assumes g: "log_geom s" and i: "i < nat (ln s)"
  shows "i < LOGSIZE" "lblock s ! i \<in> set (take (nat (ln s)) (lblock s))" "k < LOGSIZE \<Longrightarrow> lblk (lstart s) k \<noteq> lblock s ! i"
    "Suc i < LOGSIZE"
proof -
  show a: "i < LOGSIZE" "Suc i < LOGSIZE" using log_geom_n [OF g] i by simp_all
  show b: "lblock s ! i \<in> set (take (nat (ln s)) (lblock s))" using g i a(1) by (auto simp: in_set_conv_nth log_geom_def)
  show "k < LOGSIZE \<Longrightarrow> lblk (lstart s) k \<noteq> lblock s ! i" using g b unfolding log_geom_def by metis
qed

lemma logged_inject:
  assumes g: "log_geom s" and i: "i < nat (ln s)" "j < nat (ln s)"
  shows "lblock s ! i = lblock s ! j \<longleftrightarrow> i = j"
  using nth_eq_iff_index_eq [of "take (nat (ln s)) (lblock s)" i j] assms by (auto simp: log_geom_def)

lemma inuse_logged:
  assumes "log_geom s" "{b. 0 < refs s b} \<subseteq> set (take (nat (ln s)) (lblock s))" shows "inuse s < NBUF"
proof -
  have "inuse s \<le> card (set (take (nat (ln s)) (lblock s)))"
    unfolding inuse_def by (rule card_mono) (use assms(2) in auto)
  also have "\<dots> \<le> nat (ln s)" using card_length [of "take (nat (ln s)) (lblock s)"] by simp
  finally show ?thesis using log_geom_n [OF assms(1)] by simp
qed

end
