(* ===== verification/LogCommit.thy ===== *)
theory LogCommit
  imports Log
begin

text \<open>
  What \<open>commit\<close> and recovery do to the disk.  The loops of \<^verbatim>\<open>kernel/log.c\<close> are summarised as
  sequences of block writes; every prefix of the sequence that \<open>commit\<close> issues is a state in
  which the machine may crash, and recovery from it yields either none or all of the
  transaction.
\<close>

section \<open>The copying loops\<close>

definition logged :: "'z log_state_scheme \<Rightarrow> u32 set" where
  "logged s = set (take (nat (ln s)) (lblock s))"

lemma logged_not_log: "log_geom s \<Longrightarrow> k < LOGSIZE \<Longrightarrow> lblk (lstart s) k \<notin> logged s"
  unfolding log_geom_def logged_def by blast

definition pinned :: "'z log_state_scheme \<Rightarrow> bool" where
  "pinned s \<longleftrightarrow> refs s = (\<lambda>b. if b \<in> logged s then 1 else 0)"

definition log_writes :: "(u32 \<Rightarrow> bytes) \<Rightarrow> int \<Rightarrow> u32 list \<Rightarrow> nat \<Rightarrow> (u32 \<times> bytes) list" where
  "log_writes c st bl n = map (\<lambda>i. (lblk st (Suc i), c (bl ! i))) [0..<n]"

definition home_writes :: "(u32 \<Rightarrow> bytes) \<Rightarrow> int \<Rightarrow> u32 list \<Rightarrow> nat \<Rightarrow> (u32 \<times> bytes) list" where
  "home_writes c st bl n = map (\<lambda>i. (bl ! i, c (lblk st (Suc i)))) [0..<n]"

lemma writes_Suc [simp]:
  "log_writes c st bl (Suc n) = log_writes c st bl n @ [(lblk st (Suc n), c (bl ! n))]"
  "home_writes c st bl (Suc n) = home_writes c st bl n @ [(bl ! n, c (lblk st (Suc n)))]"
  by (simp_all add: log_writes_def home_writes_def)

lemma write_log_ok:
  assumes ok: "bio_ok s" and g: "log_geom s" and l: "lockedb s = (\<lambda>_. False)" and p: "pinned s"
  shows "\<exists>t. write_log s = Ok () t \<and> effect (log_writes (cont s) (lstart s) (lblock s) (nat (ln s))) (refs s) s t"
proof -
  let ?W = "\<lambda>k. log_writes (cont s) (lstart s) (lblock s) k"
  let ?n = "nat (ln s)"
  have "holds (effect (?W 0) (refs s) s) (forK [0..<?n] write_log_one) (\<lambda>_. effect (?W (length [0..<?n])) (refs s) s)"
  proof (rule holds_for)
    fix k assume "k < length [0..<?n]"
    then have k: "k < ?n" by simp
    note nth = logged_nth [OF g k]
    have "\<exists>u. write_log_one k t = Ok () u \<and> effect (?W (Suc k)) (refs s) s u" if e: "effect (?W k) (refs s) s t" for t
    proof -
      note t = effectD [OF e]
      have gt: "log_geom t" using log_geom_same [OF t(2)] g by simp
      have f: "ldev t = 1" "lstart t = lstart s" "lblock t = lblock s" "ln t = ln s"
        using t(2) g by (simp_all add: same_log_def log_geom_def)
      have c: "cont t (lblock s ! k) = cont s (lblock s ! k)"
        unfolding t(5) log_writes_def
        by (rule apply_writes_map_other) (use nth(3,4) k in auto)
      have r: "refs t (lblk (lstart s) (Suc k)) = 0" "refs t (lblock s ! k) = 1"
        using p nth(2,4) logged_not_log [OF g, of "Suc k"] unfolding t(4) pinned_def by (simp_all add: logged_def)
      have n: "inuse t < NBUF"
        by (rule inuse_logged [OF gt]) (use p t(4) f in \<open>auto simp: pinned_def logged_def split: if_splits\<close>)
      obtain u where u: "write_log_one k t = Ok () u" "step_to t u"
         "cont u = (cont t)(lblk (lstart s) (Suc k) := cont t (lblock s ! k))" "refs u = refs t" "lockedb u = (\<lambda>_. False)"
         "dsk u = (dsk t)(lblk (lstart s) (Suc k) := cont t (lblock s ! k))"
         "wtrace u = wtrace t @ [(lblk (lstart s) (Suc k), cont t (lblock s ! k))]"
        using write_log_one_ok [OF t(1) f(1) nth(1)] nth(3) [OF nth(4)] r n t(3) unfolding f by auto
      have "effect [(lblk (lstart s) (Suc k), cont s (lblock s ! k))] (refs s) t u"
        using u t(4) by (simp add: effect_def c)
      from effect_trans [OF e this] u(1) show ?thesis by auto
    qed
    then show "holds (effect (?W k) (refs s) s) (write_log_one ([0..<?n] ! k)) (\<lambda>_. effect (?W (Suc k)) (refs s) s)"
      using k by (simp add: holds_def)
  qed
  from holdsD [OF this, of s] effect_refl [OF ok l] show ?thesis
    by (auto simp: log_writes_def write_log_def K_defs)
qed

text \<open>The reference counts while the first \<open>k\<close> blocks have been installed.\<close>

definition pins_left :: "'z log_state_scheme \<Rightarrow> nat \<Rightarrow> u32 \<Rightarrow> nat" where
  "pins_left s k = (\<lambda>b. if b \<in> set (drop k (take (nat (ln s)) (lblock s))) then 1 else 0)"

lemma pins_left_step:
  assumes g: "log_geom s" and k: "k < nat (ln s)"
  shows "pins_left s k (lblock s ! k) = 1" "(pins_left s k)(lblock s ! k := 0) = pins_left s (Suc k)"
proof -
  let ?l = "take (nat (ln s)) (lblock s)"
  have len: "length ?l = nat (ln s)" "distinct ?l" using g log_geom_n [OF g] by (auto simp: log_geom_def)
  have d: "drop k ?l = lblock s ! k # drop (Suc k) ?l" using k len(1) Cons_nth_drop_Suc [of k ?l] by simp
  have "distinct (drop k ?l)" using len(2) by simp
  then have "lblock s ! k \<notin> set (drop (Suc k) ?l)" unfolding d by simp
  then show "pins_left s k (lblock s ! k) = 1" "(pins_left s k)(lblock s ! k := 0) = pins_left s (Suc k)"
    unfolding pins_left_def d by auto
qed

lemma pins_left_ends:
  "pins_left s 0 = (\<lambda>b. if b \<in> logged s then 1 else 0)" "pins_left s (nat (ln s)) = (\<lambda>_. 0)"
  by (simp_all add: pins_left_def logged_def)

lemma install_step:
  fixes s :: "'z log_state_scheme"
  defines "W \<equiv> \<lambda>k. home_writes (cont s) (lstart s) (lblock s) k"
  assumes g: "log_geom s" and k: "k < nat (ln s)" and e: "effect (W k) R s t"
    and r: "R (lblk (lstart s) (Suc k)) = 0" "R (lblock s ! k) = (if recovering then 0 else 1)"
    and n: "inuse t < NBUF" "recovering \<Longrightarrow> inuse t + 1 < NBUF"
  shows "\<exists>u. install_one recovering k t = Ok () u \<and> effect (W (Suc k)) (R(lblock s ! k := 0)) s u"
proof -
  note nth = logged_nth [OF g k]
  note t = effectD [OF e]
  have f: "ldev t = 1" "lstart t = lstart s" "lblock t = lblock s" "ln t = ln s"
    using t(2) g by (simp_all add: same_log_def log_geom_def)
  have c: "cont t (lblk (lstart s) (Suc k)) = cont s (lblk (lstart s) (Suc k))"
    unfolding t(5) W_def home_writes_def
  proof (rule apply_writes_map_other)
    fix i assume "i \<in> set [0..<k]"
    then have "i < nat (ln s)" using k by simp
    from logged_nth(3) [OF g this, of "Suc k"] nth(4) show "lblock s ! i \<noteq> lblk (lstart s) (Suc k)" by simp
  qed
  obtain u where u: "install_one recovering k t = Ok () u" "step_to t u"
     "cont u = (cont t)(lblock s ! k := cont t (lblk (lstart s) (Suc k)))" "refs u = (refs t)(lblock s ! k := 0)"
     "lockedb u = (\<lambda>_. False)" "dsk u = (dsk t)(lblock s ! k := cont t (lblk (lstart s) (Suc k)))"
     "wtrace u = wtrace t @ [(lblock s ! k, cont t (lblk (lstart s) (Suc k)))]"
    using install_one_ok [OF t(1) f(1) nth(1), of recovering] nth(1,4) nth(3) [of "Suc k"] r n t(3,4) unfolding f by auto
  have "effect [(lblock s ! k, cont s (lblk (lstart s) (Suc k)))] (R(lblock s ! k := 0)) t u"
    using u t(4) by (simp add: effect_def c)
  from effect_trans [OF e this] u(1) show ?thesis by (auto simp: W_def)
qed

lemma install_commit_ok:
  assumes ok: "bio_ok s" and g: "log_geom s" and l: "lockedb s = (\<lambda>_. False)" and p: "pinned s"
  shows "\<exists>t. install_trans False s = Ok () t
     \<and> effect (home_writes (cont s) (lstart s) (lblock s) (nat (ln s))) (\<lambda>_. 0) s t"
proof -
  let ?W = "\<lambda>k. home_writes (cont s) (lstart s) (lblock s) k"
  let ?n = "nat (ln s)"
  have "holds (effect (?W 0) (pins_left s 0) s) (forK [0..<?n] (install_one False))
      (\<lambda>_. effect (?W (length [0..<?n])) (pins_left s (length [0..<?n])) s)"
  proof (rule holds_for)
    fix k assume "k < length [0..<?n]"
    then have k: "k < ?n" by simp
    have "\<exists>u. install_one False k t = Ok () u \<and> effect (?W (Suc k)) (pins_left s (Suc k)) s u"
      if e: "effect (?W k) (pins_left s k) s t" for t
    proof -
      note t = effectD [OF e]
      have gt: "log_geom t" using log_geom_same [OF t(2)] g by simp
      have n: "inuse t < NBUF"
        by (rule inuse_logged [OF gt])
          (use t(2,4) set_drop_subset in \<open>fastforce simp: pins_left_def same_log_def split: if_splits\<close>)
      have "lblk (lstart s) (Suc k) \<notin> logged s" using logged_not_log [OF g] logged_nth(4) [OF g k] by simp
      then have "pins_left s k (lblk (lstart s) (Suc k)) = 0"
        using set_drop_subset by (fastforce simp: pins_left_def logged_def)
      from install_step [OF g k e this, of False] pins_left_step [OF g k] n show ?thesis by simp
    qed
    then show "holds (effect (?W k) (pins_left s k) s) (install_one False ([0..<?n] ! k))
        (\<lambda>_. effect (?W (Suc k)) (pins_left s (Suc k)) s)"
      using k by (simp add: holds_def)
  qed
  moreover have "effect (?W 0) (pins_left s 0) s s"
    using effect_refl [OF ok l] p by (simp add: home_writes_def pinned_def pins_left_ends)
  ultimately show ?thesis using holdsD by (fastforce simp: install_trans_def K_defs pins_left_ends)
qed

lemma install_recover_ok:
  assumes ok: "bio_ok s" and g: "log_geom s" and l: "lockedb s = (\<lambda>_. False)" and p: "refs s = (\<lambda>_. 0)"
  shows "\<exists>t. install_trans True s = Ok () t
     \<and> effect (home_writes (cont s) (lstart s) (lblock s) (nat (ln s))) (\<lambda>_. 0) s t"
proof -
  let ?W = "\<lambda>k. home_writes (cont s) (lstart s) (lblock s) k"
  let ?n = "nat (ln s)"
  have "holds (effect (?W 0) (\<lambda>_. 0) s) (forK [0..<?n] (install_one True)) (\<lambda>_. effect (?W (length [0..<?n])) (\<lambda>_. 0) s)"
  proof (rule holds_for)
    fix k assume "k < length [0..<?n]"
    then have k: "k < ?n" by simp
    have "\<exists>u. install_one True k t = Ok () u \<and> effect (?W (Suc k)) (\<lambda>_. 0) s u" if e: "effect (?W k) (\<lambda>_. 0) s t" for t
    proof -
      have "inuse t = 0" using effectD(4) [OF e] by (simp add: inuse_def)
      with install_step [OF g k e, of True] show ?thesis by (simp add: fun_upd_idem)
    qed
    then show "holds (effect (?W k) (\<lambda>_. 0) s) (install_one True ([0..<?n] ! k)) (\<lambda>_. effect (?W (Suc k)) (\<lambda>_. 0) s)"
      using k by (simp add: holds_def)
  qed
  moreover have "effect (?W 0) (\<lambda>_. 0) s s" using effect_refl [OF ok l] p by (simp add: home_writes_def)
  ultimately show ?thesis using holdsD by (fastforce simp: install_trans_def K_defs)
qed

section \<open>The header block\<close>

definition enc_head :: "nat \<Rightarrow> u32 list \<Rightarrow> bytes \<Rightarrow> bytes" where
  "enc_head n bl d = fold (\<lambda>i d. put32 d (4 + 4 * i) (bl ! i)) [0..<n] (put32 d 0 (of_nat n))"

lemma enc_head_Suc: "put32 (fold (\<lambda>i d. put32 d (4 + 4 * i) (bl ! i)) [0..<n] d) (4 + 4 * n) (bl ! n)
    = fold (\<lambda>i d. put32 d (4 + 4 * i) (bl ! i)) [0..<Suc n] d"
  by simp

lemma enc_head_fields:
  assumes "length d = BSIZE" "n \<le> LOGSIZE"
  shows "length (enc_head n bl d) = BSIZE" "get32 (enc_head n bl d) 0 = of_nat n"
    "i < n \<Longrightarrow> get32 (enc_head n bl d) (4 + 4 * i) = bl ! i"
proof -
  let ?f = "\<lambda>k. fold (\<lambda>i d. put32 d (4 + 4 * i) (bl ! i)) [0..<k] (put32 d 0 (of_nat n))"
  have step: "length (?f k) = BSIZE \<and> get32 (?f k) 0 = of_nat n \<and> (\<forall>i<k. get32 (?f k) (4 + 4 * i) = bl ! i)"
    if "k \<le> LOGSIZE" for k
    using that
  proof (induction k)
    case 0
    then show ?case using assms(1) by simp
  next
    case (Suc k)
    then have IH: "length (?f k) = BSIZE" "get32 (?f k) 0 = of_nat n" "\<forall>i<k. get32 (?f k) (4 + 4 * i) = bl ! i" by auto
    have k: "4 + 4 * k + 4 \<le> length (?f k)" using Suc.prems IH(1) by simp
    have "get32 (put32 (?f k) (4 + 4 * k) (bl ! k)) (4 + 4 * i) = bl ! i" if "i < Suc k" for i
    proof (cases "i = k")
      case True
      then show ?thesis using k by simp
    next
      case False
      then have "get32 (put32 (?f k) (4 + 4 * k) (bl ! k)) (4 + 4 * i) = get32 (?f k) (4 + 4 * i)"
        using that k by (intro get32_put32_other) auto
      then show ?thesis using IH(3) that False by simp
    qed
    moreover have "get32 (put32 (?f k) (4 + 4 * k) (bl ! k)) 0 = get32 (?f k) 0"
      using k by (intro get32_put32_other) auto
    ultimately show ?case using IH k unfolding enc_head_Suc [symmetric] by simp
  qed
  show "length (enc_head n bl d) = BSIZE" "get32 (enc_head n bl d) 0 = of_nat n"
    "i < n \<Longrightarrow> get32 (enc_head n bl d) (4 + 4 * i) = bl ! i"
    using step [OF assms(2)] by (simp_all add: enc_head_def)
qed

lemma fill_head:
  fixes s :: "'z log_state_scheme"
  assumes "nat (ln s) \<le> LOGSIZE" "0 \<le> ln s"
  shows "thenK (upd_buf b (\<lambda>k. k\<lparr>data := put32 (data k) 0 (word_of_int (ln s))\<rparr>))
      (forK [0..<nat (ln s)] (\<lambda>i. bindK (log_block i) (\<lambda>v. upd_buf b (\<lambda>k. k\<lparr>data := put32 (data k) (4 + 4 * i) v\<rparr>)))) s
    = set_data b (enc_head (nat (ln s)) (lblock s) (data (bufs s b))) s"
proof -
  define e where "e k = fold (\<lambda>i d. put32 d (4 + 4 * i) (lblock s ! i)) [0..<k] (put32 (data (bufs s b)) 0 (of_nat (nat (ln s))))" for k
  define S where "S k = s\<lparr>bufs := (bufs s)(b := (bufs s b)\<lparr>data := e k\<rparr>)\<rparr>" for k
  have "forK [0..<nat (ln s)] (\<lambda>i. bindK (log_block i) (\<lambda>v. upd_buf b (\<lambda>k. k\<lparr>data := put32 (data k) (4 + 4 * i) v\<rparr>))) (S 0)
      = Ok () (S (nat (ln s)))"
  proof (rule forK_upt)
    fix i assume "i < nat (ln s)"
    then have "log_block i (S i) = Ok (lblock s ! i) (S i)" using assms by (simp add: log_block_Ok S_def)
    then show "bindK (log_block i) (\<lambda>v. upd_buf b (\<lambda>k. k\<lparr>data := put32 (data k) (4 + 4 * i) v\<rparr>)) (S i) = Ok () (S (Suc i))"
      by (simp add: bindK_def upd_buf_def modifyK_def) (simp add: S_def e_def)
  qed
  then show ?thesis
    using assms(2) by (simp add: thenK_def bindK_def upd_buf_def modifyK_def set_data_def S_def e_def enc_head_def of_nat_nat)
qed

lemma write_head_ok:
  fixes s :: "'z log_state_scheme"
  defines "a \<equiv> lblk (lstart s) 0"
  assumes ok: "bio_ok s" and dev: "ldev s = 1" and l: "lockedb s = (\<lambda>_. False)" and r: "refs s a = 0"
    and n: "inuse s < NBUF" "0 \<le> ln s" "nat (ln s) \<le> LOGSIZE"
  shows "\<exists>t. write_head s = Ok () t \<and> effect [(a, enc_head (nat (ln s)) (lblock s) (cont s a))] (refs s) s t"
proof -
  have a': "word_of_int (lstart s) = a" by (simp add: a_def lblk_def)
  obtain i t where t: "bread_log (lstart s) s = Ok i t" "bstep i s t" "caches t i a" "mine t i" "cont t = cont s"
     "refs t = (refs s)(a := 1)" "lockedb t = (lockedb s)(a := True)" "dsk t = dsk s" "wtrace t = wtrace s"
    using bread_log_ok [OF ok dev, of "lstart s"] l r n(1) unfolding a' by auto
  note t' = bstepD [OF t(2)]
  have lg: "ln t = ln s" "lblock t = lblock s" using bframe_log [OF t'(2)] by (simp_all add: same_log_def)
  define e where "e = enc_head (nat (ln s)) (lblock s) (cont s a)"
  have dt: "data (bufs t i) = cont s a" using caches_data [OF t'(1) t(3)] t(5) by simp
  have len: "length e = BSIZE"
    using enc_head_fields(1) [OF _ n(3)] mine_buf(4) [OF t'(1) t(3,4)] by (simp add: e_def dt)
  obtain u where u: "set_data i e t = Ok () u" "bstep i t u" "mine u i" "caches u i a" "cont u = (cont t)(a := e)"
     "refs u = refs t" "lockedb u = lockedb t" "dsk u = dsk t" "wtrace u = wtrace t"
    using set_data_ok [OF t'(1) t(3,4) len] by blast
  note u' = bstepD [OF u(2)]
  obtain v where v: "bwrite i u = Ok () v" "bstep i u v" "mine v i" "caches v i a" "cont v = cont u" "refs v = refs u"
     "lockedb v = lockedb u" "dsk v = (dsk u)(a := cont u a)" "wtrace v = wtrace u @ [(a, cont u a)]"
    using bwrite_ok [OF u'(1) u(4,3)] by blast
  note v' = bstepD [OF v(2)]
  have "cont v a = dsk v a" using v(5,8) by simp
  then obtain w where w: "brelse i v = Ok () w" "bstep i v w" "cont w = cont v" "refs w = (refs v)(a := refs v a - 1)"
     "lockedb w = (lockedb v)(a := False)" "dsk w = dsk v" "wtrace w = wtrace v"
    using brelse_ok [OF v'(1) v(4,3)] by blast
  note w' = bstepD [OF w(2)]
  have "write_head s = Ok () w"
  proof -
    have "thenK (upd_buf i (\<lambda>k. k\<lparr>data := put32 (data k) 0 (word_of_int (ln s))\<rparr>))
        (forK [0..<nat (ln s)] (\<lambda>j. bindK (log_block j) (\<lambda>v. upd_buf i (\<lambda>k. k\<lparr>data := put32 (data k) (4 + 4 * j) v\<rparr>)))) t
      = Ok () u"
      using fill_head [of t i] u(1) n lg dt by (simp add: e_def)
    from thenK_thenK_Ok [OF this, of "thenK (bwrite i) (brelse i)"] show ?thesis
      using v(1) w(1) by (simp add: write_head_def run_simps bindK_Ok [of "bread_log (lstart s)", OF t(1)] lg
          thenK_def [of "bwrite i"] bindK_def [of "bwrite i"])
  qed
  moreover have "step_to s w"
    using w'(1) bframe_trans [OF bframe_trans [OF t'(2) u'(2)] bframe_trans [OF v'(2) w'(2)]] by (simp add: step_to_def)
  moreover have "refs w = refs s" using w(4) v(6) u(6) t(6) r by (auto simp: fun_eq_iff)
  moreover have "lockedb w = (\<lambda>_. False)" using w(5) v(7) u(7) t(7) l by (auto simp: fun_eq_iff)
  ultimately show ?thesis
    using w(3,6,7) v(5,8,9) u(5,8,9) t(5,8,9) by (simp add: effect_def e_def)
qed

lemma load_blocks:
  fixes s :: "'z log_state_scheme"
  assumes "n \<le> LOGSIZE" "length (lblock s) = LOGSIZE"
  shows "\<exists>l. forK [0..<n] (\<lambda>i. seqK [ub_if (LOGSIZE \<le> i), modifyK (\<lambda>s. s\<lparr>lblock := (lblock s)[i := g i]\<rparr>)]) s
      = Ok () (s\<lparr>lblock := l\<rparr>) \<and> length l = LOGSIZE \<and> (\<forall>i<n. l ! i = g i)"
proof -
  define l where "l k = fold (\<lambda>i l. l[i := g i]) [0..<k] (lblock s)" for k
  have "forK [0..<n] (\<lambda>i. seqK [ub_if (LOGSIZE \<le> i), modifyK (\<lambda>s. s\<lparr>lblock := (lblock s)[i := g i]\<rparr>)]) (s\<lparr>lblock := l 0\<rparr>)
      = Ok () (s\<lparr>lblock := l n\<rparr>)"
    by (rule forK_upt) (use assms(1) in \<open>simp add: ub_if_def run_simps l_def modifyK_def\<close>)
  moreover have "length (l k) = LOGSIZE \<and> (\<forall>i<k. l k ! i = g i)" if "k \<le> LOGSIZE" for k
    using that by (induction k) (auto simp: l_def assms(2) nth_list_update less_Suc_eq)
  ultimately show ?thesis using assms(1) by (auto simp: l_def)
qed

lemma read_head_ok:
  fixes s :: "'z log_state_scheme"
  defines "d \<equiv> cont s (lblk (lstart s) 0)"
  defines "n \<equiv> sint (get32 d 0)"
  assumes ok: "bio_ok s" and dev: "ldev s = 1" and l: "lockedb s = (\<lambda>_. False)" and r: "refs s = (\<lambda>_. 0)"
    and n: "0 \<le> n" "n \<le> LOGSIZE" and len: "length (lblock s) = LOGSIZE"
  shows "\<exists>u. read_head s = Ok () u \<and> bio_ok u \<and> lockedb u = (\<lambda>_. False) \<and> refs u = (\<lambda>_. 0) \<and> cont u = cont s \<and> dsk u = dsk s
     \<and> wtrace u = wtrace s \<and> lstart u = lstart s \<and> lsize u = lsize s \<and> ldev u = 1 \<and> outstanding u = outstanding s
     \<and> committing u = committing s \<and> ln u = n
     \<and> length (lblock u) = LOGSIZE \<and> (\<forall>i<nat n. lblock u ! i = get32 d (4 + 4 * i))"
proof -
  define a where "a = lblk (lstart s) 0"
  have a': "word_of_int (lstart s) = a" by (simp add: a_def lblk_def)
  have "inuse s < NBUF" by (simp add: inuse_def r)
  then obtain i t where t: "bread_log (lstart s) s = Ok i t" "bstep i s t" "caches t i a" "mine t i" "cont t = cont s"
     "refs t = (refs s)(a := 1)" "lockedb t = (lockedb s)(a := True)" "dsk t = dsk s" "wtrace t = wtrace s"
    using bread_log_ok [OF ok dev, of "lstart s"] l r unfolding a' by auto
  note t' = bstepD [OF t(2)]
  have lg: "same_log s t" by (rule bframe_log [OF t'(2)])
  have dt: "data (bufs t i) = d" using caches_data [OF t'(1) t(3)] t(5) by (simp add: d_def a_def)
  have "nat n \<le> LOGSIZE" using n by simp
  moreover have "length (lblock (t\<lparr>ln := n\<rparr>)) = LOGSIZE" using len lg by (simp add: same_log_def)
  ultimately obtain l' where l': "forK [0..<nat n] (\<lambda>i. seqK [ub_if (LOGSIZE \<le> i),
        modifyK (\<lambda>s. s\<lparr>lblock := (lblock s)[i := get32 d (4 + 4 * i)]\<rparr>)]) (t\<lparr>ln := n\<rparr>) = Ok () (t\<lparr>ln := n, lblock := l'\<rparr>)"
     "length l' = LOGSIZE" "\<forall>i<nat n. l' ! i = get32 d (4 + 4 * i)"
    using load_blocks [of "nat n" "t\<lparr>ln := n\<rparr>" "\<lambda>i. get32 d (4 + 4 * i)"] by blast
  define v where "v = t\<lparr>ln := n, lblock := l'\<rparr>"
  have "same_bio t v" by (simp add: v_def same_bio_def)
  note sv = same_bio_view [OF this]
  have "cont v a = dsk v a" using clean_unref [OF ok, of a] r sv(2) t(5,8) by (simp add: v_def)
  then obtain w where w: "brelse i v = Ok () w" "bstep i v w" "cont w = cont v" "refs w = (refs v)(a := refs v a - 1)"
     "lockedb w = (lockedb v)(a := False)" "dsk w = dsk v" "wtrace w = wtrace v"
    using brelse_ok [of v i a] sv t'(1) t(3,4) by blast
  have lw: "same_log v w" by (rule bframe_log [OF bstepD(2) [OF w(2)]])
  have "read_head s = Ok () w"
  proof -
    define loop :: "('z log_state_scheme, unit) K" where "loop = forK [0..<nat n] (\<lambda>i. seqK [ub_if (LOGSIZE \<le> i),
        modifyK (\<lambda>s. s\<lparr>lblock := (lblock s)[i := get32 d (4 + 4 * i)]\<rparr>)])"
    have "read_head s = thenK loop (brelse i) (t\<lparr>ln := n\<rparr>)"
      by (simp add: read_head_def run_simps bindK_Ok [of "bread_log (lstart s)", OF t(1)] get_buf_def dt n_def [symmetric] loop_def)
    moreover have "loop (t\<lparr>ln := n\<rparr>) = Ok () v" using l'(1) by (simp add: v_def loop_def)
    ultimately show ?thesis using w(1) by (simp add: thenK_def bindK_def)
  qed
  moreover have "refs w = (\<lambda>_. 0)" using w(4) sv(3) t(6) r by (auto simp: fun_eq_iff)
  moreover have "lockedb w = (\<lambda>_. False)" using w(5) sv(4) t(7) l by (auto simp: fun_eq_iff)
  moreover have "bio_ok w" by (rule bstepD(1) [OF w(2)])
  ultimately show ?thesis
    using w(3,6,7) sv(2) t(5,8,9) lg lw l'(2,3) dev by (simp add: same_log_def v_def)
qed

end
