(* ===== verification/LogCrash.thy ===== *)
theory LogCrash
  imports LogCommit
begin

text \<open>
  Crash recovery.  A crash leaves the disk as some prefix of the writes that were issued made
  it; the machine then reboots with an empty cache and runs \<open>binit\<close> and \<open>initlog\<close>.  \<open>replay\<close> is
  the contents of the file system that a disk stands for.  \<open>commit\<close> moves the disk from the
  old to the new contents in one step of this view, and recovery, even one that is itself
  interrupted, does not change it.
\<close>

section \<open>The contents a disk stands for\<close>

definition hdr_n :: "int \<Rightarrow> (u32 \<Rightarrow> bytes) \<Rightarrow> nat" where
  "hdr_n st d = nat (sint (get32 (d (lblk st 0)) 0))"

definition hdr_blk :: "int \<Rightarrow> (u32 \<Rightarrow> bytes) \<Rightarrow> nat \<Rightarrow> u32" where
  "hdr_blk st d i = get32 (d (lblk st 0)) (4 + 4 * i)"

text \<open>A block outside the log.\<close>

definition home :: "int \<Rightarrow> u32 \<Rightarrow> bool" where
  "home st b \<longleftrightarrow> (\<forall>k<LOGSIZE. b \<noteq> lblk st k)"

definition hdr_ok :: "int \<Rightarrow> (u32 \<Rightarrow> bytes) \<Rightarrow> bool" where
  "hdr_ok st d \<longleftrightarrow> 0 \<le> sint (get32 (d (lblk st 0)) 0) \<and> sint (get32 (d (lblk st 0)) 0) < LOGSIZE
     \<and> distinct (map (hdr_blk st d) [0..<hdr_n st d]) \<and> (\<forall>i<hdr_n st d. home st (hdr_blk st d i))"

definition replay :: "int \<Rightarrow> (u32 \<Rightarrow> bytes) \<Rightarrow> u32 \<Rightarrow> bytes" where
  "replay st d = apply_writes (map (\<lambda>i. (hdr_blk st d i, d (lblk st (Suc i)))) [0..<hdr_n st d]) d"

lemma replay_logged:
  assumes "hdr_ok st d" "i < hdr_n st d" shows "replay st d (hdr_blk st d i) = d (lblk st (Suc i))"
  unfolding replay_def by (rule apply_writes_map) (use assms in \<open>auto simp: hdr_ok_def\<close>)

lemma replay_other: "(\<And>i. i < hdr_n st d \<Longrightarrow> hdr_blk st d i \<noteq> b) \<Longrightarrow> replay st d b = d b"
  unfolding replay_def by (rule apply_writes_map_other) simp

lemma replay_empty: "hdr_n st d = 0 \<Longrightarrow> replay st d = d"
  by (simp add: replay_def)

text \<open>The log lies on the disk without wrapping around.\<close>

definition st_ok :: "int \<Rightarrow> bool" where
  "st_ok st \<longleftrightarrow> 0 \<le> st \<and> st + LOGSIZE < 2 ^ 31"

lemma lblk_eq [simp]:
  "st_ok st \<Longrightarrow> j \<le> LOGSIZE \<Longrightarrow> k \<le> LOGSIZE \<Longrightarrow> lblk st j = lblk st k \<longleftrightarrow> j = k"
  by (rule lblk_inject) (auto simp: st_ok_def)

lemma home_lblk: "home st b \<Longrightarrow> k < LOGSIZE \<Longrightarrow> b \<noteq> lblk st k"
  by (simp add: home_def)

lemma sint_of_small: "n \<le> LOGSIZE \<Longrightarrow> sint (of_nat n :: u32) = int n"
  by (simp add: sint_uint signed_take_bit_int_eq_self unat_of_nat uint_nat take_bit_nat_eq_self)

lemma hdr_enc:
  assumes "d (lblk st 0) = enc_head n bl h" "length h = BSIZE" "n \<le> LOGSIZE"
  shows "hdr_n st d = n" "i < n \<Longrightarrow> hdr_blk st d i = bl ! i" "sint (get32 (d (lblk st 0)) 0) = int n"
  using enc_head_fields [OF assms(2,3)] sint_of_small [OF assms(3)]
  by (simp_all add: hdr_n_def hdr_blk_def assms(1))

section \<open>Crashes during commit\<close>

text \<open>
  The writes of a commit of the blocks \<open>bl\<close> with contents \<open>c\<close>: the log blocks, the header, the
  home locations, and the empty header.
\<close>

definition home_final :: "(u32 \<Rightarrow> bytes) \<Rightarrow> u32 list \<Rightarrow> nat \<Rightarrow> (u32 \<times> bytes) list" where
  "home_final c bl n = map (\<lambda>i. (bl ! i, c (bl ! i))) [0..<n]"

definition commit_writes :: "(u32 \<Rightarrow> bytes) \<Rightarrow> int \<Rightarrow> u32 list \<Rightarrow> nat \<Rightarrow> bytes \<Rightarrow> (u32 \<times> bytes) list" where
  "commit_writes c st bl n h = log_writes c st bl n @ [(lblk st 0, enc_head n bl h)]
     @ home_final c bl n @ [(lblk st 0, enc_head 0 bl (enc_head n bl h))]"

definition transaction :: "int \<Rightarrow> u32 list \<Rightarrow> nat \<Rightarrow> (u32 \<Rightarrow> bytes) \<Rightarrow> (u32 \<Rightarrow> bytes) \<Rightarrow> bool" where
  "transaction st bl n c d0 \<longleftrightarrow> st_ok st \<and> n < LOGSIZE \<and> length (d0 (lblk st 0)) = BSIZE
     \<and> distinct (map ((!) bl) [0..<n]) \<and> (\<forall>i<n. home st (bl ! i))
     \<and> (\<forall>b. b \<notin> (!) bl ` {..<n} \<longrightarrow> home st b \<longrightarrow> c b = d0 b)
     \<and> hdr_n st d0 = 0 \<and> 0 \<le> sint (get32 (d0 (lblk st 0)) 0)"

lemma transactionD:
  assumes "transaction st bl n c d0"
  shows "st_ok st" "n < LOGSIZE" "length (d0 (lblk st 0)) = BSIZE" "distinct (map ((!) bl) [0..<n])"
    "i < n \<Longrightarrow> home st (bl ! i)" "b \<notin> (!) bl ` {..<n} \<Longrightarrow> home st b \<Longrightarrow> c b = d0 b"
    "hdr_n st d0 = 0" "0 \<le> sint (get32 (d0 (lblk st 0)) 0)"
  using assms unfolding transaction_def by blast+

lemma log_prefix:
  assumes T: "transaction st bl n c d0" and k: "k \<le> n"
  shows "apply_writes (log_writes c st bl k) d (lblk st 0) = d (lblk st 0)"
    "home st b \<Longrightarrow> apply_writes (log_writes c st bl k) d b = d b"
    "i < k \<Longrightarrow> apply_writes (log_writes c st bl k) d (lblk st (Suc i)) = c (bl ! i)"
proof -
  note st = transactionD(1) [OF T] and n = transactionD(2) [OF T] and len = transactionD(3) [OF T]
    and dist = transactionD(4) [OF T] and away = transactionD(5) [OF T] and clean = transactionD(6) [OF T]
    and empty = transactionD(7,8) [OF T]
  show "apply_writes (log_writes c st bl k) d (lblk st 0) = d (lblk st 0)"
    unfolding log_writes_def by (rule apply_writes_map_other) (use st n k in auto)
  show "apply_writes (log_writes c st bl k) d b = d b" if "home st b"
    unfolding log_writes_def
  proof (rule apply_writes_map_other)
    fix i assume "i \<in> set [0..<k]"
    then show "lblk st (Suc i) \<noteq> b" using n k home_lblk [OF that, of "Suc i"] by auto
  qed
  assume i: "i < k"
  have "inj_on (\<lambda>i. lblk st (Suc i)) {0..<k}" using st n k by (auto simp: inj_on_def)
  then have "distinct (map (\<lambda>i. lblk st (Suc i)) [0..<k])" by (simp add: distinct_map)
  from apply_writes_map [OF this, of i "\<lambda>i. c (bl ! i)"] i
  show "apply_writes (log_writes c st bl k) d (lblk st (Suc i)) = c (bl ! i)" by (simp add: log_writes_def)
qed

lemma home_prefix:
  assumes T: "transaction st bl n c d0" and k: "k \<le> n"
  shows "j < LOGSIZE \<Longrightarrow> apply_writes (home_final c bl k) d (lblk st j) = d (lblk st j)"
    "b \<notin> (!) bl ` {..<k} \<Longrightarrow> apply_writes (home_final c bl k) d b = d b"
    "i < k \<Longrightarrow> apply_writes (home_final c bl k) d (bl ! i) = c (bl ! i)"
proof -
  note st = transactionD(1) [OF T] and n = transactionD(2) [OF T] and len = transactionD(3) [OF T]
    and dist = transactionD(4) [OF T] and away = transactionD(5) [OF T] and clean = transactionD(6) [OF T]
    and empty = transactionD(7,8) [OF T]
  show "j < LOGSIZE \<Longrightarrow> apply_writes (home_final c bl k) d (lblk st j) = d (lblk st j)"
    unfolding home_final_def
    by (rule apply_writes_map_other) (use away k home_lblk in \<open>metis atLeastLessThan_iff order_less_le_trans set_upt\<close>)
  show "b \<notin> (!) bl ` {..<k} \<Longrightarrow> apply_writes (home_final c bl k) d b = d b"
    unfolding home_final_def by (rule apply_writes_map_other) auto
  assume i: "i < k"
  have "distinct (map ((!) bl) [0..<k])"
    using dist k by (auto simp: distinct_map inj_on_def)
  from apply_writes_map [OF this, of i "\<lambda>i. c (bl ! i)"] i
  show "apply_writes (home_final c bl k) d (bl ! i) = c (bl ! i)" by (simp add: home_final_def)
qed

lemma take_log: "k \<le> n \<Longrightarrow> take k (log_writes c st bl n) = log_writes c st bl k"
  by (simp add: log_writes_def take_map)

lemma take_home: "k \<le> n \<Longrightarrow> take k (home_final c bl n) = home_final c bl k"
  by (simp add: home_final_def take_map)

lemma length_writes [simp]: "length (log_writes c st bl n) = n" "length (home_final c bl n) = n"
  by (simp_all add: log_writes_def home_final_def)

text \<open>Before the header is written the disk stands for the old contents.\<close>

lemma crash_early:
  assumes T: "transaction st bl n c d0" and k: "k \<le> n"
  defines "d \<equiv> apply_writes (take k (commit_writes c st bl n (d0 (lblk st 0)))) d0"
  shows "hdr_ok st d" "home st b \<Longrightarrow> replay st d b = d0 b"
proof -
  note st = transactionD(1) [OF T] and n = transactionD(2) [OF T] and len = transactionD(3) [OF T]
    and dist = transactionD(4) [OF T] and away = transactionD(5) [OF T] and clean = transactionD(6) [OF T]
    and empty = transactionD(7,8) [OF T]
  have d: "d = apply_writes (log_writes c st bl k) d0"
    using k by (simp add: d_def commit_writes_def take_log)
  have hd: "d (lblk st 0) = d0 (lblk st 0)" unfolding d by (rule log_prefix(1) [OF T k])
  then have z: "hdr_n st d = 0" using empty(1) by (simp add: hdr_n_def)
  then show "hdr_ok st d" using empty hd by (simp add: hdr_ok_def hdr_n_def)
  show "home st b \<Longrightarrow> replay st d b = d0 b" unfolding replay_empty [OF z] unfolding d by (rule log_prefix(2) [OF T k])
qed

text \<open>Once the header is on disk the disk stands for the new contents.\<close>

lemma crash_middle:
  assumes T: "transaction st bl n c d0" and k: "j \<le> n"
  defines "d \<equiv> apply_writes (home_final c bl j) (apply_writes (log_writes c st bl n @ [(lblk st 0, enc_head n bl (d0 (lblk st 0)))]) d0)"
  shows "hdr_ok st d" "home st b \<Longrightarrow> replay st d b = c b"
proof -
  note st = transactionD(1) [OF T] and n = transactionD(2) [OF T] and len = transactionD(3) [OF T]
    and dist = transactionD(4) [OF T] and away = transactionD(5) [OF T] and clean = transactionD(6) [OF T]
    and empty = transactionD(7,8) [OF T]
  let ?e = "apply_writes (log_writes c st bl n @ [(lblk st 0, enc_head n bl (d0 (lblk st 0)))]) d0"
  have hd: "d (lblk st 0) = enc_head n bl (d0 (lblk st 0))" using home_prefix(1) [OF T k, of 0] by (simp add: d_def)
  note enc = hdr_enc [of d st, OF hd len less_imp_le [OF n]]
  have lg: "d (lblk st (Suc i)) = c (bl ! i)" if "i < n" for i
  proof -
    have "d (lblk st (Suc i)) = ?e (lblk st (Suc i))" using home_prefix(1) [OF T k, of "Suc i"] that n by (simp add: d_def)
    then show ?thesis using log_prefix(3) [OF T order_refl that] st n that by simp
  qed
  have map: "map (hdr_blk st d) [0..<n] = map ((!) bl) [0..<n]" using enc(2) by simp
  show ok: "hdr_ok st d" using enc n dist away by (simp add: hdr_ok_def map)
  assume b: "home st b"
  show "replay st d b = c b"
  proof (cases "b \<in> (!) bl ` {..<n}")
    case True
    then obtain i where "i < n" "b = bl ! i" by auto
    then show ?thesis using replay_logged [OF ok, of i] enc lg by simp
  next
    case False
    then have "replay st d b = d b" using enc by (intro replay_other) auto
    also have "d b = ?e b" unfolding d_def by (rule home_prefix(2) [OF T k]) (use False k in auto)
    also have "\<dots> = c b" using b home_lblk [OF b, of 0] log_prefix(2) [OF T order_refl b] clean [OF False b] by simp
    finally show ?thesis .
  qed
qed

lemma crash_late:
  assumes T: "transaction st bl n c d0"
  defines "d \<equiv> apply_writes (commit_writes c st bl n (d0 (lblk st 0))) d0"
  shows "hdr_ok st d" "home st b \<Longrightarrow> replay st d b = c b" "home st b \<Longrightarrow> d b = c b"
proof -
  note st = transactionD(1) [OF T] and n = transactionD(2) [OF T] and len = transactionD(3) [OF T]
    and dist = transactionD(4) [OF T] and away = transactionD(5) [OF T] and clean = transactionD(6) [OF T]
    and empty = transactionD(7,8) [OF T]
  have "length (enc_head n bl (d0 (lblk st 0))) = BSIZE" using enc_head_fields(1) [OF len] n by simp
  moreover have "d (lblk st 0) = enc_head 0 bl (enc_head n bl (d0 (lblk st 0)))" by (simp add: d_def commit_writes_def)
  ultimately have z: "hdr_n st d = 0" "sint (get32 (d (lblk st 0)) 0) = 0"
    using hdr_enc [of d st 0 bl "enc_head n bl (d0 (lblk st 0))"] by simp_all
  then show "hdr_ok st d" by (simp add: hdr_ok_def)
  show b: "d b = c b" if "home st b" for b
  proof (cases "b \<in> (!) bl ` {..<n}")
    case True
    then obtain i where i: "i < n" "b = bl ! i" by auto
    then show ?thesis using home_prefix(3) [OF T order_refl i(1)] home_lblk [OF that, of 0] by (simp add: d_def commit_writes_def)
  next
    case False
    then show ?thesis
      using home_prefix(2) [OF T order_refl False] log_prefix(2) [OF T order_refl that] clean [OF False that] home_lblk [OF that, of 0]
      by (simp add: d_def commit_writes_def)
  qed
  then show "home st b \<Longrightarrow> replay st d b = c b" by (simp add: replay_empty [OF z(1)])
qed

lemma crash_commit:
  fixes k :: nat
  assumes T: "transaction st bl n c d0"
  defines "d \<equiv> apply_writes (take k (commit_writes c st bl n (d0 (lblk st 0)))) d0"
  shows "hdr_ok st d" "home st b \<Longrightarrow> replay st d b = (if k \<le> n then d0 b else c b)"
proof -
  consider "k \<le> n" | j where "k = Suc n + j" "j \<le> n" | "2 * n + 2 \<le> k"
    by (metis add_Suc le_add_diff_inverse linorder_le_cases mult_2 not_less_eq_eq nat_add_left_cancel_le add_2_eq_Suc')
  then have "hdr_ok st d \<and> (home st b \<longrightarrow> replay st d b = (if k \<le> n then d0 b else c b))"
  proof cases
    case 1
    then show ?thesis using crash_early [OF T 1] by (simp add: d_def)
  next
    case (2 j)
    then have "d = apply_writes (home_final c bl j) (apply_writes (log_writes c st bl n @ [(lblk st 0, enc_head n bl (d0 (lblk st 0)))]) d0)"
      by (simp add: d_def commit_writes_def take_home)
    then show ?thesis using crash_middle [OF T 2(2)] 2(1) by simp
  next
    case 3
    then have "d = apply_writes (commit_writes c st bl n (d0 (lblk st 0))) d0" by (simp add: d_def commit_writes_def)
    then show ?thesis using crash_late [OF T] 3 by simp
  qed
  then show "hdr_ok st d" "home st b \<Longrightarrow> replay st d b = (if k \<le> n then d0 b else c b)" by blast+
qed

section \<open>Crashes during recovery\<close>

definition recovery_writes :: "int \<Rightarrow> (u32 \<Rightarrow> bytes) \<Rightarrow> (u32 \<times> bytes) list" where
  "recovery_writes st d = map (\<lambda>i. (hdr_blk st d i, d (lblk st (Suc i)))) [0..<hdr_n st d]
     @ [(lblk st 0, put32 (d (lblk st 0)) 0 0)]"

lemma hdr_n_bound: "hdr_ok st d \<Longrightarrow> hdr_n st d < LOGSIZE"
  by (auto simp: hdr_ok_def hdr_n_def nat_less_iff)

lemma hdr_home: "hdr_ok st d \<Longrightarrow> i < hdr_n st d \<Longrightarrow> home st (hdr_blk st d i)"
  by (simp add: hdr_ok_def)

lemma replay_log:
  assumes "hdr_ok st d" "j < LOGSIZE" shows "replay st d (lblk st j) = d (lblk st j)"
  by (rule replay_other) (use hdr_home [OF assms(1)] home_lblk assms(2) in metis)

lemma hdr_clear:
  assumes "length (d (lblk st 0)) = BSIZE" "d' (lblk st 0) = put32 (d (lblk st 0)) 0 0"
  shows "hdr_n st d' = 0" "hdr_ok st d'"
proof -
  show z: "hdr_n st d' = 0" using assms by (simp add: hdr_n_def)
  show "hdr_ok st d'" using assms z by (simp add: hdr_ok_def)
qed

lemma crash_recovery:
  fixes j :: nat
  assumes ok: "hdr_ok st d" and len: "length (d (lblk st 0)) = BSIZE"
  defines "d' \<equiv> apply_writes (take j (recovery_writes st d)) d"
  shows "hdr_ok st d'" "home st b \<Longrightarrow> replay st d' b = replay st d b"
proof -
  let ?n = "hdr_n st d" and ?f = "hdr_blk st d" and ?g = "\<lambda>i. d (lblk st (Suc i))"
  have n: "?n < LOGSIZE" by (rule hdr_n_bound [OF ok])
  have "hdr_ok st d' \<and> (home st b \<longrightarrow> replay st d' b = replay st d b)"
  proof (cases "j \<le> ?n")
    case True
    then have d': "d' = apply_writes (map (\<lambda>i. (?f i, ?g i)) [0..<j]) d"
      by (simp add: d'_def recovery_writes_def take_map)
    have lg: "d' (lblk st m) = d (lblk st m)" if "m < LOGSIZE" for m
      unfolding d' by (rule apply_writes_map_other)
        (use hdr_home [OF ok] home_lblk that True in \<open>metis atLeastLessThan_iff order_less_le_trans set_upt\<close>)
    have h: "hdr_n st d' = ?n" "hdr_blk st d' = ?f" using lg [of 0] by (simp_all add: hdr_n_def hdr_blk_def fun_eq_iff)
    have ok': "hdr_ok st d'" using ok h lg [of 0] by (simp add: hdr_ok_def)
    moreover have "replay st d' b = replay st d b"
    proof (cases "\<exists>i<?n. ?f i = b")
      case True
      then obtain i where i: "i < ?n" "?f i = b" by blast
      have "replay st d' b = d' (lblk st (Suc i))" using replay_logged [OF ok', of i] h i by simp
      also have "\<dots> = replay st d b" using lg [of "Suc i"] n i replay_logged [OF ok i(1)] by simp
      finally show ?thesis .
    next
      case False
      then have "replay st d' b = d' b" using h by (intro replay_other) auto
      also have "\<dots> = d b" unfolding d' by (rule apply_writes_map_other) (use False True in auto)
      also have "\<dots> = replay st d b" using False by (intro replay_other [symmetric]) auto
      finally show ?thesis .
    qed
    ultimately show ?thesis by blast
  next
    case False
    then have d': "d' = (replay st d)(lblk st 0 := put32 (d (lblk st 0)) 0 0)"
      by (simp add: d'_def recovery_writes_def replay_def)
    note z = hdr_clear [of d st d', OF len] d'
    then have "replay st d' = d'" "hdr_ok st d'" by (simp_all add: replay_empty)
    then show ?thesis using home_lblk [of st b 0] d' by auto
  qed
  then show "hdr_ok st d'" "home st b \<Longrightarrow> replay st d' b = replay st d b" by blast+
qed

section \<open>The programs\<close>

lemma recover_ok:
  fixes s :: "'z log_state_scheme"
  defines "st \<equiv> lstart s"
  assumes ok: "bio_ok s" and dev: "ldev s = 1" and l: "lockedb s = (\<lambda>_. False)" and r: "refs s = (\<lambda>_. 0)"
    and len: "length (lblock s) = LOGSIZE" and st: "st_ok st" and h: "hdr_ok st (dsk s)"
  shows "\<exists>t. recover_from_log s = Ok () t \<and> bio_ok t \<and> lockedb t = (\<lambda>_. False) \<and> refs t = (\<lambda>_. 0) \<and> ln t = 0
     \<and> dsk t = apply_writes (recovery_writes st (dsk s)) (dsk s) \<and> wtrace t = wtrace s @ recovery_writes st (dsk s)
     \<and> lstart t = st \<and> lsize t = lsize s \<and> ldev t = 1 \<and> outstanding t = outstanding s \<and> committing t = committing s
     \<and> length (lblock t) = LOGSIZE"
proof -
  define d where "d = dsk s"
  have cd: "cont s = d" unfolding d_def using clean_unref [OF ok] r by (simp add: fun_eq_iff)
  let ?n = "hdr_n st d"
  have nb: "0 \<le> sint (get32 (d (lblk st 0)) 0)" "sint (get32 (d (lblk st 0)) 0) \<le> LOGSIZE" "?n < LOGSIZE"
    using h hdr_n_bound [OF h] by (simp_all add: hdr_ok_def d_def)
  obtain u where u: "read_head s = Ok () u" "bio_ok u" "lockedb u = (\<lambda>_. False)" "refs u = (\<lambda>_. 0)" "cont u = d" "dsk u = d"
     "wtrace u = wtrace s" "lstart u = st" "lsize u = lsize s" "ldev u = 1" "outstanding u = outstanding s"
     "committing u = committing s" "ln u = int ?n" "length (lblock u) = LOGSIZE" "\<forall>i<?n. lblock u ! i = hdr_blk st d i"
    using read_head_ok [OF ok dev l r _ _ len] nb unfolding cd st_def [symmetric]
    by (auto simp: d_def [symmetric] hdr_n_def hdr_blk_def)
  have take: "take ?n (lblock u) = map (hdr_blk st d) [0..<?n]"
    by (rule nth_equalityI) (use u(14,15) nb in auto)
  have g: "log_geom u"
    using u st nb h take unfolding log_geom_def by (auto simp: st_ok_def hdr_ok_def home_def d_def)
  have hw: "home_writes (cont u) (lstart u) (lblock u) (nat (ln u)) = map (\<lambda>i. (hdr_blk st d i, d (lblk st (Suc i)))) [0..<?n]"
    using u by (simp add: home_writes_def)
  obtain v where v: "install_trans True u = Ok () v"
     "effect (map (\<lambda>i. (hdr_blk st d i, d (lblk st (Suc i)))) [0..<?n]) (\<lambda>_. 0) u v"
    using install_recover_ok [OF u(2) g u(3,4)] unfolding hw by blast
  note v' = effectD [OF v(2)]
  have dv: "dsk v = replay st d" "cont v = replay st d" using v'(5,6) u(5,6) by (simp_all add: replay_def)
  define w where "w = v\<lparr>ln := 0\<rparr>"
  have "same_bio v w" by (simp add: w_def same_bio_def)
  note sw = same_bio_view [OF this]
  have dw: "dsk w = dsk v" "wtrace w = wtrace v" by (simp_all add: w_def)
  have lw: "lstart w = st" "ldev w = 1" "ln w = 0" "lblock w = lblock u" using v'(2) u by (simp_all add: w_def same_log_def)
  obtain x where x: "write_head w = Ok () x" "effect [(lblk st 0, enc_head 0 (lblock u) (cont w (lblk st 0)))] (refs w) w x"
    using write_head_ok [of w] sw v' lw by (auto simp: inuse_def)
  note x' = effectD [OF x(2)]
  have hd: "enc_head 0 (lblock u) (cont w (lblk st 0)) = put32 (d (lblk st 0)) 0 0"
    using sw(2) dv(2) replay_log [OF h [folded d_def], of 0] by (simp add: enc_head_def)
  have "recover_from_log s = Ok () x"
    using x(1) by (simp add: recover_from_log_def thenK_Ok [of read_head, OF u(1)] thenK_Ok [of "install_trans True", OF v(1)]
        run_simps w_def)
  moreover have "dsk x = apply_writes (recovery_writes st d) d"
    using x'(6) dv(1) by (simp add: hd recovery_writes_def replay_def dw)
  moreover have "wtrace x = wtrace s @ recovery_writes st d"
    using x'(7) v'(7) u(7) by (simp add: hd recovery_writes_def dw)
  ultimately show ?thesis
    using x'(1-4) sw(3) v'(2,4) u by (simp add: same_log_def w_def d_def)
qed

text \<open>A state in which \<open>end_op\<close> calls \<open>commit\<close>: no buffer is locked, exactly the logged blocks are
  pinned, and the header on disk is empty.\<close>

definition commit_ready :: "'z log_state_scheme \<Rightarrow> bool" where
  "commit_ready s \<longleftrightarrow> bio_ok s \<and> log_geom s \<and> lockedb s = (\<lambda>_. False) \<and> pinned s
     \<and> hdr_n (lstart s) (dsk s) = 0 \<and> 0 \<le> sint (get32 (dsk s (lblk (lstart s) 0)) 0)"

lemma cont_length: "bio_ok s \<Longrightarrow> length (cont s b) = BSIZE"
proof (cases "\<exists>i. caches s i b")
  assume ok: "bio_ok s"
  case True
  then obtain i where c: "caches s i b" ..
  then have "buf_ok s i" using ok by (simp add: bio_ok_def caches_def)
  then show ?thesis using c view_cached(1) [OF bio_ok_unique [OF ok] c] by (simp add: buf_ok_def caches_def)
next
  assume ok: "bio_ok s"
  case False
  then show ?thesis using view_uncached(1) [of s b] ok by (simp add: bio_ok_def)
qed

lemma logged_image:
  assumes "log_geom s" shows "(!) (lblock s) ` {..<nat (ln s)} = logged s"
proof -
  have n: "nat (ln s) \<le> length (lblock s)" using log_geom_n [OF assms] assms by (simp add: log_geom_def)
  show ?thesis using nth_image [OF n] by (simp add: logged_def atLeast0LessThan)
qed

lemma commit_transaction:
  assumes "commit_ready s"
  shows "transaction (lstart s) (lblock s) (nat (ln s)) (cont s) (dsk s)"
proof -
  have ok: "bio_ok s" and g: "log_geom s" and p: "pinned s"
    and e: "hdr_n (lstart s) (dsk s) = 0" "0 \<le> sint (get32 (dsk s (lblk (lstart s) 0)) 0)"
    using assms by (auto simp: commit_ready_def)
  have "map ((!) (lblock s)) [0..<nat (ln s)] = take (nat (ln s)) (lblock s)"
    by (rule nth_equalityI) (use g log_geom_n [OF g] in \<open>auto simp: log_geom_def\<close>)
  then have "distinct (map ((!) (lblock s)) [0..<nat (ln s)])" using g by (simp add: log_geom_def)
  moreover have "home (lstart s) (lblock s ! i)" if "i < nat (ln s)" for i
    using logged_nth(3) [OF g that] unfolding home_def by metis
  moreover have "cont s b = dsk s b" if "b \<notin> logged s" for b
    using clean_unref [OF ok, of b] p that by (simp add: pinned_def)
  ultimately show ?thesis
    using ok g e log_geom_n [OF g] unfolding transaction_def logged_image [OF g]
    by (auto simp: st_ok_def log_geom_def bio_ok_def)
qed

lemma commit_ok:
  fixes s :: "'z log_state_scheme"
  defines "W \<equiv> commit_writes (cont s) (lstart s) (lblock s) (nat (ln s)) (dsk s (lblk (lstart s) 0))"
  assumes rd: "commit_ready s" and n: "0 < ln s"
  shows "\<exists>t. commit s = Ok () t \<and> bio_ok t \<and> lockedb t = (\<lambda>_. False) \<and> refs t = (\<lambda>_. 0) \<and> ln t = 0
     \<and> dsk t = apply_writes W (dsk s) \<and> wtrace t = wtrace s @ W \<and> lstart t = lstart s \<and> lsize t = lsize s
     \<and> ldev t = 1 \<and> outstanding t = outstanding s \<and> committing t = committing s \<and> lblock t = lblock s"
proof -
  define st bl m h where "st = lstart s" and "bl = lblock s" and "m = nat (ln s)" and "h = dsk s (lblk st 0)"
  have ok: "bio_ok s" and g: "log_geom s" and l: "lockedb s = (\<lambda>_. False)" and p: "pinned s"
    using rd by (auto simp: commit_ready_def)
  note T = commit_transaction [OF rd, folded st_def bl_def m_def]
  have dev: "ldev s = 1" and m: "m < LOGSIZE" using g log_geom_n [OF g] by (simp_all add: log_geom_def m_def)
  have a0: "refs s (lblk st 0) = 0" using p logged_not_log [OF g, of 0] by (simp add: pinned_def st_def)
  have ca: "cont s (lblk st 0) = h" unfolding h_def by (rule clean_unref [OF ok a0])
  have use: "inuse s < NBUF" by (rule inuse_logged [OF g]) (use p in \<open>auto simp: pinned_def logged_def split: if_splits\<close>)
  obtain t1 where t1: "write_log s = Ok () t1" "effect (log_writes (cont s) st bl m) (refs s) s t1"
    using write_log_ok [OF ok g l p] by (auto simp: st_def bl_def m_def)
  note e1 = effectD [OF t1(2)]
  have f1: "lstart t1 = st" "ldev t1 = 1" "ln t1 = ln s" "lblock t1 = bl" "inuse t1 < NBUF"
    using e1(2,4) dev use by (simp_all add: same_log_def st_def bl_def inuse_def)
  have c1: "cont t1 (lblk st 0) = h" using e1(5) log_prefix(1) [OF T order_refl] ca by simp
  obtain t2 where t2: "write_head t1 = Ok () t2" "effect [(lblk st 0, enc_head m bl h)] (refs s) t1 t2"
    using write_head_ok [OF e1(1) f1(2) e1(3)] f1 e1(4) a0 c1 n m by (auto simp: m_def)
  note e2 = effectD [OF t2(2)]
  have f2: "lstart t2 = st" "ldev t2 = 1" "ln t2 = ln s" "lblock t2 = bl" using e2(2) f1 by (simp_all add: same_log_def)
  have g2: "log_geom t2" using log_geom_same [OF same_log_trans [OF e1(2) e2(2)]] g by simp
  have p2: "pinned t2" using p e2(4) f2 by (simp add: pinned_def logged_def bl_def)
  have hw: "home_writes (cont t2) st bl m = home_final (cont s) bl m"
  proof -
    have "cont t2 (lblk st (Suc i)) = cont s (bl ! i)" if "i < m" for i
      using e2(5) e1(5) log_prefix(3) [OF T order_refl that] transactionD(1) [OF T] m that by simp
    then show ?thesis by (simp add: home_writes_def home_final_def)
  qed
  obtain t3 where t3: "install_trans False t2 = Ok () t3" "effect (home_final (cont s) bl m) (\<lambda>_. 0) t2 t3"
    using install_commit_ok [OF e2(1) g2 e2(3) p2] unfolding f2 m_def [symmetric] hw by blast
  note e3 = effectD [OF t3(2)]
  define t4 where "t4 = t3\<lparr>ln := 0\<rparr>"
  have "same_bio t3 t4" by (simp add: t4_def same_bio_def)
  note s4 = same_bio_view [OF this]
  have f4: "lstart t4 = st" "ldev t4 = 1" "ln t4 = 0" "lblock t4 = bl" "dsk t4 = dsk t3" "wtrace t4 = wtrace t3"
    using e3(2) f2 by (simp_all add: t4_def same_log_def)
  have c4: "cont t4 (lblk st 0) = enc_head m bl h"
    using s4(2) e3(5) e2(5) home_prefix(1) [OF T order_refl, of 0] by simp
  obtain t5 where t5: "write_head t4 = Ok () t5" "effect [(lblk st 0, enc_head 0 bl (enc_head m bl h))] (\<lambda>_. 0) t4 t5"
    using write_head_ok [of t4] s4 e3(1,3,4) f4 c4 by (auto simp: inuse_def)
  note e5 = effectD [OF t5(2)]
  have "commit s = Ok () t5"
    using n t5(1) by (simp add: commit_def run_simps whenK_def thenK_Ok [of write_log, OF t1(1)] thenK_Ok [of write_head, OF t2(1)]
        thenK_Ok [of "install_trans False", OF t3(1)] t4_def)
  moreover have "dsk t5 = apply_writes W (dsk s)" "wtrace t5 = wtrace s @ W"
    using e5(6,7) f4(5,6) e3(6,7) e2(6,7) e1(6,7) by (simp_all add: W_def commit_writes_def st_def bl_def m_def h_def)
  moreover have "same_log t4 t5" "same_log t2 t3" "same_log t1 t2" "same_log s t1" using e5(2) e3(2) e2(2) e1(2) by auto
  ultimately show ?thesis
    using e5(1,3,4) dev by (simp add: same_log_def t4_def)
qed

section \<open>Crash and reboot\<close>

text \<open>A rebooted machine: zeroed memory, the first process running, the disk as the crash left it.\<close>

definition reboot :: "(u32 \<Rightarrow> bytes) \<Rightarrow> log_state" where
  "reboot d = bio_state.extend (bio_state.truncate (boot_bio d))
     \<lparr>lstart = 0, lsize = 0, outstanding = 0, committing = False, ldev = 0, ln = 0, lblock = replicate LOGSIZE 0\<rparr>"

definition boot_recover :: "u32 \<Rightarrow> u32 \<Rightarrow> (log_state, unit) K" where
  "boot_recover logstart nlog = seqK [binit, initlog ROOTDEV logstart nlog]"

text \<open>The disks a crash during \<open>m\<close> may leave, and those left by any number of crashes during recovery.\<close>

definition crash_disk :: "('z log_state_scheme, unit) K \<Rightarrow> 'z log_state_scheme \<Rightarrow> (u32 \<Rightarrow> bytes) \<Rightarrow> bool" where
  "crash_disk m s d \<longleftrightarrow> (\<exists>t k. m s = Ok () t \<and> d = apply_writes (take k (drop (length (wtrace s)) (wtrace t))) (dsk s))"

inductive crashes_again :: "u32 \<Rightarrow> u32 \<Rightarrow> (u32 \<Rightarrow> bytes) \<Rightarrow> (u32 \<Rightarrow> bytes) \<Rightarrow> bool" for logstart nlog where
  none: "crashes_again logstart nlog d d"
| again: "crashes_again logstart nlog d d' \<Longrightarrow> crash_disk (boot_recover logstart nlog) (reboot d') d'' \<Longrightarrow>
    crashes_again logstart nlog d d''"

text \<open>The log between transactions.\<close>

definition idle :: "'z log_state_scheme \<Rightarrow> bool" where
  "idle s \<longleftrightarrow> bio_ok s \<and> log_geom s \<and> lockedb s = (\<lambda>_. False) \<and> refs s = (\<lambda>_. 0) \<and> ln s = 0 \<and> outstanding s = 0
     \<and> \<not> committing s \<and> lsize s = LOGSIZE \<and> get32 (dsk s (lblk (lstart s) 0)) 0 = 0"

definition full_blocks :: "(u32 \<Rightarrow> bytes) \<Rightarrow> bool" where
  "full_blocks d \<longleftrightarrow> (\<forall>b. length (d b) = BSIZE)"

lemma full_blocks_writes:
  assumes "full_blocks d" "\<And>b x. (b, x) \<in> set W \<Longrightarrow> length x = BSIZE" shows "full_blocks (apply_writes W d)"
  using assms
proof (induction W arbitrary: d)
  case (Cons w W)
  have "full_blocks (d(fst w := snd w))" using Cons.prems(1) Cons.prems(2) [of "fst w" "snd w"] by (simp add: full_blocks_def)
  then have "full_blocks (apply_writes W (d(fst w := snd w)))"
    by (rule Cons.IH) (rule Cons.prems(2), rule list.set_intros(2))
  then show ?case by (cases w) simp
qed simp

lemma full_blocks_take:
  "full_blocks d \<Longrightarrow> (\<And>b x. (b, x) \<in> set W \<Longrightarrow> length x = BSIZE) \<Longrightarrow> full_blocks (apply_writes (take k W) d)"
  by (rule full_blocks_writes) (auto dest: in_set_takeD)

lemma recovery_full: "full_blocks d \<Longrightarrow> (b, x) \<in> set (recovery_writes st d) \<Longrightarrow> length x = BSIZE"
  by (auto simp: recovery_writes_def full_blocks_def)

lemma boot_recover_ok:
  fixes logstart :: u32
  defines "st \<equiv> sint logstart"
  assumes d: "full_blocks d" and st: "st_ok st" and h: "hdr_ok st d"
  shows "\<exists>t. boot_recover logstart nlog (reboot d) = Ok () t \<and> bio_ok t \<and> dsk t = apply_writes (recovery_writes st d) d
     \<and> wtrace t = recovery_writes st d \<and> (\<forall>b. home st b \<longrightarrow> dsk t b = replay st d b)
     \<and> lstart t = st \<and> (sint nlog = LOGSIZE \<longrightarrow> idle t)"
proof -
  have "fresh_bufs (reboot d)"
    using d by (simp add: fresh_bufs_def reboot_def boot_bio_def bio_state.defs full_blocks_def)
  from binit_ok [OF this] obtain s where s: "binit (reboot d) = Ok () s" "fresh_bufs s" "lru_ring (bufs s) (rev [0..<NBUF])"
     "bframe (reboot d) s" "dsk s = d" "wtrace s = []"
    by (auto simp: reboot_def boot_bio_def bio_state.defs)
  have q: "quiet s" using s(4) by (simp add: bframe_def quiet_def reboot_def boot_bio_def bio_state.defs)
  have lb: "length (lblock s) = LOGSIZE"
    using bframe_log [OF s(4)] by (simp add: same_log_def reboot_def bio_state.defs)
  note f = fresh_bufs_ok [OF s(2,3) q]
  define u where "u = s\<lparr>lstart := st, lsize := sint nlog, ldev := 1\<rparr>"
  have "same_bio s u" by (simp add: u_def same_bio_def)
  note su = same_bio_view [OF this]
  have lu: "lstart u = st" "dsk u = d" "wtrace u = []" using s by (simp_all add: u_def)
  obtain t where t: "recover_from_log u = Ok () t" "bio_ok t" "dsk t = apply_writes (recovery_writes st d) d"
     "wtrace t = recovery_writes st d" "lockedb t = (\<lambda>_. False)" "refs t = (\<lambda>_. 0)" "ln t = 0" "lstart t = st"
     "lsize t = lsize u" "ldev t = 1" "outstanding t = outstanding u" "committing t = committing u" "length (lblock t) = LOGSIZE"
    using recover_ok [of u] su f lb st h lu by (auto simp: u_def)
  have o: "outstanding u = 0" "\<not> committing u" "lsize u = sint nlog"
    using bframe_log [OF s(4)] by (simp_all add: u_def same_log_def reboot_def bio_state.defs)
  have "get32 (dsk t (lblk st 0)) 0 = 0" using d by (simp add: t(3) recovery_writes_def full_blocks_def)
  then have "idle t" if "sint nlog = LOGSIZE"
    using that t o st by (simp add: idle_def log_geom_def st_ok_def)
  have "boot_recover logstart nlog (reboot d) = Ok () t"
    using t(1) by (simp add: boot_recover_def thenK_Ok [of binit, OF s(1)] initlog_def run_simps u_def st_def)
  moreover have "dsk t b = replay st d b" if "home st b" for b
    using home_lblk [OF that, of 0] by (simp add: t(3) recovery_writes_def replay_def)
  ultimately show ?thesis using t \<open>sint nlog = LOGSIZE \<Longrightarrow> idle t\<close> by metis
qed

lemma crashes_again_replay:
  fixes logstart :: u32
  defines "st \<equiv> sint logstart"
  assumes "crashes_again logstart nlog d d'" and st: "st_ok st" and "full_blocks d" "hdr_ok st d"
  shows "full_blocks d' \<and> hdr_ok st d' \<and> (\<forall>b. home st b \<longrightarrow> replay st d' b = replay st d b)"
  using assms(2,4,5)
proof (induction rule: crashes_again.induct)
  case (none d)
  then show ?case by simp
next
  case (again d d' d'')
  then have d': "full_blocks d'" "hdr_ok st d'" "\<And>b. home st b \<Longrightarrow> replay st d' b = replay st d b" by auto
  obtain t k where t: "boot_recover logstart nlog (reboot d') = Ok () t"
     "d'' = apply_writes (take k (drop (length (wtrace (reboot d'))) (wtrace t))) (dsk (reboot d'))"
    using again.hyps(2) by (auto simp: crash_disk_def)
  have rb: "wtrace (reboot d') = []" "dsk (reboot d') = d'" by (simp_all add: reboot_def boot_bio_def bio_state.defs)
  have w: "wtrace t = recovery_writes st d'"
    using boot_recover_ok [of d' logstart nlog] d' st t(1) by (auto simp: st_def)
  have d'': "d'' = apply_writes (take k (recovery_writes st d')) d'" using t(2) w rb by simp
  have "length (d' (lblk st 0)) = BSIZE" using d'(1) by (simp add: full_blocks_def)
  note cr = crash_recovery [OF d'(2) this, where j = k]
  have "full_blocks d''" unfolding d'' by (rule full_blocks_take [OF d'(1)]) (rule recovery_full [OF d'(1)])
  then show ?case using cr d'(3) by (simp add: d'')
qed

lemma commit_full: "bio_ok s \<Longrightarrow> n \<le> LOGSIZE \<Longrightarrow> length h = BSIZE \<Longrightarrow>
   (b, x) \<in> set (commit_writes (cont s) st bl n h) \<Longrightarrow> length x = BSIZE"
  using enc_head_fields(1) [of h n bl] enc_head_fields(1) [of "enc_head n bl h" 0 bl]
  by (auto simp: commit_writes_def log_writes_def home_final_def cont_length)

lemma commit_crash:
  fixes s :: "'z log_state_scheme" and logstart :: u32
  assumes rd: "commit_ready s" and n: "0 < ln s" and st: "lstart s = sint logstart"
    and t: "commit s = Ok () t" and ag: "crashes_again logstart nlog (apply_writes (take k (drop (length (wtrace s)) (wtrace t))) (dsk s)) d"
  shows "\<exists>u. boot_recover logstart nlog (reboot d) = Ok () u \<and> bio_ok u
     \<and> (\<forall>b. home (lstart s) b \<longrightarrow> dsk u b = (if k \<le> nat (ln s) then dsk s b else cont s b))"
proof -
  define W where "W = commit_writes (cont s) (lstart s) (lblock s) (nat (ln s)) (dsk s (lblk (lstart s) 0))"
  define d0 where "d0 = apply_writes (take k W) (dsk s)"
  have w: "wtrace t = wtrace s @ W" using commit_ok [OF rd n] t by (auto simp: W_def)
  have ok: "bio_ok s" and g: "log_geom s" using rd by (auto simp: commit_ready_def)
  note T = commit_transaction [OF rd]
  note cc = crash_commit [OF T, where k = k, folded W_def d0_def]
  have fd: "full_blocks (dsk s)" using ok by (simp add: full_blocks_def bio_ok_def)
  have n30: "nat (ln s) \<le> LOGSIZE" using log_geom_n [OF g] by simp
  have h: "length (dsk s (lblk (lstart s) 0)) = BSIZE" using fd by (simp add: full_blocks_def)
  have fb: "full_blocks d0"
    unfolding d0_def W_def by (rule full_blocks_take [OF fd]) (rule commit_full [OF ok n30 h])
  have so: "st_ok (sint logstart)" using transactionD(1) [OF T] st by simp
  have ag': "crashes_again logstart nlog d0 d" using ag w by (simp add: d0_def)
  have r: "full_blocks d" "hdr_ok (sint logstart) d" "\<And>b. home (sint logstart) b \<Longrightarrow> replay (sint logstart) d b = replay (sint logstart) d0 b"
    using crashes_again_replay [OF ag' so fb] cc(1) st by auto
  from boot_recover_ok [OF r(1) so r(2), of nlog] show ?thesis using r(3) cc(2) st by auto
qed

end
