(* ===== verification/LogSpec.thy ===== *)
theory LogSpec
  imports LogCrash
begin

text \<open>
  What \<^verbatim>\<open>kernel/log.c\<close> promises its callers: \<open>log_write\<close> records a block once and pins it,
  \<open>begin_op\<close> waits for room, and a transaction is atomic and durable across any sequence of crashes.
\<close>

section \<open>Recording a block\<close>

lemma absorb_step: "i < n \<Longrightarrow> bl ! i \<noteq> bn \<Longrightarrow> absorb bl n bn i = absorb bl n bn (Suc i)"
  by (simp add: absorb.simps [of bl n bn i])

lemma absorb_stop: "\<not> i < n \<or> bl ! i = bn \<Longrightarrow> absorb bl n bn i = i"
  by (auto simp: absorb.simps [of bl n bn i])

lemma absorb_spec:
  "i \<le> n \<Longrightarrow> absorb bl n bn i \<le> n \<and> (absorb bl n bn i < n \<longrightarrow> bl ! absorb bl n bn i = bn)
     \<and> (\<forall>j. i \<le> j \<longrightarrow> j < absorb bl n bn i \<longrightarrow> bl ! j \<noteq> bn)"
proof (induction "n - i" arbitrary: i)
  case 0
  then have "absorb bl n bn i = i" by (intro absorb_stop) simp
  then show ?case using 0 by simp
next
  case (Suc m)
  show ?case
  proof (cases "bl ! i = bn")
    case True
    then have "absorb bl n bn i = i" by (intro absorb_stop) simp
    then show ?thesis using True Suc by simp
  next
    case False
    have e: "absorb bl n bn i = absorb bl n bn (Suc i)" by (rule absorb_step [OF _ False]) (use Suc in simp)
    have IH: "absorb bl n bn (Suc i) \<le> n" "absorb bl n bn (Suc i) < n \<longrightarrow> bl ! absorb bl n bn (Suc i) = bn"
       "\<forall>j. Suc i \<le> j \<longrightarrow> j < absorb bl n bn (Suc i) \<longrightarrow> bl ! j \<noteq> bn"
      using Suc(1) [of "Suc i"] Suc(2) by auto
    have "bl ! j \<noteq> bn" if "i \<le> j" "j < absorb bl n bn (Suc i)" for j
      using IH(3) that False by (cases "j = i") auto
    then show ?thesis using IH(1,2) unfolding e by blast
  qed
qed

lemmas absorb_bound = absorb_spec [THEN conjunct1]
lemmas absorb_hit = absorb_spec [THEN conjunct2, THEN conjunct1, rule_format]
lemmas absorb_first = absorb_spec [THEN conjunct2, THEN conjunct2, rule_format]

lemma absorb_new:
  assumes n: "n \<le> length bl" shows "absorb bl n bn 0 = n \<longleftrightarrow> bn \<notin> set (take n bl)"
proof
  assume e: "absorb bl n bn 0 = n"
  have "bl ! j \<noteq> bn" if "j < n" for j using absorb_first [of 0 n j bl bn] that e by simp
  then show "bn \<notin> set (take n bl)" using n by (auto simp: in_set_conv_nth)
next
  assume "bn \<notin> set (take n bl)"
  then have "bl ! j \<noteq> bn" if "j < n" for j using that n nth_mem [of j "take n bl"] by auto
  then show "absorb bl n bn 0 = n" using absorb_bound [of 0 n bl bn] absorb_hit [of 0 n bl bn] by force
qed

lemma log_write_run:
  fixes i :: nat and s :: "'z log_state_scheme"
  defines "b \<equiv> blockno (bufs s i)"
  assumes q: "quiet s" and o: "0 < outstanding s" and r: "ln s < LOGSIZE" "ln s < lsize s - 1" and n: "0 \<le> ln s" "length (lblock s) = LOGSIZE"
  shows "log_write i s = Ok () (if b \<in> logged s then s
     else s\<lparr>bufs := (bufs s)(i := (bufs s i)\<lparr>refcnt := refcnt (bufs s i) + 1\<rparr>), ln := ln s + 1, lblock := (lblock s)[nat (ln s) := b]\<rparr>)"
proof -
  define j where "j = absorb (lblock s) (nat (ln s)) b 0"
  have len: "nat (ln s) \<le> length (lblock s)" using r n by simp
  have h: "held s = []" using q by (simp add: quiet_def)
  have j: "int j = ln s \<longleftrightarrow> b \<notin> logged s" using absorb_new [OF len, of b] n(1) by (auto simp: j_def logged_def)
  show ?thesis
  proof (cases "b \<in> logged s")
    case True
    then have "int j \<noteq> ln s" using j by simp
    moreover have "j < nat (ln s)" using absorb_bound [of 0 "nat (ln s)" "lblock s" b] calculation n(1) by (simp add: j_def)
    then have "lblock s ! j = b" using absorb_hit [of 0 "nat (ln s)" "lblock s" b] by (simp add: j_def)
    then have "(lblock s)[j := b] = lblock s" by (metis list_update_id)
    moreover have "absorb (lblock s) (nat (ln s)) (blockno (bufs s i)) 0 = j" by (simp add: j_def b_def)
    moreover note \<open>(lblock s)[j := b] = lblock s\<close>
    ultimately show ?thesis using True o r h by (simp add: log_write_def K_defs b_def)
  next
    case False
    then have "int j = ln s" using j by simp
    moreover have "absorb (lblock s) (nat (ln s)) (blockno (bufs s i)) 0 = j" by (simp add: j_def b_def)
    moreover have "nat (ln s) = j" using \<open>int j = ln s\<close> by simp
    ultimately show ?thesis using False o r h by (simp add: log_write_def K_defs b_def bpin_eq)
  qed
qed

lemma log_write_panics:
  "LkLog \<notin> set (held s) \<Longrightarrow> LOGSIZE \<le> ln s \<or> lsize s - 1 \<le> ln s \<Longrightarrow> log_write i s = Panic ''too big a transaction''"
  "LkLog \<notin> set (held s) \<Longrightarrow> ln s < LOGSIZE \<Longrightarrow> ln s < lsize s - 1 \<Longrightarrow> outstanding s < 1 \<Longrightarrow>
    log_write i s = Panic ''log_write outside of trans''"
  by (auto simp: log_write_def K_defs)

lemma log_write_ok:
  fixes s :: "'z log_state_scheme"
  assumes ok: "bio_ok s" and g: "log_geom s" and c: "caches s i b" and m: "mine s i" and r: "refs s b + 1 < 2 ^ 32"
    and o: "0 < outstanding s" and z: "lsize s \<le> LOGSIZE" "ln s < lsize s - 1"
    and b: "\<And>k. k < LOGSIZE \<Longrightarrow> b \<noteq> lblk (lstart s) k"
  shows "\<exists>t. log_write i s = Ok () t \<and> bio_ok t \<and> log_geom t \<and> logged t = insert b (logged s)
     \<and> ln t = ln s + (if b \<in> logged s then 0 else 1) \<and> cont t = cont s \<and> lockedb t = lockedb s
     \<and> refs t = (refs s)(b := refs s b + (if b \<in> logged s then 0 else 1)) \<and> mine t i \<and> caches t i b
     \<and> dsk t = dsk s \<and> wtrace t = wtrace s \<and> lstart t = lstart s \<and> outstanding t = outstanding s
     \<and> committing t = committing s \<and> lsize t = lsize s"
proof -
  have q: "quiet s" using ok by (simp add: bio_ok_def)
  have bn: "blockno (bufs s i) = b" using c by (simp add: caches_def)
  have n: "0 \<le> ln s" "ln s < LOGSIZE" "length (lblock s) = LOGSIZE" using g by (simp_all add: log_geom_def)
  note run = log_write_run [OF q o n(2) z(2) n(1,3), of i, unfolded bn]
  show ?thesis
  proof (cases "b \<in> logged s")
    case True
    then have "log_write i s = Ok () s" using run by simp
    moreover have "insert b (logged s) = logged s" using True by blast
    ultimately show ?thesis using True ok g m c by (auto simp: fun_eq_iff)
  next
    case False
    define u where "u = s\<lparr>bufs := (bufs s)(i := (bufs s i)\<lparr>refcnt := refcnt (bufs s i) + 1\<rparr>)\<rparr>"
    note p = pin_ok [OF ok c m r u_def]
    define t where "t = u\<lparr>ln := ln s + 1, lblock := (lblock s)[nat (ln s) := b]\<rparr>"
    have "same_bio u t" by (simp add: t_def same_bio_def)
    note sb = same_bio_view [OF this]
    have bl: "take (nat (ln t)) (lblock t) = take (nat (ln s)) (lblock s) @ [b]"
      using n by (simp add: t_def u_def nat_add_distrib take_Suc_conv_app_nth)
    have lg: "logged t = insert b (logged s)" using bl by (simp add: logged_def)
    have gt: "log_geom t"
      using g False z n b bl unfolding log_geom_def logged_def by (auto simp: t_def u_def)
    have "log_write i s = Ok () t" using run False by (simp add: t_def u_def)
    then show ?thesis using sb p bstepD(1) [OF p(1)] gt lg False by (simp add: t_def u_def)
  qed
qed

section \<open>Committing\<close>

lemma commit_ready_log: "commit_ready s \<Longrightarrow> commit_ready (s\<lparr>outstanding := n, committing := c\<rparr>)"
  using same_bio_view [of s "s\<lparr>outstanding := n, committing := c\<rparr>"]
  by (simp add: commit_ready_def same_bio_def log_geom_def pinned_def logged_def)

lemma bio_ok_wake:
  assumes "bio_ok s" shows "bio_ok (s\<lparr>procs := wake_all ch me (procs s)\<rparr>)"
  using assms by (simp add: bio_ok_def quiet_def buf_ok_def caches_def)

lemma end_op_ok:
  fixes s :: "'z log_state_scheme"
  assumes rd: "commit_ready s" and n: "0 < ln s" and o: "outstanding s = 1" "\<not> committing s"
  shows "\<exists>t. end_op s = Ok () t \<and> bio_ok t \<and> ln t = 0 \<and> outstanding t = 0 \<and> \<not> committing t
     \<and> wtrace t = wtrace s @ commit_writes (cont s) (lstart s) (lblock s) (nat (ln s)) (dsk s (lblk (lstart s) 0))
     \<and> dsk t = apply_writes (commit_writes (cont s) (lstart s) (lblock s) (nat (ln s)) (dsk s (lblk (lstart s) 0))) (dsk s)"
proof -
  define u where "u = s\<lparr>outstanding := 0, committing := True\<rparr>"
  have "same_bio s u" by (simp add: u_def same_bio_def)
  note su = same_bio_view [OF this]
  have h: "held s = []" using rd by (simp add: commit_ready_def bio_ok_def quiet_def)
  obtain t where t: "commit u = Ok () t" "bio_ok t" "ln t = 0" "outstanding t = 0"
     "dsk t = apply_writes (commit_writes (cont s) (lstart s) (lblock s) (nat (ln s)) (dsk s (lblk (lstart s) 0))) (dsk s)"
     "wtrace t = wtrace s @ commit_writes (cont s) (lstart s) (lblock s) (nat (ln s)) (dsk s (lblk (lstart s) 0))"
    using commit_ok [OF commit_ready_log [OF rd, where n = 0 and c = True]] n su by (auto simp: u_def)
  have ht: "held t = []" using t(2) by (simp add: bio_ok_def quiet_def)
  define v where "v = t\<lparr>committing := False\<rparr>"
  have "same_bio t v" by (simp add: v_def same_bio_def)
  then have v: "bio_ok v" using same_bio_view t(2) by blast
  define w where "w = v\<lparr>procs := wake_all ChLog (curproc v) (procs v)\<rparr>"
  have "end_op s = Ok () w"
    using o h t(1) ht by (simp add: end_op_def K_defs u_def wakeup_eq w_def v_def)
  then show ?thesis using bio_ok_wake [OF v, of ChLog "curproc v"] t by (simp add: w_def v_def)
qed

section \<open>A transaction from beginning to end\<close>

text \<open>A system call that overwrites one block of the disk, up to its \<open>end_op\<close>.\<close>

definition update_block :: "u32 \<Rightarrow> bytes \<Rightarrow> ('z log_state_scheme, unit) K" where
  "update_block b x = bindK (thenK begin_op (bread ROOTDEV b)) (\<lambda>i. seqK [set_data i x, log_write i, brelse i])"

lemma begin_op_eq:
  assumes "LkLog \<notin> set (held s)" "\<not> committing s" "ln s + (outstanding s + 1) * MAXOPBLOCKS \<le> LOGSIZE"
  shows "begin_op s = Ok () (s\<lparr>outstanding := outstanding s + 1\<rparr>)"
  using assms by (simp add: begin_op_def K_defs)

lemma op_bread_ok:
  fixes s :: "'z log_state_scheme"
  assumes id: "idle s"
  shows "\<exists>i t. thenK begin_op (bread ROOTDEV b) s = Ok i t \<and> bio_ok t \<and> caches t i b \<and> mine t i \<and> cont t = cont s
     \<and> refs t = (\<lambda>_. 0)(b := 1) \<and> lockedb t = (\<lambda>_. False)(b := True) \<and> dsk t = dsk s \<and> wtrace t = wtrace s
     \<and> log_geom t \<and> ln t = 0 \<and> outstanding t = 1 \<and> lsize t = LOGSIZE \<and> lstart t = lstart s \<and> \<not> committing t"
proof -
  have i0: "bio_ok s" "log_geom s" "lockedb s = (\<lambda>_. False)" "refs s = (\<lambda>_. 0)" "ln s = 0" "outstanding s = 0"
     "\<not> committing s" "lsize s = LOGSIZE"
    using id by (auto simp: idle_def)
  have h: "held s = []" using i0(1) by (simp add: bio_ok_def quiet_def)
  define s1 where "s1 = s\<lparr>outstanding := 1\<rparr>"
  have s1: "begin_op s = Ok () s1" using begin_op_eq [of s] h i0 by (simp add: s1_def)
  have "same_bio s s1" by (simp add: s1_def)
  note v1 = same_bio_view [OF this]
  have "inuse s1 < NBUF" by (simp add: v1 inuse_def i0)
  then obtain i s2 where s2: "bread ROOTDEV b s1 = Ok i s2" "bstep i s1 s2" "caches s2 i b" "mine s2 i" "cont s2 = cont s1"
     "refs s2 = (refs s1)(b := refs s1 b + 1)" "lockedb s2 = (lockedb s1)(b := True)" "dsk s2 = dsk s1" "wtrace s2 = wtrace s1"
    using bread_ok [of s1 b] v1 i0 by auto
  have l2: "same_log s1 s2" by (rule bframe_log [OF bstepD(2) [OF s2(2)]])
  then have "log_geom s2" using log_geom_same [OF l2] i0(2) by (simp add: s1_def log_geom_def)
  moreover have "ln s2 = 0" "outstanding s2 = 1" "lsize s2 = LOGSIZE" "lstart s2 = lstart s" "\<not> committing s2"
    using l2 i0 by (simp_all add: same_log_def s1_def)
  moreover have "thenK begin_op (bread ROOTDEV b) s = Ok i s2" using s2(1) by (simp add: thenK_Ok [of begin_op, OF s1])
  ultimately show ?thesis
    using s2 bstepD(1) [OF s2(2)] v1 i0 by (intro exI [of _ i] exI [of _ s2]) (simp add: s1_def)
qed

lemma update_block_ok:
  fixes s :: "'z log_state_scheme"
  assumes id: "idle s" and x: "length x = BSIZE" and b: "home (lstart s) b"
  shows "\<exists>t. update_block b x s = Ok () t \<and> commit_ready t \<and> ln t = 1 \<and> outstanding t = 1 \<and> \<not> committing t
     \<and> cont t = (cont s)(b := x) \<and> dsk t = dsk s \<and> wtrace t = wtrace s \<and> lstart t = lstart s"
proof -
  obtain i s2 where s2: "thenK begin_op (bread ROOTDEV b) s = Ok i s2" "bio_ok s2" "caches s2 i b" "mine s2 i" "cont s2 = cont s"
     "refs s2 = (\<lambda>_. 0)(b := 1)" "lockedb s2 = (\<lambda>_. False)(b := True)" "dsk s2 = dsk s" "wtrace s2 = wtrace s"
     "log_geom s2" "ln s2 = 0" "outstanding s2 = 1" "lsize s2 = LOGSIZE" "lstart s2 = lstart s" "\<not> committing s2"
    using op_bread_ok [OF id, of b] by blast
  obtain s3 where s3: "set_data i x s2 = Ok () s3" "bstep i s2 s3" "mine s3 i" "caches s3 i b" "cont s3 = (cont s2)(b := x)"
     "refs s3 = refs s2" "lockedb s3 = lockedb s2" "dsk s3 = dsk s2" "wtrace s3 = wtrace s2"
    using set_data_ok [OF s2(2-4) x] by blast
  have l3: "same_log s2 s3" by (rule bframe_log [OF bstepD(2) [OF s3(2)]])
  then have f3: "ln s3 = 0" "outstanding s3 = 1" "lsize s3 = LOGSIZE" "lstart s3 = lstart s" "\<not> committing s3"
    using s2 by (simp_all add: same_log_def)
  have g3: "log_geom s3" using log_geom_same [OF l3] s2(10) by simp
  have lg3: "logged s3 = {}" using f3 by (simp add: logged_def)
  have r3: "refs s3 = (\<lambda>_. 0)(b := 1)" using s3(6) s2(6) by simp
  obtain s4 where s4: "log_write i s3 = Ok () s4" "bio_ok s4" "log_geom s4" "logged s4 = {b}" "ln s4 = 1" "cont s4 = cont s3"
     "lockedb s4 = lockedb s3" "refs s4 = (refs s3)(b := Suc (Suc 0))" "mine s4 i" "caches s4 i b" "dsk s4 = dsk s3" "wtrace s4 = wtrace s3"
     "lstart s4 = lstart s" "outstanding s4 = 1" "\<not> committing s4"
    using log_write_ok [OF bstepD(1) [OF s3(2)] g3 s3(4,3)] r3 f3 lg3 b by (auto simp: home_def)
  have r4: "refs s4 = (\<lambda>_. 0)(b := Suc (Suc 0))" using s4(8) r3 by simp
  obtain s5 where s5: "brelse i s4 = Ok () s5" "bstep i s4 s5" "cont s5 = cont s4" "refs s5 = (refs s4)(b := refs s4 b - 1)"
     "lockedb s5 = (lockedb s4)(b := False)" "dsk s5 = dsk s4" "wtrace s5 = wtrace s4"
    using brelse_ok [OF s4(2,10,9)] r4 by auto
  have l5: "same_log s4 s5" by (rule bframe_log [OF bstepD(2) [OF s5(2)]])
  have "logged s5 = {b}" using l5 s4(4) by (simp add: logged_def same_log_def)
  moreover have "refs s5 = (\<lambda>c. if c = b then 1 else 0)" using s5(4) r4 by (simp add: fun_eq_iff)
  moreover have "lockedb s5 = (\<lambda>_. False)" using s5(5) s4(7) s3(7) s2(7) by (simp add: fun_eq_iff)
  moreover have d5: "dsk s5 = dsk s" "wtrace s5 = wtrace s" using s5 s4 s3 s2 by simp_all
  moreover have "lstart s5 = lstart s" "ln s5 = 1" "outstanding s5 = 1" "\<not> committing s5" using l5 s4 by (simp_all add: same_log_def)
  moreover have "log_geom s5" using log_geom_same [OF l5] s4(3) by simp
  ultimately have "commit_ready s5" using bstepD(1) [OF s5(2)] id by (simp add: commit_ready_def pinned_def hdr_n_def idle_def)
  moreover have "update_block b x s = Ok () s5"
    by (simp add: update_block_def bindK_Ok [of "thenK begin_op (bread ROOTDEV b)", OF s2(1)]
        thenK_Ok [of "set_data i x", OF s3(1)] thenK_Ok [of "log_write i", OF s4(1)] s5(1))
  ultimately show ?thesis using d5 \<open>lstart s5 = lstart s\<close> \<open>ln s5 = 1\<close> \<open>outstanding s5 = 1\<close> \<open>\<not> committing s5\<close>
     s5(3) s4(6) s3(5) s2(5) by simp
qed

section \<open>Atomicity and durability\<close>

lemma boot_blank: "full_blocks (\<lambda>_. replicate BSIZE 0)" "hdr_ok st (\<lambda>_. replicate BSIZE 0)" "st_ok 2"
  by (simp_all add: full_blocks_def hdr_ok_def hdr_n_def st_ok_def get32_def get_le_def)

lemma blank_boot:
  "\<exists>s. boot_recover 2 30 (reboot (\<lambda>_. replicate BSIZE 0)) = Ok () s \<and> idle s \<and> lstart s = 2 \<and> home 2 50
     \<and> dsk s 50 = replicate BSIZE 0"
proof -
  have "(of_nat k :: u32) \<noteq> 48" if "k < 30" for k
  proof
    assume "(of_nat k :: u32) = 48"
    then have "unat (of_nat k :: u32) = unat (48 :: u32)" by simp
    then show False using that by (simp add: unat_of_nat)
  qed
  then have h: "home 2 50" by (simp add: home_def lblk_def)
  have "replay 2 (\<lambda>_. replicate BSIZE 0) 50 = replicate BSIZE 0"
    by (simp add: replay_def hdr_n_def get32_def get_le_def)
  then show ?thesis using boot_recover_ok [OF boot_blank(1), of 2 30] boot_blank h by auto
qed

lemma blank_update:
  fixes x :: bytes
  assumes "length x = BSIZE"
  shows "\<exists>s0 s. boot_recover 2 30 (reboot (\<lambda>_. replicate BSIZE 0)) = Ok () s0 \<and> update_block 50 x s0 = Ok () s
     \<and> commit_ready s \<and> ln s = 1 \<and> outstanding s = 1 \<and> \<not> committing s \<and> lstart s = 2 \<and> cont s 50 = x \<and> home 2 50
     \<and> dsk s 50 = replicate BSIZE 0"
proof -
  obtain s0 where s0: "boot_recover 2 30 (reboot (\<lambda>_. replicate BSIZE 0)) = Ok () s0" "idle s0" "lstart s0 = 2" "home 2 50"
      "dsk s0 50 = replicate BSIZE 0"
    using blank_boot by blast
  obtain s where "update_block 50 x s0 = Ok () s" "commit_ready s" "ln s = 1" "outstanding s = 1" "\<not> committing s"
     "cont s = (cont s0)(50 := x)" "dsk s = dsk s0" "lstart s = lstart s0"
    using update_block_ok [OF s0(2) assms] s0(3,4) by metis
  then show ?thesis using s0 by auto
qed

text \<open>C7. \<open>log_write\<close> of a buffer the caller has locked records its block in the transaction exactly
  once: a block already in the log is absorbed and nothing changes, a new one takes the next slot
  and one more reference pins its buffer in the cache.  No contents, no lock and no disk block change.\<close>

theorem log_write_absorbs:
  assumes "bio_ok s" "log_geom s" "caches s i b" "mine s i" "refs s b + 1 < 2 ^ 32" "0 < outstanding s"
    "lsize s \<le> LOGSIZE" "ln s < lsize s - 1" "\<forall>k<LOGSIZE. b \<noteq> lblk (lstart s) k"
  shows "\<exists>t. log_write i s = Ok () t \<and> bio_ok t \<and> log_geom t \<and> logged t = insert b (logged s)
     \<and> ln t = ln s + (if b \<in> logged s then 0 else 1) \<and> refs t = (refs s)(b := refs s b + (if b \<in> logged s then 0 else 1))
     \<and> cont t = cont s \<and> lockedb t = lockedb s \<and> dsk t = dsk s \<and> wtrace t = wtrace s"
  using log_write_ok [OF assms(1-8)] assms(9) by blast

theorem log_write_absorbs_witness:
  "\<exists>s0 i s t. boot_recover 2 30 (reboot (\<lambda>_. replicate BSIZE 0)) = Ok () s0 \<and> thenK begin_op (bread ROOTDEV 50) s0 = Ok i s
     \<and> log_write i s = Ok () t \<and> logged t = {50} \<and> refs t 50 = 2"
proof -
  obtain s0 where s0: "boot_recover 2 30 (reboot (\<lambda>_. replicate BSIZE 0)) = Ok () s0" "idle s0" "lstart s0 = 2" "home 2 50"
    using blank_boot by blast
  obtain i s where s: "thenK begin_op (bread ROOTDEV 50) s0 = Ok i s" "bio_ok s" "caches s i 50" "mine s i"
     "refs s = (\<lambda>_. 0)(50 := 1)" "log_geom s" "ln s = 0" "outstanding s = 1" "lsize s = LOGSIZE" "lstart s = lstart s0"
    using op_bread_ok [OF s0(2), of 50] by blast
  have "logged s = {}" using s(7) by (simp add: logged_def)
  then have "\<exists>t. log_write i s = Ok () t \<and> logged t = {50} \<and> refs t 50 = 2"
    using log_write_absorbs [OF s(2,6,3,4)] s s0(3,4) by (auto simp: home_def)
  then show ?thesis using s0(1) s(1) by blast
qed

text \<open>C1. A transaction is atomic: whatever disk a crash during \<open>commit\<close> leaves, and whatever disks
  any number of further crashes during the recoveries after it leave, the recovery that completes
  produces either all of the blocks as they were before the transaction or all of them as the
  transaction wrote them.\<close>

theorem crash_atomicity:
  fixes s :: "'z log_state_scheme"
  assumes "commit_ready s" "0 < ln s" "lstart s = sint logstart"
    and "crash_disk commit s d0" "crashes_again logstart nlog d0 d"
  shows "\<exists>u. boot_recover logstart nlog (reboot d) = Ok () u \<and> bio_ok u
     \<and> ((\<forall>b. home (lstart s) b \<longrightarrow> dsk u b = dsk s b) \<or> (\<forall>b. home (lstart s) b \<longrightarrow> dsk u b = cont s b))"
proof -
  obtain t k where "commit s = Ok () t" "d0 = apply_writes (take k (drop (length (wtrace s)) (wtrace t))) (dsk s)"
    using assms(4) by (auto simp: crash_disk_def)
  with commit_crash [OF assms(1-3), of t nlog k d] assms(5) show ?thesis by (cases "k \<le> nat (ln s)") auto
qed

theorem crash_atomicity_witness:
  "\<exists>s0 s t u. boot_recover 2 30 (reboot (\<lambda>_. replicate BSIZE 0)) = Ok () s0 \<and> update_block 50 (replicate BSIZE 7) s0 = Ok () s
     \<and> commit s = Ok () t
     \<and> boot_recover 2 30 (reboot (apply_writes (take 2 (drop (length (wtrace s)) (wtrace t))) (dsk s))) = Ok () u
     \<and> dsk u 50 \<in> {replicate BSIZE 0, replicate BSIZE 7}"
proof -
  obtain s0 s where s: "boot_recover 2 30 (reboot (\<lambda>_. replicate BSIZE 0)) = Ok () s0"
     "update_block 50 (replicate BSIZE 7) s0 = Ok () s" "commit_ready s" "ln s = 1" "lstart s = 2" "cont s 50 = replicate BSIZE 7"
     "home 2 50" "dsk s 50 = replicate BSIZE 0"
    using blank_update [of "replicate BSIZE 7"] by auto
  obtain t where t: "commit s = Ok () t" using commit_ok [OF s(3)] s(4) by auto
  let ?d = "apply_writes (take 2 (drop (length (wtrace s)) (wtrace t))) (dsk s)"
  have "crash_disk commit s ?d" using t unfolding crash_disk_def by blast
  from crash_atomicity [OF s(3) _ _ this crashes_again.none, of 2 30] s(4-8)
  have "\<exists>u. boot_recover 2 30 (reboot ?d) = Ok () u \<and> dsk u 50 \<in> {replicate BSIZE 0, replicate BSIZE 7}" by auto
  then show ?thesis using s(1,2) t by blast
qed

text \<open>C2. A transaction is durable: when the \<open>end_op\<close> of the last operation returns, the disk holds
  every block of the transaction, the log is empty, and whatever crashes follow, the recovery
  that completes still finds every block as the transaction wrote it.\<close>

theorem commit_durable:
  fixes s :: "'z log_state_scheme"
  assumes "commit_ready s" "0 < ln s" "outstanding s = 1" "\<not> committing s" "lstart s = sint logstart"
  shows "\<exists>t. end_op s = Ok () t \<and> bio_ok t \<and> ln t = 0 \<and> outstanding t = 0 \<and> (\<forall>b. home (lstart s) b \<longrightarrow> dsk t b = cont s b)
     \<and> (\<forall>d. crashes_again logstart nlog (dsk t) d \<longrightarrow>
          (\<exists>u. boot_recover logstart nlog (reboot d) = Ok () u \<and> (\<forall>b. home (lstart s) b \<longrightarrow> dsk u b = cont s b)))"
proof -
  define W where "W = commit_writes (cont s) (lstart s) (lblock s) (nat (ln s)) (dsk s (lblk (lstart s) 0))"
  have lW: "nat (ln s) < length W" using assms(2) by (simp add: W_def commit_writes_def log_writes_def home_final_def)
  obtain t where t: "end_op s = Ok () t" "bio_ok t" "ln t = 0" "outstanding t = 0" "dsk t = apply_writes W (dsk s)"
    using end_op_ok [OF assms(1-4)] by (auto simp: W_def)
  obtain c where c: "commit s = Ok () c" "wtrace c = wtrace s @ W" using commit_ok [OF assms(1,2)] by (auto simp: W_def)
  have all: "take (length W) (drop (length (wtrace s)) (wtrace c)) = W" using c(2) by simp
  have rec: "\<exists>u. boot_recover logstart nlog (reboot d) = Ok () u \<and> (\<forall>b. home (lstart s) b \<longrightarrow> dsk u b = cont s b)"
    if "crashes_again logstart nlog (dsk t) d" for d
  proof -
    have "crashes_again logstart nlog (apply_writes (take (length W) (drop (length (wtrace s)) (wtrace c))) (dsk s)) d"
      using that t(5) all by simp
    from commit_crash [OF assms(1,2,5) c(1) this] lW show ?thesis by auto
  qed
  have "dsk t b = cont s b" if "home (lstart s) b" for b
    using crash_late(3) [OF commit_transaction [OF assms(1)] that] by (simp add: t(5) W_def)
  then show ?thesis using t rec by blast
qed

theorem commit_durable_witness:
  "\<exists>s0 s t u. boot_recover 2 30 (reboot (\<lambda>_. replicate BSIZE 0)) = Ok () s0 \<and> update_block 50 (replicate BSIZE 7) s0 = Ok () s
     \<and> end_op s = Ok () t \<and> dsk t 50 = replicate BSIZE 7
     \<and> boot_recover 2 30 (reboot (dsk t)) = Ok () u \<and> dsk u 50 = replicate BSIZE 7"
proof -
  obtain s0 s where s: "boot_recover 2 30 (reboot (\<lambda>_. replicate BSIZE 0)) = Ok () s0"
     "update_block 50 (replicate BSIZE 7) s0 = Ok () s" "commit_ready s" "ln s = 1" "outstanding s = 1" "\<not> committing s" "lstart s = 2"
     "cont s 50 = replicate BSIZE 7" "home 2 50"
    using blank_update [of "replicate BSIZE 7"] by auto
  obtain t where t: "end_op s = Ok () t" "\<And>b. home 2 b \<Longrightarrow> dsk t b = cont s b"
      "\<And>d. crashes_again 2 30 (dsk t) d \<Longrightarrow> \<exists>u. boot_recover 2 30 (reboot d) = Ok () u \<and> (\<forall>b. home 2 b \<longrightarrow> dsk u b = cont s b)"
    using commit_durable [OF s(3) _ s(5,6), of 2 30] s(4,7) by auto
  from t(3) [OF crashes_again.none] t(1,2) s show ?thesis by metis
qed



end
