(* ===== verification/Vm.thy ===== *)
theory Vm
  imports Kalloc
begin

text \<open>
  \<^verbatim>\<open>kernel/vm.c\<close>: Sv39 page tables.  Page-table pages live in physical memory and come from the
  page allocator; a page table is the physical address of its root page.  A dereference of the
  null pointer that a failed \<^verbatim>\<open>kalloc\<close> returned ends in \<^verbatim>\<open>kerneltrap\<close>'s panic.
  The kernel side of a copy (\<^verbatim>\<open>src\<close> of \<open>copyout\<close>, \<^verbatim>\<open>dst\<close> of \<open>copyin\<close> and \<open>copyinstr\<close>) is a
  list of bytes.
\<close>

section \<open>Walking and mapping\<close>

definition null_if :: "bool \<Rightarrow> ('s, unit) K" where
  "null_if b = panic_if b ''kerneltrap''"

primrec walk_loop :: "nat \<Rightarrow> u64 \<Rightarrow> u64 \<Rightarrow> bool \<Rightarrow> ('z kalloc_state_scheme, u64) K" where
  "walk_loop 0 pt va alloc = returnK (pt + 8 * PX 0 va)"
| "walk_loop (Suc l) pt va alloc =
     (let pte = pt + 8 * PX (Suc l) va in
      bindK (getmem (\<lambda>m. load64 m pte)) (\<lambda>e.
      if e AND PTE_V \<noteq> 0 then walk_loop l (PTE2PA e) va alloc
      else if \<not> alloc then returnK 0
      else bindK kalloc (\<lambda>p.
        if p = 0 then returnK 0
        else thenK (setmem (\<lambda>m. memset m p 0 PGSIZE))
            (thenK (setmem (\<lambda>m. store64 m pte (PA2PTE p OR PTE_V)))
             (walk_loop l p va alloc)))))"

definition walk :: "u64 \<Rightarrow> u64 \<Rightarrow> bool \<Rightarrow> ('z kalloc_state_scheme, u64) K" where
  "walk pt va alloc = thenK (panic_if (MAXVA \<le> va) ''walk'') (walk_loop 2 pt va alloc)"

definition walkaddr :: "u64 \<Rightarrow> u64 \<Rightarrow> ('z kalloc_state_scheme, u64) K" where
  "walkaddr pt va =
     (if MAXVA \<le> va then returnK 0
      else bindK (walk pt va False) (\<lambda>pte.
        if pte = 0 then returnK 0
        else bindK (getmem (\<lambda>m. load64 m pte)) (\<lambda>e.
          if e AND PTE_V = 0 then returnK 0
          else if e AND PTE_U = 0 then returnK 0
          else returnK (PTE2PA e))))"

text \<open>
  The addresses the loops over pages visit: \<open>a\<close>, \<open>a + PGSIZE\<close>, up to and including the page
  \<^verbatim>\<open>last\<close> in \<open>mappages\<close>, and as long as the address is below \<open>e\<close> elsewhere.  An address that
  wraps around would have made \<open>walk\<close> panic before.
\<close>

definition pages_to :: "u64 \<Rightarrow> u64 \<Rightarrow> u64 list" where
  "pages_to a lst = map (\<lambda>i. a + of_nat i * PGSIZE) [0..<Suc (unat (lst - a) div PGSIZE)]"

definition pages_below :: "u64 \<Rightarrow> u64 \<Rightarrow> u64 list" where
  "pages_below a e = (if a < e then pages_to a (e - 1) else [])"

definition map_one :: "u64 \<Rightarrow> u64 \<Rightarrow> u64 \<Rightarrow> u64 \<Rightarrow> ('z kalloc_state_scheme, int option) K" where
  "map_one pt a pa perm =
     bindK (walk pt a True) (\<lambda>pte.
     if pte = 0 then returnK (Some (- 1))
     else bindK (getmem (\<lambda>m. load64 m pte)) (\<lambda>e.
       thenK (seqK [panic_if (e AND PTE_V \<noteq> 0) ''mappages: remap'',
                    setmem (\<lambda>m. store64 m pte (PA2PTE pa OR perm OR PTE_V))])
       (returnK None)))"

definition mappages :: "u64 \<Rightarrow> u64 \<Rightarrow> u64 \<Rightarrow> u64 \<Rightarrow> u64 \<Rightarrow> ('z kalloc_state_scheme, int) K" where
  "mappages pt va len pa perm =
     thenK (panic_if (len = 0) ''mappages: size'')
     (let a0 = PGROUNDDOWN va; lst = PGROUNDDOWN (va + len - 1) in
      bindK (loopK (pages_to a0 lst) (\<lambda>a. map_one pt a (pa + (a - a0)) perm)) (\<lambda>r.
      returnK (case r of None \<Rightarrow> 0 | Some e \<Rightarrow> e)))"

definition kvmmap :: "u64 \<Rightarrow> u64 \<Rightarrow> u64 \<Rightarrow> u64 \<Rightarrow> u64 \<Rightarrow> ('z kalloc_state_scheme, unit) K" where
  "kvmmap kpgtbl va pa len perm =
     bindK (mappages kpgtbl va len pa perm) (\<lambda>r. panic_if (r \<noteq> 0) ''kvmmap'')"

text \<open>\<^verbatim>\<open>proc_mapstacks\<close> of \<^verbatim>\<open>kernel/proc.c\<close>.\<close>

definition proc_mapstacks :: "u64 \<Rightarrow> ('z kalloc_state_scheme, unit) K" where
  "proc_mapstacks kpgtbl =
     forK [0..<NPROC] (\<lambda>p.
       bindK kalloc (\<lambda>pa.
       thenK (panic_if (pa = 0) ''kalloc'')
             (kvmmap kpgtbl (KSTACK p) pa PGSIZE (PTE_R OR PTE_W))))"

text \<open>\<open>etext\<close> and \<open>trampoline\<close> are the addresses the linker gives these symbols.\<close>

definition kvmmake :: "u64 \<Rightarrow> u64 \<Rightarrow> ('z kalloc_state_scheme, u64) K" where
  "kvmmake etext trampoline =
     bindK kalloc (\<lambda>k.
     thenK (seqK
       [null_if (k = 0),
        setmem (\<lambda>m. memset m k 0 PGSIZE),
        kvmmap k UART0 UART0 PGSIZE (PTE_R OR PTE_W),
        kvmmap k VIRTIO0 VIRTIO0 PGSIZE (PTE_R OR PTE_W),
        kvmmap k PLIC PLIC 0x400000 (PTE_R OR PTE_W),
        kvmmap k KERNBASE KERNBASE (etext - KERNBASE) (PTE_R OR PTE_X),
        kvmmap k etext etext (PHYSTOP - etext) (PTE_R OR PTE_W),
        kvmmap k TRAMPOLINE trampoline PGSIZE (PTE_R OR PTE_X),
        proc_mapstacks k])
     (returnK k))"

section \<open>User memory\<close>

definition unmap_one :: "u64 \<Rightarrow> bool \<Rightarrow> u64 \<Rightarrow> ('z kalloc_state_scheme, unit) K" where
  "unmap_one pt do_free a =
     bindK (walk pt a False) (\<lambda>pte.
     thenK (panic_if (pte = 0) ''uvmunmap: walk'')
     (bindK (getmem (\<lambda>m. load64 m pte)) (\<lambda>e.
      seqK [panic_if (e AND PTE_V = 0) ''uvmunmap: not mapped'',
            panic_if (PTE_FLAGS e = PTE_V) ''uvmunmap: not a leaf'',
            whenK do_free (kfree (PTE2PA e)),
            setmem (\<lambda>m. store64 m pte 0)])))"

definition uvmunmap :: "u64 \<Rightarrow> u64 \<Rightarrow> u64 \<Rightarrow> bool \<Rightarrow> ('z kalloc_state_scheme, unit) K" where
  "uvmunmap pt va npages do_free =
     thenK (panic_if (va mod PGSIZE \<noteq> 0) ''uvmunmap: not aligned'')
           (forK (pages_below va (va + npages * PGSIZE)) (unmap_one pt do_free))"

definition uvmcreate :: "('z kalloc_state_scheme, u64) K" where
  "uvmcreate =
     bindK kalloc (\<lambda>p.
     if p = 0 then returnK 0
     else thenK (setmem (\<lambda>m. memset m p 0 PGSIZE)) (returnK p))"

definition uvminit :: "u64 \<Rightarrow> bytes \<Rightarrow> u32 \<Rightarrow> ('z kalloc_state_scheme, unit) K" where
  "uvminit pt src len =
     thenK (panic_if (PGSIZE \<le> len) ''inituvm: more than a page'')
     (bindK kalloc (\<lambda>p.
      thenK (seqK [null_if (p = 0), setmem (\<lambda>m. memset m p 0 PGSIZE)])
      (thenK (mappages pt 0 PGSIZE p (PTE_W OR PTE_R OR PTE_X OR PTE_U))
       (setmem (\<lambda>m. mwrite m p (take (unat len) src))))))"

text \<open>\<^verbatim>\<open>npages\<close> of \<open>uvmdealloc\<close> is an \<^verbatim>\<open>int\<close>, widened again by the call.\<close>

definition uvmdealloc :: "u64 \<Rightarrow> u64 \<Rightarrow> u64 \<Rightarrow> ('z kalloc_state_scheme, u64) K" where
  "uvmdealloc pt oldsz newsz =
     (if oldsz \<le> newsz then returnK oldsz
      else thenK (whenK (PGROUNDUP newsz < PGROUNDUP oldsz)
                   (let npages = ucast ((PGROUNDUP oldsz - PGROUNDUP newsz) div PGSIZE) :: u32 in
                    uvmunmap pt (PGROUNDUP newsz) (scast npages) True))
           (returnK newsz))"

definition uvmalloc :: "u64 \<Rightarrow> u64 \<Rightarrow> u64 \<Rightarrow> ('z kalloc_state_scheme, u64) K" where
  "uvmalloc pt oldsz newsz =
     (if newsz < oldsz then returnK oldsz
      else let old = PGROUNDUP oldsz in
        bindK (loopK (pages_below old newsz) (\<lambda>a.
          bindK kalloc (\<lambda>p.
          if p = 0 then thenK (uvmdealloc pt a old) (returnK (Some 0))
          else thenK (setmem (\<lambda>m. memset m p 0 PGSIZE))
           (bindK (mappages pt a PGSIZE p (PTE_W OR PTE_X OR PTE_R OR PTE_U)) (\<lambda>r.
            if r \<noteq> 0 then thenK (kfree p) (thenK (uvmdealloc pt a old) (returnK (Some 0)))
            else returnK None))))) (\<lambda>r.
        returnK (case r of None \<Rightarrow> newsz | Some z \<Rightarrow> z)))"

text \<open>
  \<open>freewalk\<close> descends as long as it finds tables; the first argument bounds the depth by the three
  levels \<open>walk\<close> builds (a deeper table would be a cycle, on which the kernel stack overflows).
\<close>

primrec freewalk :: "nat \<Rightarrow> u64 \<Rightarrow> ('z kalloc_state_scheme, unit) K" where
  "freewalk 0 pt = panicK ''kerneltrap''"
| "freewalk (Suc l) pt =
     thenK (forK [0..<512] (\<lambda>i.
       bindK (getmem (\<lambda>m. load64 m (pt + 8 * of_nat i))) (\<lambda>pte.
       if pte AND PTE_V \<noteq> 0 \<and> pte AND (PTE_R OR PTE_W OR PTE_X) = 0
       then thenK (freewalk l (PTE2PA pte)) (setmem (\<lambda>m. store64 m (pt + 8 * of_nat i) 0))
       else panic_if (pte AND PTE_V \<noteq> 0) ''freewalk: leaf'')))
     (kfree pt)"

definition uvmfree :: "u64 \<Rightarrow> u64 \<Rightarrow> ('z kalloc_state_scheme, unit) K" where
  "uvmfree pt len =
     thenK (whenK (0 < len) (uvmunmap pt 0 (PGROUNDUP len div PGSIZE) True)) (freewalk 3 pt)"

definition uvmcopy :: "u64 \<Rightarrow> u64 \<Rightarrow> u64 \<Rightarrow> ('z kalloc_state_scheme, int) K" where
  "uvmcopy old new len =
     bindK (loopK (pages_below 0 len) (\<lambda>i.
       bindK (walk old i False) (\<lambda>pte.
       thenK (panic_if (pte = 0) ''uvmcopy: pte should exist'')
       (bindK (getmem (\<lambda>m. load64 m pte)) (\<lambda>e.
        thenK (panic_if (e AND PTE_V = 0) ''uvmcopy: page not present'')
        (bindK kalloc (\<lambda>p.
         if p = 0 then returnK (Some i)
         else thenK (setmem (\<lambda>m. memmove m p (PTE2PA e) PGSIZE))
          (bindK (mappages new i PGSIZE p (PTE_FLAGS e)) (\<lambda>r.
           if r \<noteq> 0 then thenK (kfree p) (returnK (Some i)) else returnK None))))))))) (\<lambda>r.
     case r of
       None \<Rightarrow> returnK 0
     | Some i \<Rightarrow> thenK (uvmunmap new 0 (i div PGSIZE) True) (returnK (- 1)))"

definition uvmclear :: "u64 \<Rightarrow> u64 \<Rightarrow> ('z kalloc_state_scheme, unit) K" where
  "uvmclear pt va =
     bindK (walk pt va False) (\<lambda>pte.
     thenK (panic_if (pte = 0) ''uvmclear'')
           (setmem (\<lambda>m. store64 m pte (load64 m pte AND NOT PTE_U))))"

section \<open>Copying between kernel and user memory\<close>

lemma page_offset_less: "unat (a - PGROUNDDOWN a) < PGSIZE"
  using PGROUNDDOWN_le [of a] by (simp add: unat_sub unat_PGROUNDDOWN minus_div_mult_eq_mod)

text \<open>The bytes of a copy that are on the page of \<open>va\<close>.\<close>

definition chunk :: "u64 \<Rightarrow> nat \<Rightarrow> nat" where
  "chunk va len = min (PGSIZE - unat (va - PGROUNDDOWN va)) len"

lemma chunk_bounds: "chunk va len \<le> len" "0 < len \<Longrightarrow> 0 < chunk va len" "chunk va len \<le> PGSIZE"
  using page_offset_less [of va] by (auto simp: chunk_def)

function copyout :: "u64 \<Rightarrow> u64 \<Rightarrow> bytes \<Rightarrow> ('z kalloc_state_scheme, int) K" where
  "copyout pt dstva src =
     (if length src = 0 then returnK 0
      else let va0 = PGROUNDDOWN dstva; n = chunk dstva (length src) in
        bindK (walkaddr pt va0) (\<lambda>pa0.
        if pa0 = 0 then returnK (- 1)
        else thenK (setmem (\<lambda>m. mwrite m (pa0 + (dstva - va0)) (take n src)))
                   (copyout pt (va0 + PGSIZE) (drop n src))))"
  by pat_completeness auto
termination
  by (relation "measure (\<lambda>(pt, va, src). length src)") (auto simp: chunk_bounds)

text \<open>\<open>copyin\<close> returns its result and the bytes it has stored at \<^verbatim>\<open>dst\<close>.\<close>

function copyin :: "u64 \<Rightarrow> u64 \<Rightarrow> nat \<Rightarrow> ('z kalloc_state_scheme, int \<times> bytes) K" where
  "copyin pt srcva len =
     (if len = 0 then returnK (0, [])
      else let va0 = PGROUNDDOWN srcva; n = chunk srcva len in
        bindK (walkaddr pt va0) (\<lambda>pa0.
        if pa0 = 0 then returnK (- 1, [])
        else bindK (getmem (\<lambda>m. mread m (pa0 + (srcva - va0)) n)) (\<lambda>bs.
             bindK (copyin pt (va0 + PGSIZE) (len - n)) (\<lambda>(r, rest).
             returnK (r, bs @ rest)))))"
  by pat_completeness auto
termination
  by (relation "measure (\<lambda>(pt, va, len). len)") (auto simp: chunk_bounds)

declare copyout.simps [simp del] copyin.simps [simp del]

text \<open>The inner loop of \<open>copyinstr\<close>: the bytes stored, and whether a null byte ended it.\<close>

primrec instr_page :: "mem \<Rightarrow> u64 \<Rightarrow> nat \<Rightarrow> bytes \<times> bool" where
  "instr_page m p 0 = ([], False)"
| "instr_page m p (Suc n) =
     (if m p = 0 then ([0], True)
      else (let (bs, got_null) = instr_page m (p + 1) n in (m p # bs, got_null)))"

function copyinstr :: "u64 \<Rightarrow> u64 \<Rightarrow> nat \<Rightarrow> ('z kalloc_state_scheme, int \<times> bytes) K" where
  "copyinstr pt srcva mx =
     (if mx = 0 then returnK (- 1, [])
      else let va0 = PGROUNDDOWN srcva; n = chunk srcva mx in
        bindK (walkaddr pt va0) (\<lambda>pa0.
        if pa0 = 0 then returnK (- 1, [])
        else bindK (getmem (\<lambda>m. instr_page m (pa0 + (srcva - va0)) n)) (\<lambda>(bs, got_null).
             if got_null then returnK (0, bs)
             else bindK (copyinstr pt (va0 + PGSIZE) (mx - n)) (\<lambda>(r, rest).
                  returnK (r, bs @ rest)))))"
  by pat_completeness auto
termination
  by (relation "measure (\<lambda>(pt, va, mx). mx)") (auto simp: chunk_bounds)

declare copyinstr.simps [simp del]

section \<open>Copying to or from a user or kernel address\<close>

text \<open>
  \<^verbatim>\<open>either_copyout\<close> and \<^verbatim>\<open>either_copyin\<close> of \<^verbatim>\<open>kernel/proc.c\<close>.  The flag \<^verbatim>\<open>user_dst\<close> and the address
  are one value: a user virtual address, an address of physical memory, which the kernel maps
  at itself, or a variable of the kernel outside of it, given by its bytes when it is a source.
\<close>

datatype addr = UserA u64 | KernA u64 | VarA bytes

primrec advance :: "addr \<Rightarrow> nat \<Rightarrow> addr" where
  "advance (UserA a) n = UserA (a + of_nat n)"
| "advance (KernA a) n = KernA (a + of_nat n)"
| "advance (VarA bs) n = VarA (drop n bs)"

definition either_copyout :: "addr \<Rightarrow> bytes \<Rightarrow> ('z kalloc_state_scheme, int) K" where
  "either_copyout dst src =
     bindK myproc (\<lambda>p.
     case dst of
       UserA a \<Rightarrow> bindK (getK (\<lambda>s. pagetable (procs s p))) (\<lambda>pt. copyout pt a src)
     | KernA a \<Rightarrow> thenK (setmem (\<lambda>m. mwrite m a src)) (returnK 0)
     | VarA _ \<Rightarrow> returnK 0)"

definition either_copyin :: "addr \<Rightarrow> nat \<Rightarrow> ('z kalloc_state_scheme, int \<times> bytes) K" where
  "either_copyin src len =
     bindK myproc (\<lambda>p.
     case src of
       UserA a \<Rightarrow> bindK (getK (\<lambda>s. pagetable (procs s p))) (\<lambda>pt. copyin pt a len)
     | KernA a \<Rightarrow> bindK (getmem (\<lambda>m. mread m a len)) (\<lambda>bs. returnK (0, bs))
     | VarA bs \<Rightarrow> returnK (0, take len bs))"

end
