(* ===== verification/Fs.thy ===== *)
theory Fs
  imports LogSpec Vm
begin

text \<open>
  \<^verbatim>\<open>kernel/fs.c\<close>: the block allocator, inodes, directories and path names, over the log.
  An in-memory inode is an entry of \<open>itab\<close>, named by its index; on disk its fields lie in the
  bytes of its block where the C structure \<^verbatim>\<open>dinode\<close> has them.  C strings are lists of bytes.
\<close>

section \<open>State\<close>

record superblock =
  sb_magic :: u32
  sb_size :: u32
  sb_nblocks :: u32
  sb_ninodes :: u32
  sb_nlog :: u32
  sb_logstart :: u32
  sb_inodestart :: u32
  sb_bmapstart :: u32

record inode =
  i_dev :: u32
  i_num :: u32
  i_ref :: int
  i_valid :: bool
  i_type :: u16
  i_major :: u16
  i_minor :: u16
  i_nlink :: u16
  i_size :: u32
  i_addrs :: "u32 list"

record fs_state = log_state +
  sblk :: superblock
  itab :: "nat \<Rightarrow> inode"

definition get_inode :: "nat \<Rightarrow> ('z fs_state_scheme, inode) K" where
  "get_inode ip = getK (\<lambda>s. itab s ip)"

definition upd_inode :: "nat \<Rightarrow> (inode \<Rightarrow> inode) \<Rightarrow> ('z fs_state_scheme, unit) K" where
  "upd_inode ip f = modifyK (\<lambda>s. s\<lparr>itab := (itab s)(ip := f (itab s ip))\<rparr>)"

section \<open>Layout on disk\<close>

definition IBLOCK :: "u32 \<Rightarrow> superblock \<Rightarrow> u32" where
  "IBLOCK i b = i div IPB + sb_inodestart b"

definition BBLOCK :: "u32 \<Rightarrow> superblock \<Rightarrow> u32" where
  "BBLOCK b sb = b div BPB + sb_bmapstart sb"

definition dec_superblock :: "bytes \<Rightarrow> superblock" where
  "dec_superblock d = \<lparr>sb_magic = get32 d 0, sb_size = get32 d 4, sb_nblocks = get32 d 8, sb_ninodes = get32 d 12,
     sb_nlog = get32 d 16, sb_logstart = get32 d 20, sb_inodestart = get32 d 24, sb_bmapstart = get32 d 28\<rparr>"

text \<open>The byte offset of an inode in its block: \<^verbatim>\<open>(struct dinode*)bp->data + inum%IPB\<close>.\<close>

definition dinode_off :: "u32 \<Rightarrow> nat" where
  "dinode_off inum = unat inum mod IPB * 64"

definition put_addrs :: "bytes \<Rightarrow> nat \<Rightarrow> u32 list \<Rightarrow> bytes" where
  "put_addrs d off as = fold (\<lambda>i d. put32 d (off + 4 * i) (as ! i)) [0..<NDIRECT + 1] d"

definition get_addrs :: "bytes \<Rightarrow> nat \<Rightarrow> u32 list" where
  "get_addrs d off = map (\<lambda>i. get32 d (off + 4 * i)) [0..<NDIRECT + 1]"

definition put_dinode :: "bytes \<Rightarrow> nat \<Rightarrow> inode \<Rightarrow> bytes" where
  "put_dinode d off ip =
     put_addrs (put32 (put16 (put16 (put16 (put16 d off (i_type ip)) (off + 2) (i_major ip)) (off + 4) (i_minor ip))
       (off + 6) (i_nlink ip)) (off + 8) (i_size ip)) (off + 12) (i_addrs ip)"

definition get_dinode :: "bytes \<Rightarrow> nat \<Rightarrow> inode \<Rightarrow> inode" where
  "get_dinode d off ip = ip\<lparr>i_type := get16 d off, i_major := get16 d (off + 2), i_minor := get16 d (off + 4),
     i_nlink := get16 d (off + 6), i_size := get32 d (off + 8), i_addrs := get_addrs d (off + 12)\<rparr>"

section \<open>Superblock and block allocation\<close>

definition readsb :: "int \<Rightarrow> ('z fs_state_scheme, unit) K" where
  "readsb dv =
     bindK (bread (word_of_int dv) 1) (\<lambda>bp.
     bindK (get_buf bp) (\<lambda>b.
     seqK [modifyK (\<lambda>s. s\<lparr>sblk := dec_superblock (data b)\<rparr>), brelse bp]))"

definition fsinit :: "int \<Rightarrow> ('z fs_state_scheme, unit) K" where
  "fsinit dv =
     thenK (readsb dv)
     (bindK (getK sblk) (\<lambda>b.
      seqK [panic_if (sb_magic b \<noteq> FSMAGIC) ''invalid file system'',
            initlog dv (sb_logstart b) (sb_nlog b)]))"

definition bzero :: "u32 \<Rightarrow> u32 \<Rightarrow> ('z fs_state_scheme, unit) K" where
  "bzero dv bno =
     bindK (bread dv bno) (\<lambda>bp.
     seqK [set_data bp (replicate BSIZE 0), log_write bp, brelse bp])"

definition bit_free :: "bytes \<Rightarrow> nat \<Rightarrow> bool" where
  "bit_free d bi \<longleftrightarrow> d ! (bi div 8) AND push_bit (bi mod 8) 1 = 0"

definition set_bit_in :: "bytes \<Rightarrow> nat \<Rightarrow> bytes" where
  "set_bit_in d bi = d[bi div 8 := d ! (bi div 8) OR push_bit (bi mod 8) 1]"

definition clear_bit_in :: "bytes \<Rightarrow> nat \<Rightarrow> bytes" where
  "clear_bit_in d bi = d[bi div 8 := d ! (bi div 8) AND NOT (push_bit (bi mod 8) 1)]"

text \<open>The inner loop of \<open>balloc\<close>: the first free bit of a bitmap block.\<close>

definition free_bit :: "bytes \<Rightarrow> nat \<Rightarrow> nat option" where
  "free_bit d lim = find (bit_free d) [0..<min BPB lim]"

text \<open>One round of the outer loop: the bitmap block of the blocks from \<open>b\<close> on.\<close>

definition balloc_scan :: "u32 \<Rightarrow> superblock \<Rightarrow> nat \<Rightarrow> ('z fs_state_scheme, u32 option) K" where
  "balloc_scan dv sb b =
     bindK (bread dv (BBLOCK (of_nat b) sb)) (\<lambda>bp.
     bindK (get_buf bp) (\<lambda>k.
     case free_bit (data k) (unat (sb_size sb) - b) of
       Some bi \<Rightarrow>
         thenK (seqK [set_data bp (set_bit_in (data k) bi), log_write bp, brelse bp, bzero dv (of_nat (b + bi))])
               (returnK (Some (of_nat (b + bi))))
     | None \<Rightarrow> thenK (brelse bp) (returnK None)))"

definition balloc :: "u32 \<Rightarrow> ('z fs_state_scheme, u32) K" where
  "balloc dv =
     bindK (getK sblk) (\<lambda>sb.
     bindK (loopK (map (\<lambda>k. BPB * k) [0..<(unat (sb_size sb) + (BPB - 1)) div BPB]) (balloc_scan dv sb)) (\<lambda>r.
     case r of Some b \<Rightarrow> returnK b | None \<Rightarrow> panicK ''balloc: out of blocks''))"

definition bfree :: "u32 \<Rightarrow> u32 \<Rightarrow> ('z fs_state_scheme, unit) K" where
  "bfree dv b =
     bindK (getK sblk) (\<lambda>sb.
     bindK (bread dv (BBLOCK b sb)) (\<lambda>bp.
     bindK (get_buf bp) (\<lambda>k.
     let bi = unat b mod BPB in
     seqK [panic_if (bit_free (data k) bi) ''freeing free block'',
           set_data bp (clear_bit_in (data k) bi),
           log_write bp,
           brelse bp])))"

section \<open>Inodes\<close>

definition iinit :: "('z fs_state_scheme, unit) K" where
  "iinit = forK [0..<NINODE] (\<lambda>i. initsleeplock (SlInode i))"

text \<open>The loop of \<open>iget\<close>: the entry that holds the inode, or the first empty entry.\<close>

definition iget_find :: "(nat \<Rightarrow> inode) \<Rightarrow> u32 \<Rightarrow> u32 \<Rightarrow> nat option" where
  "iget_find tab dv inum =
     find (\<lambda>i. 0 < i_ref (tab i) \<and> i_dev (tab i) = dv \<and> i_num (tab i) = inum) [0..<NINODE]"

definition iget_empty :: "(nat \<Rightarrow> inode) \<Rightarrow> nat option" where
  "iget_empty tab = find (\<lambda>i. i_ref (tab i) = 0) [0..<NINODE]"

definition iget :: "u32 \<Rightarrow> u32 \<Rightarrow> ('z fs_state_scheme, nat) K" where
  "iget dv inum =
     thenK (acquire LkItable)
     (bindK (getK itab) (\<lambda>tab.
      case iget_find tab dv inum of
        Some i \<Rightarrow> thenK (seqK [upd_inode i (\<lambda>p. p\<lparr>i_ref := i_ref p + 1\<rparr>), release LkItable]) (returnK i)
      | None \<Rightarrow>
         (case iget_empty tab of
            None \<Rightarrow> panicK ''iget: no inodes''
          | Some i \<Rightarrow>
             thenK (seqK [upd_inode i (\<lambda>p. p\<lparr>i_dev := dv\<rparr>),
                          upd_inode i (\<lambda>p. p\<lparr>i_num := inum\<rparr>),
                          upd_inode i (\<lambda>p. p\<lparr>i_ref := 1\<rparr>),
                          upd_inode i (\<lambda>p. p\<lparr>i_valid := False\<rparr>),
                          release LkItable])
             (returnK i))))"

definition ialloc :: "u32 \<Rightarrow> u16 \<Rightarrow> ('z fs_state_scheme, nat) K" where
  "ialloc dv ty =
     bindK (getK sblk) (\<lambda>sb.
     bindK (loopK [1..<unat (sb_ninodes sb)] (\<lambda>inum.
       bindK (bread dv (IBLOCK (of_nat inum) sb)) (\<lambda>bp.
       bindK (get_buf bp) (\<lambda>k.
       let off = dinode_off (of_nat inum) in
       if get16 (data k) off = 0
       then thenK (seqK [set_data bp (put16 (put_bytes (data k) off (replicate 64 0)) off ty), log_write bp, brelse bp])
            (bindK (iget dv (of_nat inum)) (\<lambda>ip. returnK (Some ip)))
       else thenK (brelse bp) (returnK None))))) (\<lambda>r.
     case r of Some ip \<Rightarrow> returnK ip | None \<Rightarrow> panicK ''ialloc: no inodes''))"

definition iupdate :: "nat \<Rightarrow> ('z fs_state_scheme, unit) K" where
  "iupdate ip =
     bindK (getK sblk) (\<lambda>sb.
     bindK (get_inode ip) (\<lambda>i.
     bindK (bread (i_dev i) (IBLOCK (i_num i) sb)) (\<lambda>bp.
     bindK (get_buf bp) (\<lambda>k.
     seqK [set_data bp (put_dinode (data k) (dinode_off (i_num i)) i), log_write bp, brelse bp]))))"

definition idup :: "nat \<Rightarrow> ('z fs_state_scheme, nat) K" where
  "idup ip =
     thenK (seqK [acquire LkItable, upd_inode ip (\<lambda>p. p\<lparr>i_ref := i_ref p + 1\<rparr>), release LkItable]) (returnK ip)"

definition ilock :: "nat \<Rightarrow> ('z fs_state_scheme, unit) K" where
  "ilock ip =
     bindK (get_inode ip) (\<lambda>i0.
     thenK (seqK [panic_if (i_ref i0 < 1) ''ilock'', acquiresleep (SlInode ip)])
     (bindK (get_inode ip) (\<lambda>i.
      whenK (\<not> i_valid i)
       (bindK (getK sblk) (\<lambda>sb.
        bindK (bread (i_dev i) (IBLOCK (i_num i) sb)) (\<lambda>bp.
        bindK (get_buf bp) (\<lambda>k.
        seqK [upd_inode ip (get_dinode (data k) (dinode_off (i_num i))),
              brelse bp,
              upd_inode ip (\<lambda>p. p\<lparr>i_valid := True\<rparr>),
              bindK (get_inode ip) (\<lambda>j. panic_if (i_type j = 0) ''ilock: no type'')])))))))"

definition iunlock :: "nat \<Rightarrow> ('z fs_state_scheme, unit) K" where
  "iunlock ip =
     bindK (holdingsleep (SlInode ip)) (\<lambda>h.
     bindK (get_inode ip) (\<lambda>i.
     seqK [panic_if (\<not> h \<or> i_ref i < 1) ''iunlock'', releasesleep (SlInode ip)]))"

section \<open>Contents of inodes\<close>

text \<open>\<open>bmap_direct\<close> and the indirect part of \<open>bmap\<close>; writing \<^verbatim>\<open>ip->addrs\<close> is \<open>set_addr\<close>.\<close>

definition set_addr :: "nat \<Rightarrow> nat \<Rightarrow> u32 \<Rightarrow> ('z fs_state_scheme, unit) K" where
  "set_addr ip i a = upd_inode ip (\<lambda>p. p\<lparr>i_addrs := (i_addrs p)[i := a]\<rparr>)"

definition addr_or_alloc :: "nat \<Rightarrow> nat \<Rightarrow> ('z fs_state_scheme, u32) K" where
  "addr_or_alloc ip i =
     bindK (get_inode ip) (\<lambda>p.
     if i_addrs p ! i \<noteq> 0 then returnK (i_addrs p ! i)
     else bindK (balloc (i_dev p)) (\<lambda>a. thenK (set_addr ip i a) (returnK a)))"

definition bmap :: "nat \<Rightarrow> u32 \<Rightarrow> ('z fs_state_scheme, u32) K" where
  "bmap ip bn =
     (if bn < NDIRECT then addr_or_alloc ip (unat bn)
      else if bn - NDIRECT < NINDIRECT then
        (let n = 4 * unat (bn - NDIRECT) in
         bindK (addr_or_alloc ip NDIRECT) (\<lambda>ind.
         bindK (get_inode ip) (\<lambda>p.
         bindK (bread (i_dev p) ind) (\<lambda>bp.
         bindK (get_buf bp) (\<lambda>k.
         if get32 (data k) n \<noteq> 0 then thenK (brelse bp) (returnK (get32 (data k) n))
         else bindK (balloc (i_dev p)) (\<lambda>a.
              thenK (seqK [upd_buf bp (\<lambda>k. k\<lparr>data := put32 (data k) n a\<rparr>), log_write bp, brelse bp])
              (returnK a)))))))
      else panicK ''bmap: out of range'')"

definition itrunc :: "nat \<Rightarrow> ('z fs_state_scheme, unit) K" where
  "itrunc ip =
     seqK
      [forK [0..<NDIRECT] (\<lambda>i.
         bindK (get_inode ip) (\<lambda>p.
         whenK (i_addrs p ! i \<noteq> 0) (seqK [bfree (i_dev p) (i_addrs p ! i), set_addr ip i 0]))),
       bindK (get_inode ip) (\<lambda>p.
         whenK (i_addrs p ! NDIRECT \<noteq> 0)
           (bindK (bread (i_dev p) (i_addrs p ! NDIRECT)) (\<lambda>bp.
            seqK [forK [0..<NINDIRECT] (\<lambda>j.
                    bindK (get_buf bp) (\<lambda>k.
                    whenK (get32 (data k) (4 * j) \<noteq> 0) (bfree (i_dev p) (get32 (data k) (4 * j))))),
                  brelse bp,
                  bfree (i_dev p) (i_addrs p ! NDIRECT),
                  set_addr ip NDIRECT 0]))),
       upd_inode ip (\<lambda>p. p\<lparr>i_size := 0\<rparr>),
       iupdate ip]"

definition iput :: "nat \<Rightarrow> ('z fs_state_scheme, unit) K" where
  "iput ip =
     thenK (acquire LkItable)
     (bindK (get_inode ip) (\<lambda>p.
      seqK [whenK (i_ref p = 1 \<and> i_valid p \<and> i_nlink p = 0)
              (seqK [acquiresleep (SlInode ip),
                     release LkItable,
                     itrunc ip,
                     upd_inode ip (\<lambda>p. p\<lparr>i_type := 0\<rparr>),
                     iupdate ip,
                     upd_inode ip (\<lambda>p. p\<lparr>i_valid := False\<rparr>),
                     releasesleep (SlInode ip),
                     acquire LkItable]),
            upd_inode ip (\<lambda>p. p\<lparr>i_ref := i_ref p - 1\<rparr>),
            release LkItable]))"

definition iunlockput :: "nat \<Rightarrow> ('z fs_state_scheme, unit) K" where
  "iunlockput ip = seqK [iunlock ip, iput ip]"

record stat =
  st_dev :: int
  st_ino :: u32
  st_type :: u16
  st_nlink :: u16
  st_size :: u64

definition stati :: "inode \<Rightarrow> stat" where
  "stati ip = \<lparr>st_dev = sint (i_dev ip), st_ino = i_num ip, st_type = i_type ip, st_nlink = i_nlink ip, st_size = ucast (i_size ip)\<rparr>"

text \<open>
  The loop of \<open>readi\<close>; \<open>k\<close> is \<^verbatim>\<open>n - tot\<close>.  It returns whether every copy succeeded, and the bytes
  it has read, which are the contents of \<^verbatim>\<open>dst\<close> when that is a kernel variable.
\<close>

definition span :: "u32 \<Rightarrow> nat \<Rightarrow> nat" where
  "span off k = min k (BSIZE - unat off mod BSIZE)"

lemma span_bounds: "span off k \<le> k" "0 < k \<Longrightarrow> 0 < span off k"
  by (auto simp: span_def)

function readi_loop :: "nat \<Rightarrow> addr \<Rightarrow> u32 \<Rightarrow> nat \<Rightarrow> ('z fs_state_scheme, bool \<times> bytes) K" where
  "readi_loop ip dst off k =
     (if k = 0 then returnK (True, [])
      else let m = span off k in
        bindK (get_inode ip) (\<lambda>p.
        bindK (bmap ip (off div BSIZE)) (\<lambda>a.
        bindK (bread (i_dev p) a) (\<lambda>bp.
        bindK (get_buf bp) (\<lambda>b.
        let bs = take m (drop (unat off mod BSIZE) (data b)) in
        bindK (either_copyout dst bs) (\<lambda>r.
        if r = - 1 then thenK (brelse bp) (returnK (False, []))
        else thenK (brelse bp)
          (bindK (readi_loop ip (advance dst m) (off + of_nat m) (k - m)) (\<lambda>(ok, rest).
           returnK (ok, bs @ rest)))))))))"
  by pat_completeness auto
termination
  by (relation "measure (\<lambda>(ip, dst, off, k). k)") (auto simp: span_bounds)

declare readi_loop.simps [simp del]

definition readi :: "nat \<Rightarrow> addr \<Rightarrow> u32 \<Rightarrow> u32 \<Rightarrow> ('z fs_state_scheme, int \<times> bytes) K" where
  "readi ip dst off n =
     bindK (get_inode ip) (\<lambda>p.
     if i_size p < off \<or> off + n < off then returnK (0, [])
     else let n' = (if i_size p < off + n then i_size p - off else n) in
       bindK (readi_loop ip dst off (unat n')) (\<lambda>(ok, bs).
       returnK (if ok then sint n' else - 1, bs)))"

text \<open>The loop of \<open>writei\<close> returns \<^verbatim>\<open>tot\<close>.\<close>

function writei_loop :: "nat \<Rightarrow> addr \<Rightarrow> u32 \<Rightarrow> nat \<Rightarrow> ('z fs_state_scheme, nat) K" where
  "writei_loop ip src off k =
     (if k = 0 then returnK 0
      else let m = span off k in
        bindK (get_inode ip) (\<lambda>p.
        bindK (bmap ip (off div BSIZE)) (\<lambda>a.
        bindK (bread (i_dev p) a) (\<lambda>bp.
        bindK (either_copyin src m) (\<lambda>(r, bs).
        thenK (upd_buf bp (\<lambda>b. b\<lparr>data := put_bytes (data b) (unat off mod BSIZE) bs\<rparr>))
        (if r = - 1 then thenK (brelse bp) (returnK 0)
         else thenK (seqK [log_write bp, brelse bp])
          (bindK (writei_loop ip (advance src m) (off + of_nat m) (k - m)) (\<lambda>tot.
           returnK (m + tot)))))))))"
  by pat_completeness auto
termination
  by (relation "measure (\<lambda>(ip, src, off, k). k)") (auto simp: span_bounds)

declare writei_loop.simps [simp del]

definition writei :: "nat \<Rightarrow> addr \<Rightarrow> u32 \<Rightarrow> u32 \<Rightarrow> ('z fs_state_scheme, int) K" where
  "writei ip src off n =
     bindK (get_inode ip) (\<lambda>p.
     if i_size p < off \<or> off + n < off then returnK (- 1)
     else if MAXFILE * BSIZE < off + n then returnK (- 1)
     else bindK (writei_loop ip src off (unat n)) (\<lambda>tot.
       thenK (seqK [upd_inode ip (\<lambda>p. if i_size p < off + of_nat tot then p\<lparr>i_size := off + of_nat tot\<rparr> else p), iupdate ip])
       (returnK (int tot))))"

section \<open>Directories\<close>

definition namecmp :: "bytes \<Rightarrow> bytes \<Rightarrow> int" where
  "namecmp s t = strncmp s t DIRSIZ"

text \<open>The offsets the loops over directory entries visit, and the fields of an entry.\<close>

definition dirent_offs :: "u32 \<Rightarrow> u32 list" where
  "dirent_offs n = map (\<lambda>i. of_nat (16 * i)) [0..<(unat n + 15) div 16]"

definition de_inum :: "bytes \<Rightarrow> u16" where
  "de_inum de = get16 de 0"

definition de_name :: "bytes \<Rightarrow> bytes" where
  "de_name de = drop 2 de"

definition dirlookup :: "nat \<Rightarrow> bytes \<Rightarrow> ('z fs_state_scheme, (nat \<times> u32) option) K" where
  "dirlookup dp name =
     bindK (get_inode dp) (\<lambda>d.
     thenK (panic_if (i_type d \<noteq> T_DIR) ''dirlookup not DIR'')
     (loopK (dirent_offs (i_size d)) (\<lambda>off.
       bindK (readi dp (VarA []) off 16) (\<lambda>(r, de).
       thenK (panic_if (r \<noteq> 16) ''dirlookup read'')
       (if de_inum de = 0 then returnK None
        else if namecmp name (de_name de) = 0
        then bindK (iget (i_dev d) (ucast (de_inum de))) (\<lambda>ip. returnK (Some (ip, off)))
        else returnK None)))))"

definition dirlink :: "nat \<Rightarrow> bytes \<Rightarrow> u32 \<Rightarrow> ('z fs_state_scheme, int) K" where
  "dirlink dp name inum =
     bindK (dirlookup dp name) (\<lambda>found.
     case found of
       Some (ip, _) \<Rightarrow> thenK (iput ip) (returnK (- 1))
     | None \<Rightarrow>
        bindK (get_inode dp) (\<lambda>d.
        bindK (loopK (dirent_offs (i_size d)) (\<lambda>off.
          bindK (readi dp (VarA []) off 16) (\<lambda>(r, de).
          thenK (panic_if (r \<noteq> 16) ''dirlink read'')
          (returnK (if de_inum de = 0 then Some off else None))))) (\<lambda>slot.
        let off = (case slot of Some off \<Rightarrow> off | None \<Rightarrow> of_nat (16 * length (dirent_offs (i_size d))));
            de = nat_le 2 (unat (ucast inum :: u16)) @ strncpy name DIRSIZ in
        bindK (writei dp (VarA de) off 16) (\<lambda>r.
        thenK (panic_if (r \<noteq> 16) ''dirlink'') (returnK 0)))))"

section \<open>Path names\<close>

text \<open>The character \<^verbatim>\<open>/\<close> is 47.  \<open>name\<close> is the buffer of \<open>DIRSIZ\<close> bytes the caller provides.\<close>

definition is_slash :: "u8 \<Rightarrow> bool" where
  "is_slash c \<longleftrightarrow> c = 47"

definition skipelem :: "bytes \<Rightarrow> bytes \<Rightarrow> (bytes \<times> bytes) option" where
  "skipelem path name =
     (let s = dropWhile is_slash path in
      if deref s = 0 then None
      else let elem = takeWhile (\<lambda>c. \<not> is_slash c \<and> c \<noteq> 0) s;
               rest = dropWhile (\<lambda>c. \<not> is_slash c \<and> c \<noteq> 0) s;
               name' = (if DIRSIZ \<le> length elem then take DIRSIZ elem else put_bytes name 0 (elem @ [0])) in
           Some (dropWhile is_slash rest, name'))"

lemma skipelem_shorter:
  assumes "skipelem path name = Some (path', name')" shows "length path' < length path"
proof -
  define s where "s = dropWhile is_slash path"
  define rest where "rest = dropWhile (\<lambda>c. \<not> is_slash c \<and> c \<noteq> 0) s"
  have s: "deref s \<noteq> 0" "path' = dropWhile is_slash rest"
    using assms by (auto simp: skipelem_def Let_def s_def rest_def split: if_splits)
  then obtain c u where cu: "s = c # u" "c \<noteq> 0" by (cases s) auto
  then have "\<not> is_slash c" using hd_dropWhile [of is_slash path] by (metis s_def list.sel(1) list.distinct(1))
  then have "length rest \<le> length u" using cu length_dropWhile_le [of "\<lambda>c. \<not> is_slash c \<and> c \<noteq> 0" u] by (simp add: rest_def)
  moreover have "length path' \<le> length rest" using length_dropWhile_le [of is_slash rest] s(2) by simp
  moreover have "length s \<le> length path" using length_dropWhile_le [of is_slash path] by (simp add: s_def)
  ultimately show ?thesis using cu by simp
qed

function namex_loop :: "nat \<Rightarrow> bytes \<Rightarrow> bool \<Rightarrow> bytes \<Rightarrow> ('z fs_state_scheme, nat option \<times> bytes) K" where
  "namex_loop ip path nameiparent name =
     (case skipelem path name of
        None \<Rightarrow> if nameiparent then thenK (iput ip) (returnK (None, name)) else returnK (Some ip, name)
      | Some (path', name') \<Rightarrow>
          thenK (ilock ip)
          (bindK (get_inode ip) (\<lambda>p.
           if i_type p \<noteq> T_DIR then thenK (iunlockput ip) (returnK (None, name'))
           else if nameiparent \<and> deref path' = 0 then thenK (iunlock ip) (returnK (Some ip, name'))
           else bindK (dirlookup ip name') (\<lambda>r.
             case r of
               None \<Rightarrow> thenK (iunlockput ip) (returnK (None, name'))
             | Some (nxt, _) \<Rightarrow> thenK (iunlockput ip) (namex_loop nxt path' nameiparent name')))))"
  by pat_completeness auto
termination
  by (relation "measure (\<lambda>(ip, path, np, name). length path)") (auto dest: skipelem_shorter)

declare namex_loop.simps [simp del]

definition namex :: "bytes \<Rightarrow> bool \<Rightarrow> bytes \<Rightarrow> ('z fs_state_scheme, nat option \<times> bytes) K" where
  "namex path nameiparent name =
     bindK (if is_slash (deref path) then iget ROOTDEV ROOTINO
            else bindK myproc (\<lambda>p. bindK (getK (\<lambda>s. cwd (procs s p))) (\<lambda>c.
                 case c of None \<Rightarrow> panicK ''kerneltrap'' | Some d \<Rightarrow> idup d)))
     (\<lambda>ip. namex_loop ip path nameiparent name)"

text \<open>The local buffer of \<open>namei\<close> has unspecified contents; they do not matter and are zero here.\<close>

definition namei :: "bytes \<Rightarrow> ('z fs_state_scheme, nat option) K" where
  "namei path = bindK (namex path False (replicate DIRSIZ 0)) (\<lambda>(ip, _). returnK ip)"

definition nameiparent :: "bytes \<Rightarrow> bytes \<Rightarrow> ('z fs_state_scheme, nat option \<times> bytes) K" where
  "nameiparent path name = namex path True name"

end
