(* ===== verification/Console.thy ===== *)
theory Console
  imports Fs
begin

text \<open>
  \<^verbatim>\<open>kernel/uart.c\<close>, \<^verbatim>\<open>kernel/printf.c\<close> and \<^verbatim>\<open>kernel/console.c\<close>.  The 16550 UART is the part of
  the state the driver reads and writes through its registers: the bytes that have arrived and
  were not read, the bytes written to the transmit register, and how many more bytes the device
  takes before it reports that the register is full.  Waiting for that register in a loop
  (\<^verbatim>\<open>uartputc_sync\<close>) ends when the device has sent a byte; a CPU that finds \<^verbatim>\<open>panicked\<close> set
  stops for good.
\<close>

section \<open>State\<close>

abbreviation (input) UART_TX_BUF_SIZE :: "'a::numeral" where "UART_TX_BUF_SIZE \<equiv> 32"
abbreviation (input) INPUT_BUF :: "'a::numeral" where "INPUT_BUF \<equiv> 128"
abbreviation (input) BACKSPACE :: int where "BACKSPACE \<equiv> 0x100"
abbreviation (input) newline :: u8 where "newline \<equiv> 10"

record dev_state = fs_state +
  uart_regs :: "(nat \<times> u8) list"
  uart_in :: bytes
  uart_out :: bytes
  uart_room :: nat
  uart_tx_buf :: bytes
  uart_tx_w :: u64
  uart_tx_r :: u64
  panicked :: bool
  pr_locking :: bool
  cons_buf :: bytes
  cons_r :: u32
  cons_w :: u32
  cons_e :: u32

definition str :: "string \<Rightarrow> bytes" where
  "str s = map of_char s"

definition ctrl :: "char \<Rightarrow> u8" where
  "ctrl c = of_char c - of_char (CHR ''@'')"

section \<open>The UART\<close>

abbreviation (input) IER :: nat where "IER \<equiv> 1"
abbreviation (input) FCR :: nat where "FCR \<equiv> 2"
abbreviation (input) LCR :: nat where "LCR \<equiv> 3"

text \<open>Registers other than the data and status registers are a log of what was written.\<close>

definition WriteReg :: "nat \<Rightarrow> u8 \<Rightarrow> ('z dev_state_scheme, unit) K" where
  "WriteReg reg v = modifyK (\<lambda>s. s\<lparr>uart_regs := uart_regs s @ [(reg, v)]\<rparr>)"

definition write_THR :: "u8 \<Rightarrow> ('z dev_state_scheme, unit) K" where
  "write_THR c = modifyK (\<lambda>s. s\<lparr>uart_out := uart_out s @ [c], uart_room := uart_room s - 1\<rparr>)"

definition uartinit :: "('z dev_state_scheme, unit) K" where
  "uartinit =
     seqK [WriteReg IER 0x00, WriteReg LCR 0x80, WriteReg 0 0x03, WriteReg 1 0x00, WriteReg LCR 0x03,
           WriteReg FCR (0x01 OR 0x06), WriteReg IER (0x02 OR 0x01)]"

definition uartputc_sync :: "u8 \<Rightarrow> ('z dev_state_scheme, unit) K" where
  "uartputc_sync c = bindK (getK panicked) (\<lambda>p. seqK [panic_if p ''panicked'', write_THR c])"

text \<open>
  \<^verbatim>\<open>uart_tx_buf[uart_tx_w % UART_TX_BUF_SIZE] = c; uart_tx_w += 1\<close> and
  \<^verbatim>\<open>c = uart_tx_buf[uart_tx_r % UART_TX_BUF_SIZE]; uart_tx_r += 1\<close>.
\<close>

definition tx_put :: "u8 \<Rightarrow> 'z dev_state_scheme \<Rightarrow> 'z dev_state_scheme" where
  "tx_put c s = s\<lparr>uart_tx_buf := (uart_tx_buf s)[unat (uart_tx_w s mod UART_TX_BUF_SIZE) := c], uart_tx_w := uart_tx_w s + 1\<rparr>"

definition tx_get :: "'z dev_state_scheme \<Rightarrow> u8 \<times> 'z dev_state_scheme" where
  "tx_get s = (uart_tx_buf s ! unat (uart_tx_r s mod UART_TX_BUF_SIZE), s\<lparr>uart_tx_r := uart_tx_r s + 1\<rparr>)"

definition uartstart_step :: "('z dev_state_scheme, unit option) K" where
  "uartstart_step =
     bindK (getK id) (\<lambda>s.
     if uart_tx_w s = uart_tx_r s then returnK (Some ())
     else if uart_room s = 0 then returnK (Some ())
     else thenK (seqK [modifyK (\<lambda>s. snd (tx_get s)), wakeup ChUartTx, write_THR (fst (tx_get s))])
             (returnK None))"

text \<open>Each round that goes on advances \<^verbatim>\<open>uart_tx_r\<close>, so the loop ends within the rounds given.\<close>

definition uartstart :: "('z dev_state_scheme, unit) K" where
  "uartstart =
     bindK (getK (\<lambda>s. unat (uart_tx_w s - uart_tx_r s))) (\<lambda>n.
     thenK (loopK [0..<Suc n] (\<lambda>_. uartstart_step)) (returnK ()))"

definition uartputc :: "u8 \<Rightarrow> ('z dev_state_scheme, unit) K" where
  "uartputc c =
     thenK (acquire LkUart)
     (bindK (getK id) (\<lambda>s.
      thenK (panic_if (panicked s) ''panicked'')
      (if uart_tx_w s = uart_tx_r s + UART_TX_BUF_SIZE then sleep ChUartTx LkUart
       else seqK [modifyK (tx_put c),
                  uartstart,
                  release LkUart])))"

definition uartgetc :: "('z dev_state_scheme, int) K" where
  "uartgetc =
     bindK (getK uart_in) (\<lambda>cs.
     case cs of
       [] \<Rightarrow> returnK (- 1)
     | c # rest \<Rightarrow> thenK (modifyK (\<lambda>s. s\<lparr>uart_in := rest\<rparr>)) (returnK (uint c)))"

section \<open>Formatted output\<close>

definition consputc :: "int \<Rightarrow> ('z dev_state_scheme, unit) K" where
  "consputc c =
     (if c = BACKSPACE then seqK [uartputc_sync 8, uartputc_sync 32, uartputc_sync 8]
      else uartputc_sync (word_of_int c))"

definition putchars :: "bytes \<Rightarrow> ('z dev_state_scheme, unit) K" where
  "putchars cs = forK cs (\<lambda>c. consputc (uint c))"

definition digits :: bytes where
  "digits = str ''0123456789abcdef''"

text \<open>The characters \<^verbatim>\<open>buf\<close> collects in \<open>printint\<close>, lowest digit first.\<close>

function int_digits :: "nat \<Rightarrow> nat \<Rightarrow> bytes" where
  "int_digits base x =
     (if 2 \<le> base \<and> x div base \<noteq> 0 then digits ! (x mod base) # int_digits base (x div base) else [digits ! (x mod base)])"
  by pat_completeness auto
termination
  by (relation "measure snd") (auto intro!: div_less_dividend gr0I)

declare int_digits.simps [simp del]

definition int_buf :: "u32 \<Rightarrow> nat \<Rightarrow> bool \<Rightarrow> bytes" where
  "int_buf xx base sign =
     (let neg = (sign \<and> sint xx < 0); x = (if neg then - xx else xx) in
      int_digits base (unat x) @ (if neg then [45] else []))"

definition printint :: "u32 \<Rightarrow> nat \<Rightarrow> bool \<Rightarrow> ('z dev_state_scheme, unit) K" where
  "printint xx base sign = putchars (rev (int_buf xx base sign))"

definition ptr_digits :: "u64 \<Rightarrow> bytes" where
  "ptr_digits x = map (\<lambda>i. digits ! unat (drop_bit 60 (push_bit (4 * i) x))) [0..<16]"

definition printptr :: "u64 \<Rightarrow> ('z dev_state_scheme, unit) K" where
  "printptr x = seqK [consputc 48, consputc 120, putchars (ptr_digits x)]"

text \<open>The arguments of \<open>printf\<close>; taking one that is missing or of another type is undefined.\<close>

datatype parg = PInt u32 | PPtr u64 | PStr "bytes option"

definition put_arg_int :: "nat \<Rightarrow> parg list \<Rightarrow> ('z dev_state_scheme, unit) K" where
  "put_arg_int base ap = (case ap of PInt x # _ \<Rightarrow> printint x base True | _ \<Rightarrow> ub_if True)"

definition put_arg_ptr :: "parg list \<Rightarrow> ('z dev_state_scheme, unit) K" where
  "put_arg_ptr ap = (case ap of PPtr x # _ \<Rightarrow> printptr x | _ \<Rightarrow> ub_if True)"

definition put_arg_str :: "parg list \<Rightarrow> ('z dev_state_scheme, unit) K" where
  "put_arg_str ap = (case ap of PStr x # _ \<Rightarrow> putchars (case x of None \<Rightarrow> str ''(null)'' | Some s \<Rightarrow> cstr s) | _ \<Rightarrow> ub_if True)"

fun printf_loop :: "bytes \<Rightarrow> parg list \<Rightarrow> ('z dev_state_scheme, unit) K" where
  "printf_loop [] ap = returnK ()"
| "printf_loop (c # fmt) ap =
     (if c = 0 then returnK ()
      else if c \<noteq> of_char (CHR ''%'') then thenK (consputc (uint c)) (printf_loop fmt ap)
      else case fmt of
        [] \<Rightarrow> returnK ()
      | d # fmt' \<Rightarrow>
         if d = 0 then returnK ()
         else if d = of_char (CHR ''d'') then thenK (put_arg_int 10 ap) (printf_loop fmt' (tl ap))
         else if d = of_char (CHR ''x'') then thenK (put_arg_int 16 ap) (printf_loop fmt' (tl ap))
         else if d = of_char (CHR ''p'') then thenK (put_arg_ptr ap) (printf_loop fmt' (tl ap))
         else if d = of_char (CHR ''s'') then thenK (put_arg_str ap) (printf_loop fmt' (tl ap))
         else if d = of_char (CHR ''%'') then thenK (consputc (uint d)) (printf_loop fmt' ap)
         else thenK (seqK [consputc (uint c), consputc (uint d)]) (printf_loop fmt' ap))"

definition printf :: "bytes \<Rightarrow> parg list \<Rightarrow> ('z dev_state_scheme, unit) K" where
  "printf fmt ap =
     bindK (getK pr_locking) (\<lambda>locking.
     seqK [whenK locking (acquire LkPr), printf_loop fmt ap, whenK locking (release LkPr)])"

definition printfinit :: "('z dev_state_scheme, unit) K" where
  "printfinit = modifyK (\<lambda>s. s\<lparr>pr_locking := True\<rparr>)"

text \<open>The text \<^verbatim>\<open>panic\<close> prints; the components above end in the outcome \<open>Panic\<close> directly.\<close>

definition panic :: "string \<Rightarrow> ('z dev_state_scheme, unit) K" where
  "panic msg =
     seqK [modifyK (\<lambda>s. s\<lparr>pr_locking := False\<rparr>),
           printf (str ''panic: '') [],
           printf (str msg) [],
           printf [newline] [],
           modifyK (\<lambda>s. s\<lparr>panicked := True\<rparr>),
           panicK msg]"

section \<open>The console\<close>

definition state_name :: "procstate \<Rightarrow> bytes" where
  "state_name st = (case st of UNUSED \<Rightarrow> str ''unused'' | SLEEPING \<Rightarrow> str ''sleep '' | RUNNABLE \<Rightarrow> str ''runble''
     | RUNNING \<Rightarrow> str ''run   '' | ZOMBIE \<Rightarrow> str ''zombie'' | USED \<Rightarrow> str ''???'')"

definition procdump :: "('z dev_state_scheme, unit) K" where
  "procdump =
     thenK (printf [newline] [])
     (forK [0..<NPROC] (\<lambda>i.
       bindK (getK (\<lambda>s. procs s i)) (\<lambda>p.
       whenK (state p \<noteq> UNUSED)
         (seqK [printf (str ''%d %s %s'') [PInt (word_of_int (pid p)), PStr (Some (state_name (state p))), PStr (Some (pname p))],
                printf [newline] []]))))"

text \<open>\<open>i\<close> is the number of bytes written so far, \<open>k\<close> how many are left.\<close>

primrec consolewrite_loop :: "nat \<Rightarrow> addr \<Rightarrow> int \<Rightarrow> ('z dev_state_scheme, int) K" where
  "consolewrite_loop 0 src i = returnK i"
| "consolewrite_loop (Suc k) src i =
     bindK (either_copyin src 1) (\<lambda>(r, bs).
     if r = - 1 then returnK i
     else thenK (uartputc (bs ! 0)) (consolewrite_loop k (advance src 1) (i + 1)))"

definition consolewrite :: "addr \<Rightarrow> int \<Rightarrow> ('z dev_state_scheme, int) K" where
  "consolewrite src n = consolewrite_loop (nat n) src 0"

text \<open>\<^verbatim>\<open>cons.buf[cons.e++ % INPUT_BUF] = c\<close> and \<^verbatim>\<open>c = cons.buf[cons.r++ % INPUT_BUF]\<close>.\<close>

definition cons_put :: "u8 \<Rightarrow> 'z dev_state_scheme \<Rightarrow> 'z dev_state_scheme" where
  "cons_put c s = s\<lparr>cons_buf := (cons_buf s)[unat (cons_e s mod INPUT_BUF) := c], cons_e := cons_e s + 1\<rparr>"

definition cons_get :: "'z dev_state_scheme \<Rightarrow> u8 \<times> 'z dev_state_scheme" where
  "cons_get s = (cons_buf s ! unat (cons_r s mod INPUT_BUF), s\<lparr>cons_r := cons_r s + 1\<rparr>)"

text \<open>\<open>k\<close> is what is left of \<^verbatim>\<open>n\<close>; the result is \<^verbatim>\<open>n\<close> at the end of the loop, or \<open>None\<close> where it returns -1.\<close>

primrec consoleread_loop :: "nat \<Rightarrow> addr \<Rightarrow> int \<Rightarrow> ('z dev_state_scheme, nat option) K" where
  "consoleread_loop 0 dst target = returnK (Some 0)"
| "consoleread_loop (Suc k) dst target =
     bindK (getK id) (\<lambda>s.
     if cons_r s = cons_w s then
       bindK myproc (\<lambda>p.
       if killed (procs s p) then thenK (release LkCons) (returnK None)
       else thenK (sleep ChConsR LkCons) (returnK None))
     else let c = fst (cons_get s) in
       thenK (modifyK (\<lambda>s. snd (cons_get s)))
       (if c = ctrl CHR ''D'' then
          thenK (whenK (int (Suc k) < target) (modifyK (\<lambda>s. s\<lparr>cons_r := cons_r s - 1\<rparr>))) (returnK (Some (Suc k)))
        else bindK (either_copyout dst [c]) (\<lambda>r.
          if r = - 1 then returnK (Some (Suc k))
          else if c = newline then returnK (Some k)
          else consoleread_loop k (advance dst 1) target)))"

definition consoleread :: "addr \<Rightarrow> int \<Rightarrow> ('z dev_state_scheme, int) K" where
  "consoleread dst n =
     thenK (acquire LkCons)
     (bindK (if n \<le> 0 then returnK (Some 0) else consoleread_loop (nat n) dst n) (\<lambda>r.
      case r of
        None \<Rightarrow> returnK (- 1)
      | Some k \<Rightarrow> thenK (release LkCons) (returnK (if n \<le> 0 then 0 else n - int k))))"

definition kill_line_step :: "('z dev_state_scheme, unit option) K" where
  "kill_line_step =
     bindK (getK id) (\<lambda>s.
     if cons_e s \<noteq> cons_w s \<and> cons_buf s ! unat ((cons_e s - 1) mod INPUT_BUF) \<noteq> newline
     then thenK (seqK [modifyK (\<lambda>s. s\<lparr>cons_e := cons_e s - 1\<rparr>), consputc BACKSPACE]) (returnK None)
     else returnK (Some ()))"

definition store_char :: "u8 \<Rightarrow> ('z dev_state_scheme, unit) K" where
  "store_char c =
     seqK [consputc (uint c),
           modifyK (cons_put c),
           bindK (getK id) (\<lambda>s.
           whenK (c = newline \<or> c = ctrl CHR ''D'' \<or> cons_e s = cons_r s + INPUT_BUF)
             (seqK [modifyK (\<lambda>s. s\<lparr>cons_w := cons_e s\<rparr>), wakeup ChConsR]))]"

definition consoleintr :: "u8 \<Rightarrow> ('z dev_state_scheme, unit) K" where
  "consoleintr c =
     seqK
      [acquire LkCons,
       (if c = ctrl CHR ''P'' then procdump
        else if c = ctrl CHR ''U'' then
          bindK (getK (\<lambda>s. unat (cons_e s - cons_w s))) (\<lambda>n.
          thenK (loopK [0..<Suc n] (\<lambda>_. kill_line_step)) (returnK ()))
        else if c = ctrl CHR ''H'' \<or> c = 0x7f then
          bindK (getK id) (\<lambda>s.
          whenK (cons_e s \<noteq> cons_w s)
            (seqK [modifyK (\<lambda>s. s\<lparr>cons_e := cons_e s - 1\<rparr>), consputc BACKSPACE]))
        else
          bindK (getK id) (\<lambda>s.
          whenK (c \<noteq> 0 \<and> cons_e s - cons_r s < INPUT_BUF)
            (store_char (if c = 13 then newline else c)))),
       release LkCons]"

definition uartintr_step :: "('z dev_state_scheme, unit option) K" where
  "uartintr_step =
     bindK uartgetc (\<lambda>c. if c = - 1 then returnK (Some ()) else thenK (consoleintr (word_of_int c)) (returnK None))"

text \<open>The loop of \<open>uartintr\<close> ends when the bytes that have arrived are used up.\<close>

definition uartintr :: "('z dev_state_scheme, unit) K" where
  "uartintr =
     bindK (getK (\<lambda>s. length (uart_in s))) (\<lambda>n.
     thenK (loopK [0..<Suc n] (\<lambda>_. uartintr_step))
     (seqK [acquire LkUart, uartstart, release LkUart]))"

end
