(* ===== verification/File.thy ===== *)
theory File
  imports Console
begin

text \<open>
  \<^verbatim>\<open>kernel/file.c\<close> and \<^verbatim>\<open>kernel/pipe.c\<close>: the table of open files and pipes.  A \<^verbatim>\<open>struct file\<close> is
  named by its index in the table.  A pipe occupies a page from the page allocator; its fields
  are kept apart from the bytes of that page, in \<open>pipes\<close>, at the page's address.
\<close>

section \<open>State\<close>

abbreviation (input) PIPESIZE :: "'a::numeral" where "PIPESIZE \<equiv> 512"
abbreviation (input) CONSOLE :: nat where "CONSOLE \<equiv> 1"

datatype ftype = FD_NONE | FD_PIPE | FD_INODE | FD_DEVICE

record kfile =
  f_type :: ftype
  f_ref :: int
  f_readable :: bool
  f_writable :: bool
  f_pipe :: u64
  f_ip :: nat
  f_off :: u32
  f_major :: u16

record pipe =
  p_data :: bytes
  nread :: u32
  nwrite :: u32
  readopen :: bool
  writeopen :: bool

text \<open>The functions \<^verbatim>\<open>devsw\<close> can point to.\<close>

datatype read_fn = Fconsoleread
datatype write_fn = Fconsolewrite

record devsw_entry =
  dev_read :: "read_fn option"
  dev_write :: "write_fn option"

record file_state = dev_state +
  ftable :: "nat \<Rightarrow> kfile"
  pipes :: "u64 \<Rightarrow> pipe"
  devsw :: "nat \<Rightarrow> devsw_entry"

text \<open>What the loader leaves: all static data zero; a page of zeros is a pipe with both ends closed.\<close>

definition zero_pipe :: pipe where
  "zero_pipe = \<lparr>p_data = replicate PIPESIZE 0, nread = 0, nwrite = 0, readopen = False, writeopen = False\<rparr>"

definition boot_file :: "u64 \<Rightarrow> (u32 \<Rightarrow> bytes) \<Rightarrow> file_state" where
  "boot_file e d =
     \<lparr>pmem = (\<lambda>_. 0), procs = (\<lambda>_. zero_proc), curproc = None, held = [], kend = e, freelist = 0,
      slks = (\<lambda>_. \<lparr>slocked = 0, spid = 0\<rparr>),
      bufs = (\<lambda>_. \<lparr>valid = False, dev = 0, blockno = 0, refcnt = 0, bprev = 0, bnext = 0, data = replicate BSIZE 0\<rparr>),
      dsk = d, wtrace = [],
      lstart = 0, lsize = 0, outstanding = 0, committing = False, ldev = 0, ln = 0, lblock = replicate LOGSIZE 0,
      sblk = \<lparr>sb_magic = 0, sb_size = 0, sb_nblocks = 0, sb_ninodes = 0, sb_nlog = 0, sb_logstart = 0, sb_inodestart = 0, sb_bmapstart = 0\<rparr>,
      itab = (\<lambda>_. \<lparr>i_dev = 0, i_num = 0, i_ref = 0, i_valid = False, i_type = 0, i_major = 0, i_minor = 0, i_nlink = 0, i_size = 0,
                  i_addrs = replicate 13 0\<rparr>),
      uart_regs = [], uart_in = [], uart_out = [], uart_room = 1, uart_tx_buf = replicate UART_TX_BUF_SIZE 0, uart_tx_w = 0, uart_tx_r = 0,
      panicked = False, pr_locking = False, cons_buf = replicate INPUT_BUF 0, cons_r = 0, cons_w = 0, cons_e = 0,
      ftable = (\<lambda>_. \<lparr>f_type = FD_NONE, f_ref = 0, f_readable = False, f_writable = False, f_pipe = 0, f_ip = 0, f_off = 0, f_major = 0\<rparr>),
      pipes = (\<lambda>_. zero_pipe),
      devsw = (\<lambda>_. \<lparr>dev_read = None, dev_write = None\<rparr>)\<rparr>"

definition get_file :: "nat \<Rightarrow> ('z file_state_scheme, kfile) K" where
  "get_file f = getK (\<lambda>s. ftable s f)"

definition upd_file :: "nat \<Rightarrow> (kfile \<Rightarrow> kfile) \<Rightarrow> ('z file_state_scheme, unit) K" where
  "upd_file f g = modifyK (\<lambda>s. s\<lparr>ftable := (ftable s)(f := g (ftable s f))\<rparr>)"

definition upd_pipe :: "u64 \<Rightarrow> (pipe \<Rightarrow> pipe) \<Rightarrow> ('z file_state_scheme, unit) K" where
  "upd_pipe pi g = modifyK (\<lambda>s. s\<lparr>pipes := (pipes s)(pi := g (pipes s pi))\<rparr>)"

definition consoleinit :: "('z file_state_scheme, unit) K" where
  "consoleinit =
     seqK [uartinit,
           modifyK (\<lambda>s. s\<lparr>devsw := (devsw s)(CONSOLE := (devsw s CONSOLE)\<lparr>dev_read := Some Fconsoleread\<rparr>)\<rparr>),
           modifyK (\<lambda>s. s\<lparr>devsw := (devsw s)(CONSOLE := (devsw s CONSOLE)\<lparr>dev_write := Some Fconsolewrite\<rparr>)\<rparr>)]"

section \<open>Pipes\<close>

definition pipeclose :: "u64 \<Rightarrow> bool \<Rightarrow> ('z file_state_scheme, unit) K" where
  "pipeclose pi writable =
     thenK (seqK
       [acquire (LkPipe pi),
        (if writable then seqK [upd_pipe pi (\<lambda>p. p\<lparr>writeopen := False\<rparr>), wakeup (ChPipeRead pi)]
         else seqK [upd_pipe pi (\<lambda>p. p\<lparr>readopen := False\<rparr>), wakeup (ChPipeWrite pi)])])
     (bindK (getK (\<lambda>s. pipes s pi)) (\<lambda>p.
      if \<not> readopen p \<and> \<not> writeopen p then seqK [release (LkPipe pi), kfree pi]
      else release (LkPipe pi)))"

text \<open>\<^verbatim>\<open>pi->data[pi->nwrite++ % PIPESIZE] = ch\<close> and \<^verbatim>\<open>ch = pi->data[pi->nread++ % PIPESIZE]\<close>.\<close>

definition pipe_put :: "u8 \<Rightarrow> pipe \<Rightarrow> pipe" where
  "pipe_put ch p = p\<lparr>p_data := (p_data p)[unat (nwrite p mod PIPESIZE) := ch], nwrite := nwrite p + 1\<rparr>"

definition pipe_get :: "pipe \<Rightarrow> u8 \<times> pipe" where
  "pipe_get p = (p_data p ! unat (nread p mod PIPESIZE), p\<lparr>nread := nread p + 1\<rparr>)"

text \<open>
  The loop of \<open>pipewrite\<close>, \<open>k\<close> bytes from its end: \<open>None\<close> where it returns -1 with the lock
  released, else the final value of \<^verbatim>\<open>i\<close>.
\<close>

primrec pipewrite_loop :: "nat \<Rightarrow> u64 \<Rightarrow> nat \<Rightarrow> u64 \<Rightarrow> int \<Rightarrow> ('z file_state_scheme, int option) K" where
  "pipewrite_loop 0 pi pr addr i = returnK (Some i)"
| "pipewrite_loop (Suc k) pi pr addr i =
     bindK (getK id) (\<lambda>s.
     let p = pipes s pi in
     if \<not> readopen p \<or> killed (procs s pr) then thenK (release (LkPipe pi)) (returnK None)
     else if nwrite p = nread p + PIPESIZE then
       thenK (seqK [wakeup (ChPipeRead pi), sleep (ChPipeWrite pi) (LkPipe pi)]) (returnK None)
     else bindK (copyin (pagetable (procs s pr)) (addr + word_of_int i) 1) (\<lambda>(r, ch).
       if r = - 1 then returnK (Some i)
       else thenK (upd_pipe pi (pipe_put (ch ! 0)))
                  (pipewrite_loop k pi pr addr (i + 1))))"

definition pipewrite :: "u64 \<Rightarrow> u64 \<Rightarrow> int \<Rightarrow> ('z file_state_scheme, int) K" where
  "pipewrite pi addr n =
     bindK myproc (\<lambda>pr.
     thenK (acquire (LkPipe pi))
     (bindK (pipewrite_loop (nat n) pi pr addr 0) (\<lambda>r.
      case r of
        None \<Rightarrow> returnK (- 1)
      | Some i \<Rightarrow> thenK (seqK [wakeup (ChPipeRead pi), release (LkPipe pi)]) (returnK i))))"

primrec piperead_loop :: "nat \<Rightarrow> u64 \<Rightarrow> nat \<Rightarrow> u64 \<Rightarrow> int \<Rightarrow> ('z file_state_scheme, int) K" where
  "piperead_loop 0 pi pr addr i = returnK i"
| "piperead_loop (Suc k) pi pr addr i =
     bindK (getK id) (\<lambda>s.
     let p = pipes s pi in
     if nread p = nwrite p then returnK i
     else thenK (upd_pipe pi (\<lambda>p. snd (pipe_get p)))
       (bindK (copyout (pagetable (procs s pr)) (addr + word_of_int i) [fst (pipe_get p)]) (\<lambda>r.
        if r = - 1 then returnK i else piperead_loop k pi pr addr (i + 1))))"

definition piperead :: "u64 \<Rightarrow> u64 \<Rightarrow> int \<Rightarrow> ('z file_state_scheme, int) K" where
  "piperead pi addr n =
     bindK myproc (\<lambda>pr.
     thenK (acquire (LkPipe pi))
     (bindK (getK id) (\<lambda>s.
      let p = pipes s pi in
      if nread p = nwrite p \<and> writeopen p then
        (if killed (procs s pr) then thenK (release (LkPipe pi)) (returnK (- 1))
         else thenK (sleep (ChPipeRead pi) (LkPipe pi)) (returnK (- 1)))
      else bindK (piperead_loop (nat n) pi pr addr 0) (\<lambda>i.
        thenK (seqK [wakeup (ChPipeWrite pi), release (LkPipe pi)]) (returnK i)))))"

section \<open>The file table\<close>

definition filealloc :: "('z file_state_scheme, nat option) K" where
  "filealloc =
     thenK (acquire LkFtable)
     (bindK (getK ftable) (\<lambda>tab.
      case find (\<lambda>f. f_ref (tab f) = 0) [0..<NFILE] of
        Some f \<Rightarrow> thenK (seqK [upd_file f (\<lambda>k. k\<lparr>f_ref := 1\<rparr>), release LkFtable]) (returnK (Some f))
      | None \<Rightarrow> thenK (release LkFtable) (returnK None)))"

definition filedup :: "nat \<Rightarrow> ('z file_state_scheme, nat) K" where
  "filedup f =
     thenK (acquire LkFtable)
     (bindK (get_file f) (\<lambda>k.
      thenK (seqK [panic_if (f_ref k < 1) ''filedup'', upd_file f (\<lambda>k. k\<lparr>f_ref := f_ref k + 1\<rparr>), release LkFtable])
      (returnK f)))"

definition fileclose :: "nat \<Rightarrow> ('z file_state_scheme, unit) K" where
  "fileclose f =
     thenK (acquire LkFtable)
     (bindK (get_file f) (\<lambda>k.
      seqK [panic_if (f_ref k < 1) ''fileclose'',
            upd_file f (\<lambda>k. k\<lparr>f_ref := f_ref k - 1\<rparr>),
            (if 0 < f_ref k - 1 then release LkFtable
             else seqK [upd_file f (\<lambda>k. k\<lparr>f_ref := 0\<rparr>),
                        upd_file f (\<lambda>k. k\<lparr>f_type := FD_NONE\<rparr>),
                        release LkFtable,
                        (if f_type k = FD_PIPE then pipeclose (f_pipe k) (f_writable k)
                         else whenK (f_type k = FD_INODE \<or> f_type k = FD_DEVICE)
                                (seqK [begin_op, iput (f_ip k), end_op]))])]))"

text \<open>\<open>pipealloc\<close> returns 0 and the two files, or -1 after giving back what it had obtained.\<close>

definition pipealloc_bad :: "nat option \<Rightarrow> nat option \<Rightarrow> ('z file_state_scheme, int \<times> nat \<times> nat) K" where
  "pipealloc_bad f0 f1 =
     thenK (seqK [(case f0 of None \<Rightarrow> returnK () | Some f \<Rightarrow> fileclose f),
                  (case f1 of None \<Rightarrow> returnK () | Some f \<Rightarrow> fileclose f)])
     (returnK (- 1, 0, 0))"

definition pipealloc :: "('z file_state_scheme, int \<times> nat \<times> nat) K" where
  "pipealloc =
     bindK filealloc (\<lambda>r0.
     case r0 of None \<Rightarrow> pipealloc_bad None None | Some f0 \<Rightarrow>
     bindK filealloc (\<lambda>r1.
     case r1 of None \<Rightarrow> pipealloc_bad (Some f0) None | Some f1 \<Rightarrow>
     bindK kalloc (\<lambda>pi.
     if pi = 0 then pipealloc_bad (Some f0) (Some f1)
     else thenK (seqK [upd_pipe pi (\<lambda>p. p\<lparr>readopen := True\<rparr>),
                       upd_pipe pi (\<lambda>p. p\<lparr>writeopen := True\<rparr>),
                       upd_pipe pi (\<lambda>p. p\<lparr>nwrite := 0\<rparr>),
                       upd_pipe pi (\<lambda>p. p\<lparr>nread := 0\<rparr>),
                       upd_file f0 (\<lambda>k. k\<lparr>f_type := FD_PIPE, f_readable := True, f_writable := False, f_pipe := pi\<rparr>),
                       upd_file f1 (\<lambda>k. k\<lparr>f_type := FD_PIPE, f_readable := False, f_writable := True, f_pipe := pi\<rparr>)])
          (returnK (0, f0, f1)))))"

text \<open>The bytes of a \<^verbatim>\<open>struct stat\<close>; the four bytes of padding are zero here.\<close>

definition enc_stat :: "stat \<Rightarrow> bytes" where
  "enc_stat st = nat_le 4 (unat (word_of_int (st_dev st) :: u32)) @ nat_le 4 (unat (st_ino st)) @ nat_le 2 (unat (st_type st))
     @ nat_le 2 (unat (st_nlink st)) @ replicate 4 0 @ nat_le 8 (unat (st_size st))"

definition filestat :: "nat \<Rightarrow> u64 \<Rightarrow> ('z file_state_scheme, int) K" where
  "filestat f addr =
     bindK myproc (\<lambda>p.
     bindK (get_file f) (\<lambda>k.
     if f_type k = FD_INODE \<or> f_type k = FD_DEVICE then
       thenK (ilock (f_ip k))
       (bindK (get_inode (f_ip k)) (\<lambda>ip.
        thenK (iunlock (f_ip k))
        (bindK (getK (\<lambda>s. pagetable (procs s p))) (\<lambda>pt.
         bindK (copyout pt addr (enc_stat (stati ip))) (\<lambda>r.
         returnK (if r < 0 then - 1 else 0))))))
     else returnK (- 1)))"

definition call_read :: "read_fn \<Rightarrow> addr \<Rightarrow> int \<Rightarrow> ('z file_state_scheme, int) K" where
  "call_read fn dst n = (case fn of Fconsoleread \<Rightarrow> consoleread dst n)"

definition call_write :: "write_fn \<Rightarrow> addr \<Rightarrow> int \<Rightarrow> ('z file_state_scheme, int) K" where
  "call_write fn src n = (case fn of Fconsolewrite \<Rightarrow> consolewrite src n)"

definition dev_entry :: "u16 \<Rightarrow> ('z file_state_scheme, devsw_entry) K" where
  "dev_entry major =
     getK (\<lambda>s. if sint major < 0 \<or> NDEV \<le> sint major then \<lparr>dev_read = None, dev_write = None\<rparr> else devsw s (unat major))"

definition fileread :: "nat \<Rightarrow> u64 \<Rightarrow> int \<Rightarrow> ('z file_state_scheme, int) K" where
  "fileread f addr n =
     bindK (get_file f) (\<lambda>k.
     if \<not> f_readable k then returnK (- 1)
     else case f_type k of
       FD_PIPE \<Rightarrow> piperead (f_pipe k) addr n
     | FD_DEVICE \<Rightarrow> bindK (dev_entry (f_major k)) (\<lambda>d.
         case dev_read d of None \<Rightarrow> returnK (- 1) | Some fn \<Rightarrow> call_read fn (UserA addr) n)
     | FD_INODE \<Rightarrow>
         thenK (ilock (f_ip k))
         (bindK (get_file f) (\<lambda>k'.
          bindK (readi (f_ip k) (UserA addr) (f_off k') (word_of_int n)) (\<lambda>(r, _).
          thenK (seqK [whenK (0 < r) (upd_file f (\<lambda>k. k\<lparr>f_off := f_off k + word_of_int r\<rparr>)), iunlock (f_ip k)])
          (returnK r))))
     | FD_NONE \<Rightarrow> panicK ''fileread'')"

definition filewrite_max :: int where
  "filewrite_max = ((MAXOPBLOCKS - 1 - 1 - 2) div 2) * BSIZE"

text \<open>The loop of \<open>filewrite\<close>; the result is the final value of \<^verbatim>\<open>i\<close>.\<close>

function filewrite_loop :: "nat \<Rightarrow> u64 \<Rightarrow> int \<Rightarrow> int \<Rightarrow> ('z file_state_scheme, int) K" where
  "filewrite_loop f addr n i =
     (if i < n then
        (let n1 = min (n - i) filewrite_max in
         thenK begin_op
         (bindK (get_file f) (\<lambda>k.
          thenK (ilock (f_ip k))
          (bindK (get_file f) (\<lambda>k'.
           bindK (writei (f_ip k) (UserA (addr + word_of_int i)) (f_off k') (word_of_int n1)) (\<lambda>r.
           thenK (seqK [whenK (0 < r) (upd_file f (\<lambda>k. k\<lparr>f_off := f_off k + word_of_int r\<rparr>)), iunlock (f_ip k), end_op])
           (if r \<noteq> n1 then returnK i else filewrite_loop f addr n (i + n1))))))))
      else returnK i)"
  by pat_completeness auto
termination
  by (relation "measure (\<lambda>(f, addr, n, i). nat (n - i))") (auto simp: filewrite_max_def)

declare filewrite_loop.simps [simp del]

definition filewrite :: "nat \<Rightarrow> u64 \<Rightarrow> int \<Rightarrow> ('z file_state_scheme, int) K" where
  "filewrite f addr n =
     bindK (get_file f) (\<lambda>k.
     if \<not> f_writable k then returnK (- 1)
     else case f_type k of
       FD_PIPE \<Rightarrow> pipewrite (f_pipe k) addr n
     | FD_DEVICE \<Rightarrow> bindK (dev_entry (f_major k)) (\<lambda>d.
         case dev_write d of None \<Rightarrow> returnK (- 1) | Some fn \<Rightarrow> call_write fn (UserA addr) n)
     | FD_INODE \<Rightarrow> bindK (filewrite_loop f addr n 0) (\<lambda>i. returnK (if i = n then n else - 1))
     | FD_NONE \<Rightarrow> panicK ''filewrite'')"

end
