(* ===== verification/Proc.thy ===== *)
theory Proc
  imports File
begin

text \<open>
  \<^verbatim>\<open>kernel/proc.c\<close>: creation and end of processes and the scheduler.  A process is named by its
  index in the table.  The trap frame of a process is a page of physical memory; its fields
  are read and written at the offsets \<^verbatim>\<open>struct trapframe\<close> gives them.
\<close>

section \<open>State\<close>

text \<open>\<open>sym_forkret\<close> and \<open>sym_trampoline\<close> are the addresses of \<^verbatim>\<open>forkret\<close> and \<^verbatim>\<open>trampoline\<close>.\<close>

record proc_state = file_state +
  nextpid :: int
  initproc :: "nat option"
  ticks :: u32
  sym_forkret :: u64
  sym_trampoline :: u64

definition get_proc :: "nat \<Rightarrow> ('z kern_scheme, proc) K" where
  "get_proc i = getK (\<lambda>s. procs s i)"

abbreviation (input) tf_kernel_satp :: u64 where "tf_kernel_satp \<equiv> 0"
abbreviation (input) tf_kernel_sp :: u64 where "tf_kernel_sp \<equiv> 8"
abbreviation (input) tf_kernel_trap :: u64 where "tf_kernel_trap \<equiv> 16"
abbreviation (input) tf_epc :: u64 where "tf_epc \<equiv> 24"
abbreviation (input) tf_kernel_hartid :: u64 where "tf_kernel_hartid \<equiv> 32"
abbreviation (input) tf_sp :: u64 where "tf_sp \<equiv> 48"
abbreviation (input) tf_a0 :: u64 where "tf_a0 \<equiv> 112"
abbreviation (input) tf_a1 :: u64 where "tf_a1 \<equiv> 120"
abbreviation (input) tf_a7 :: u64 where "tf_a7 \<equiv> 168"
abbreviation (input) tf_bytes :: nat where "tf_bytes \<equiv> 288"

definition get_tf :: "nat \<Rightarrow> u64 \<Rightarrow> ('z kern_scheme, u64) K" where
  "get_tf i off = getK (\<lambda>s. load64 (pmem s) (trapframe (procs s i) + off))"

definition set_tf :: "nat \<Rightarrow> u64 \<Rightarrow> u64 \<Rightarrow> ('z kern_scheme, unit) K" where
  "set_tf i off v = modifyK (\<lambda>s. s\<lparr>pmem := store64 (pmem s) (trapframe (procs s i) + off) v\<rparr>)"

section \<open>Allocation\<close>

definition procinit :: "('z kern_scheme, unit) K" where
  "procinit = forK [0..<NPROC] (\<lambda>i. upd_proc i (\<lambda>p. p\<lparr>kstack := KSTACK i\<rparr>))"

definition allocpid :: "('z proc_state_scheme, int) K" where
  "allocpid =
     thenK (acquire LkPid)
     (bindK (getK nextpid) (\<lambda>pid.
      thenK (seqK [modifyK (\<lambda>s. s\<lparr>nextpid := nextpid s + 1\<rparr>), release LkPid]) (returnK pid)))"

definition proc_freepagetable :: "u64 \<Rightarrow> u64 \<Rightarrow> ('z kalloc_state_scheme, unit) K" where
  "proc_freepagetable pt len =
     seqK [uvmunmap pt TRAMPOLINE 1 False, uvmunmap pt TRAPFRAME 1 False, uvmfree pt len]"

definition proc_pagetable :: "nat \<Rightarrow> ('z proc_state_scheme, u64) K" where
  "proc_pagetable i =
     bindK uvmcreate (\<lambda>pt.
     if pt = 0 then returnK 0
     else bindK (getK sym_trampoline) (\<lambda>tramp.
          bindK (mappages pt TRAMPOLINE PGSIZE tramp (PTE_R OR PTE_X)) (\<lambda>r.
          if r < 0 then thenK (uvmfree pt 0) (returnK 0)
          else bindK (get_proc i) (\<lambda>p.
               bindK (mappages pt TRAPFRAME PGSIZE (trapframe p) (PTE_R OR PTE_W)) (\<lambda>r.
               if r < 0 then thenK (seqK [uvmunmap pt TRAMPOLINE 1 False, uvmfree pt 0]) (returnK 0)
               else returnK pt)))))"

definition freeproc :: "nat \<Rightarrow> ('z kalloc_state_scheme, unit) K" where
  "freeproc i =
     bindK (get_proc i) (\<lambda>p.
     seqK [whenK (trapframe p \<noteq> 0) (kfree (trapframe p)),
           upd_proc i (\<lambda>p. p\<lparr>trapframe := 0\<rparr>),
           whenK (pagetable p \<noteq> 0) (proc_freepagetable (pagetable p) (sz p)),
           upd_proc i (\<lambda>p. p\<lparr>pagetable := 0\<rparr>),
           upd_proc i (\<lambda>p. p\<lparr>sz := 0\<rparr>),
           upd_proc i (\<lambda>p. p\<lparr>pid := 0\<rparr>),
           upd_proc i (\<lambda>p. p\<lparr>parent := None\<rparr>),
           upd_proc i (\<lambda>p. p\<lparr>pname := (pname p)[0 := 0]\<rparr>),
           upd_proc i (\<lambda>p. p\<lparr>chan := None\<rparr>),
           upd_proc i (\<lambda>p. p\<lparr>killed := False\<rparr>),
           upd_proc i (\<lambda>p. p\<lparr>xstate := 0\<rparr>),
           upd_proc i (\<lambda>p. p\<lparr>state := UNUSED\<rparr>)])"

definition find_unused :: "('z kern_scheme, nat option) K" where
  "find_unused =
     loopK [0..<NPROC] (\<lambda>i.
       thenK (acquire (LkProc i))
       (bindK (get_proc i) (\<lambda>p.
        if state p = UNUSED then returnK (Some i)
        else thenK (release (LkProc i)) (returnK None))))"

definition allocproc :: "('z proc_state_scheme, nat option) K" where
  "allocproc =
     bindK find_unused (\<lambda>found.
     case found of
       None \<Rightarrow> returnK None
     | Some i \<Rightarrow>
        bindK allocpid (\<lambda>n.
        thenK (seqK [upd_proc i (\<lambda>p. p\<lparr>pid := n\<rparr>), upd_proc i (\<lambda>p. p\<lparr>state := USED\<rparr>)])
        (bindK kalloc (\<lambda>tf.
         thenK (upd_proc i (\<lambda>p. p\<lparr>trapframe := tf\<rparr>))
         (if tf = 0 then thenK (seqK [freeproc i, release (LkProc i)]) (returnK None)
          else bindK (proc_pagetable i) (\<lambda>pt.
            thenK (upd_proc i (\<lambda>p. p\<lparr>pagetable := pt\<rparr>))
            (if pt = 0 then thenK (seqK [freeproc i, release (LkProc i)]) (returnK None)
             else bindK (getK sym_forkret) (\<lambda>fr.
               thenK (seqK [upd_proc i (\<lambda>p. p\<lparr>pcontext := \<lparr>ra = 0, sp = 0, callee = replicate 12 0\<rparr>\<rparr>),
                            upd_proc i (\<lambda>p. p\<lparr>pcontext := (pcontext p)\<lparr>ra := fr\<rparr>\<rparr>),
                            upd_proc i (\<lambda>p. p\<lparr>pcontext := (pcontext p)\<lparr>sp := kstack p + PGSIZE\<rparr>\<rparr>)])
               (returnK (Some i))))))))))"

definition initcode :: bytes where
  "initcode =
    [0x17, 0x05, 0x00, 0x00, 0x13, 0x05, 0x45, 0x02, 0x97, 0x05, 0x00, 0x00, 0x93, 0x85, 0x35, 0x02,
     0x93, 0x08, 0x70, 0x00, 0x73, 0x00, 0x00, 0x00, 0x93, 0x08, 0x20, 0x00, 0x73, 0x00, 0x00, 0x00,
     0xef, 0xf0, 0x9f, 0xff, 0x2f, 0x69, 0x6e, 0x69, 0x74, 0x00, 0x00, 0x24, 0x00, 0x00, 0x00, 0x00,
     0x00, 0x00, 0x00, 0x00]"

definition set_name :: "nat \<Rightarrow> bytes \<Rightarrow> ('z kern_scheme, unit) K" where
  "set_name i src = upd_proc i (\<lambda>p. p\<lparr>pname := put_bytes (pname p) 0 (safestrcpy src 16)\<rparr>)"

definition userinit :: "('z proc_state_scheme, unit) K" where
  "userinit =
     bindK allocproc (\<lambda>r.
     thenK (modifyK (\<lambda>s. s\<lparr>initproc := r\<rparr>))
     (case r of
        None \<Rightarrow> panicK ''kerneltrap''
      | Some i \<Rightarrow>
         bindK (get_proc i) (\<lambda>p.
         thenK (seqK [uvminit (pagetable p) initcode (of_nat (length initcode)),
                      upd_proc i (\<lambda>p. p\<lparr>sz := PGSIZE\<rparr>),
                      set_tf i tf_epc 0,
                      set_tf i tf_sp PGSIZE,
                      set_name i (str ''initcode'')])
         (bindK (namei (str ''/'')) (\<lambda>d.
          seqK [upd_proc i (\<lambda>p. p\<lparr>cwd := d\<rparr>),
                upd_proc i (\<lambda>p. p\<lparr>state := RUNNABLE\<rparr>),
                release (LkProc i)])))))"

text \<open>\<^verbatim>\<open>sz\<close> is a \<^verbatim>\<open>uint\<close> in \<open>growproc\<close>.\<close>

definition growproc :: "u32 \<Rightarrow> ('z kalloc_state_scheme, int) K" where
  "growproc n =
     bindK myproc (\<lambda>i.
     bindK (get_proc i) (\<lambda>p.
     let z = ucast (sz p) :: u32 in
     if 0 < sint n then
       bindK (uvmalloc (pagetable p) (ucast z) (ucast (z + n))) (\<lambda>r.
       let z' = ucast r :: u32 in
       if z' = 0 then returnK (- 1)
       else thenK (upd_proc i (\<lambda>p. p\<lparr>sz := ucast z'\<rparr>)) (returnK 0))
     else if sint n < 0 then
       bindK (uvmdealloc (pagetable p) (ucast z) (ucast (z + n))) (\<lambda>r.
       thenK (upd_proc i (\<lambda>p. p\<lparr>sz := ucast (ucast r :: u32)\<rparr>)) (returnK 0))
     else thenK (upd_proc i (\<lambda>p. p\<lparr>sz := ucast z\<rparr>)) (returnK 0)))"

section \<open>fork\<close>

definition copy_files :: "nat \<Rightarrow> nat \<Rightarrow> ('z file_state_scheme, unit) K" where
  "copy_files i np =
     forK [0..<NOFILE] (\<lambda>fd.
       bindK (get_proc i) (\<lambda>p.
       case ofile p fd of
         None \<Rightarrow> returnK ()
       | Some f \<Rightarrow> bindK (filedup f) (\<lambda>g. upd_proc np (\<lambda>q. q\<lparr>ofile := (ofile q)(fd := Some g)\<rparr>))))"

definition fork :: "('z proc_state_scheme, int) K" where
  "fork =
     bindK myproc (\<lambda>i.
     bindK allocproc (\<lambda>r.
     case r of
       None \<Rightarrow> returnK (- 1)
     | Some np \<Rightarrow>
        bindK (get_proc i) (\<lambda>p.
        bindK (get_proc np) (\<lambda>q.
        bindK (uvmcopy (pagetable p) (pagetable q) (sz p)) (\<lambda>c.
        if c < 0 then thenK (seqK [freeproc np, release (LkProc np)]) (returnK (- 1))
        else
          thenK (seqK [upd_proc np (\<lambda>q. q\<lparr>sz := sz p\<rparr>),
                       setmem (\<lambda>m. mwrite m (trapframe q) (mread m (trapframe p) tf_bytes)),
                       set_tf np tf_a0 0,
                       copy_files i np])
          (bindK (case cwd p of None \<Rightarrow> panicK ''kerneltrap'' | Some d \<Rightarrow> idup d) (\<lambda>d.
           thenK (seqK [upd_proc np (\<lambda>q. q\<lparr>cwd := Some d\<rparr>), set_name np (pname p)])
           (bindK (get_proc np) (\<lambda>q.
            thenK (seqK [release (LkProc np),
                         acquire LkWait,
                         upd_proc np (\<lambda>q. q\<lparr>parent := Some i\<rparr>),
                         release LkWait,
                         acquire (LkProc np),
                         upd_proc np (\<lambda>q. q\<lparr>state := RUNNABLE\<rparr>),
                         release (LkProc np)])
            (returnK (pid q)))))))))))"

section \<open>exit and wait\<close>

definition wakeup_proc :: "nat option \<Rightarrow> ('z kern_scheme, unit) K" where
  "wakeup_proc r = (case r of None \<Rightarrow> returnK () | Some i \<Rightarrow> wakeup (ChProc i))"

definition reparent :: "nat \<Rightarrow> ('z proc_state_scheme, unit) K" where
  "reparent i =
     forK [0..<NPROC] (\<lambda>j.
       bindK (get_proc j) (\<lambda>q.
       bindK (getK initproc) (\<lambda>ip.
       whenK (parent q = Some i) (seqK [upd_proc j (\<lambda>q. q\<lparr>parent := ip\<rparr>), wakeup_proc ip]))))"

definition close_files :: "nat \<Rightarrow> ('z file_state_scheme, unit) K" where
  "close_files i =
     forK [0..<NOFILE] (\<lambda>fd.
       bindK (get_proc i) (\<lambda>p.
       case ofile p fd of
         None \<Rightarrow> returnK ()
       | Some f \<Rightarrow> seqK [fileclose f, upd_proc i (\<lambda>p. p\<lparr>ofile := (ofile p)(fd := None)\<rparr>)]))"

text \<open>A process whose parent is gone wakes nobody: no process sleeps on the null channel.\<close>

definition exit :: "int \<Rightarrow> ('z proc_state_scheme, unit) K" where
  "exit status =
     bindK myproc (\<lambda>i.
     bindK (getK initproc) (\<lambda>ip.
     thenK (seqK [panic_if (ip = Some i) ''init exiting'', close_files i, begin_op])
     (bindK (get_proc i) (\<lambda>p.
      thenK (seqK [(case cwd p of None \<Rightarrow> panicK ''kerneltrap'' | Some d \<Rightarrow> iput d),
                   end_op,
                   upd_proc i (\<lambda>p. p\<lparr>cwd := None\<rparr>),
                   acquire LkWait,
                   reparent i])
      (bindK (get_proc i) (\<lambda>p.
       seqK [wakeup_proc (parent p),
             acquire (LkProc i),
             upd_proc i (\<lambda>p. p\<lparr>xstate := status\<rparr>),
             upd_proc i (\<lambda>p. p\<lparr>state := ZOMBIE\<rparr>),
             release LkWait,
             sched,
             panicK ''zombie exit'']))))))"

text \<open>The scan of \<open>wait\<close>: \<open>Some r\<close> where it returns \<open>r\<close> with both locks released.\<close>

definition wait_scan :: "nat \<Rightarrow> u64 \<Rightarrow> ('z kalloc_state_scheme, int option) K" where
  "wait_scan i addr =
     loopK [0..<NPROC] (\<lambda>j.
       bindK (get_proc j) (\<lambda>q.
       if parent q \<noteq> Some i then returnK None
       else thenK (acquire (LkProc j))
         (if state q = ZOMBIE then
            bindK (get_proc i) (\<lambda>p.
            bindK (if addr \<noteq> 0 then copyout (pagetable p) addr (nat_le 4 (unat (word_of_int (xstate q) :: u32))) else returnK 0) (\<lambda>c.
            if c < 0 then thenK (seqK [release (LkProc j), release LkWait]) (returnK (Some (- 1)))
            else thenK (seqK [freeproc j, release (LkProc j), release LkWait]) (returnK (Some (pid q)))))
          else thenK (release (LkProc j)) (returnK None))))"

definition wait :: "u64 \<Rightarrow> ('z kalloc_state_scheme, int) K" where
  "wait addr =
     bindK myproc (\<lambda>i.
     thenK (acquire LkWait)
     (bindK (wait_scan i addr) (\<lambda>r.
      case r of
        Some v \<Rightarrow> returnK v
      | None \<Rightarrow>
         bindK (getK id) (\<lambda>s.
         if \<not> list_ex (\<lambda>j. parent (procs s j) = Some i) [0..<NPROC] \<or> killed (procs s i)
         then thenK (release LkWait) (returnK (- 1))
         else thenK (sleep (ChProc i) LkWait) (returnK (- 1))))))"

section \<open>Scheduling\<close>

text \<open>
  One pass of \<open>scheduler\<close> over the table up to a switch: \<open>scheduler_pick\<close> returns the process it
  switches to, with its lock held; \<open>scheduler_back\<close> is what it does when that process, holding
  its lock, has switched back.
\<close>

definition scheduler_pick :: "nat list \<Rightarrow> ('z kern_scheme, nat option) K" where
  "scheduler_pick is =
     loopK is (\<lambda>i.
       thenK (acquire (LkProc i))
       (bindK (get_proc i) (\<lambda>p.
        if state p = RUNNABLE then
          thenK (seqK [upd_proc i (\<lambda>p. p\<lparr>state := RUNNING\<rparr>), modifyK (\<lambda>s. s\<lparr>curproc := Some i\<rparr>)]) (returnK (Some i))
        else thenK (release (LkProc i)) (returnK None))))"

definition scheduler_back :: "nat \<Rightarrow> ('z kern_scheme, unit) K" where
  "scheduler_back i = seqK [modifyK (\<lambda>s. s\<lparr>curproc := None\<rparr>), release (LkProc i)]"

definition yield :: "('z kern_scheme, unit) K" where
  "yield =
     bindK myproc (\<lambda>i.
     seqK [acquire (LkProc i), upd_proc i (\<lambda>p. p\<lparr>state := RUNNABLE\<rparr>), sched, release (LkProc i)])"

definition kill :: "int \<Rightarrow> ('z kern_scheme, int) K" where
  "kill n =
     bindK (loopK [0..<NPROC] (\<lambda>i.
       thenK (acquire (LkProc i))
       (bindK (get_proc i) (\<lambda>p.
        if pid p = n then
          thenK (seqK [upd_proc i (\<lambda>p. p\<lparr>killed := True\<rparr>),
                       upd_proc i (\<lambda>p. if state p = SLEEPING then p\<lparr>state := RUNNABLE\<rparr> else p),
                       release (LkProc i)])
          (returnK (Some 0))
        else thenK (release (LkProc i)) (returnK None))))) (\<lambda>r.
     returnK (case r of Some v \<Rightarrow> v | None \<Rightarrow> - 1))"

end
