(* ===== verification/Exec.thy ===== *)
theory Exec
  imports Proc
begin

text \<open>
  \<^verbatim>\<open>kernel/exec.c\<close> and the parts of \<^verbatim>\<open>kernel/syscall.c\<close> that fetch arguments.  The argument strings
  of \<open>exec\<close> are given by the addresses of the pages that hold them; the array ends at the null
  pointer, which is not part of the list.
\<close>

section \<open>Fetching arguments\<close>

definition fetchaddr :: "u64 \<Rightarrow> ('z kalloc_state_scheme, int \<times> u64) K" where
  "fetchaddr addr =
     bindK myproc (\<lambda>i.
     bindK (get_proc i) (\<lambda>p.
     if sz p \<le> addr \<or> sz p < addr + 8 then returnK (- 1, 0)
     else bindK (copyin (pagetable p) addr 8) (\<lambda>(r, bs).
          returnK (if r \<noteq> 0 then (- 1, 0) else (0, get64 bs 0)))))"

text \<open>\<open>fetchstr\<close> returns its result and the bytes it has stored in \<^verbatim>\<open>buf\<close>.\<close>

definition fetchstr :: "u64 \<Rightarrow> nat \<Rightarrow> ('z kalloc_state_scheme, int \<times> bytes) K" where
  "fetchstr addr mx =
     bindK myproc (\<lambda>i.
     bindK (get_proc i) (\<lambda>p.
     bindK (copyinstr (pagetable p) addr mx) (\<lambda>(err, buf).
     returnK (if err < 0 then (err, buf) else (int (strlen buf), buf)))))"

definition argraw :: "nat \<Rightarrow> ('z kalloc_state_scheme, u64) K" where
  "argraw n =
     bindK myproc (\<lambda>i.
     if n \<le> 5 then get_tf i (tf_a0 + 8 * of_nat n) else panicK ''argraw'')"

definition argint :: "nat \<Rightarrow> ('z kalloc_state_scheme, u32) K" where
  "argint n = bindK (argraw n) (\<lambda>v. returnK (ucast v))"

definition argaddr :: "nat \<Rightarrow> ('z kalloc_state_scheme, u64) K" where
  "argaddr n = argraw n"

definition argstr :: "nat \<Rightarrow> nat \<Rightarrow> ('z kalloc_state_scheme, int \<times> bytes) K" where
  "argstr n mx = bindK (argaddr n) (\<lambda>addr. fetchstr addr mx)"

section \<open>Loading a program\<close>

abbreviation (input) ELF_MAGIC :: u32 where "ELF_MAGIC \<equiv> 0x464C457F"
abbreviation (input) ELF_PROG_LOAD :: u32 where "ELF_PROG_LOAD \<equiv> 1"

record elfhdr =
  e_magic :: u32
  e_entry :: u64
  e_phoff :: u64
  e_phnum :: u16

definition dec_elfhdr :: "bytes \<Rightarrow> elfhdr" where
  "dec_elfhdr d = \<lparr>e_magic = get32 d 0, e_entry = get64 d 24, e_phoff = get64 d 32, e_phnum = get16 d 56\<rparr>"

record proghdr =
  ph_type :: u32
  ph_off :: u64
  ph_vaddr :: u64
  ph_filesz :: u64
  ph_memsz :: u64

definition dec_proghdr :: "bytes \<Rightarrow> proghdr" where
  "dec_proghdr d = \<lparr>ph_type = get32 d 0, ph_off = get64 d 8, ph_vaddr = get64 d 16, ph_filesz = get64 d 32, ph_memsz = get64 d 40\<rparr>"

definition loadseg :: "u64 \<Rightarrow> u64 \<Rightarrow> nat \<Rightarrow> u32 \<Rightarrow> u32 \<Rightarrow> ('z fs_state_scheme, int) K" where
  "loadseg pt va ip offset len =
     bindK (loopK (map (\<lambda>k. of_nat (k * PGSIZE)) [0..<(unat len + (PGSIZE - 1)) div PGSIZE]) (\<lambda>i :: u32.
       bindK (walkaddr pt (va + ucast i)) (\<lambda>pa.
       thenK (panic_if (pa = 0) ''loadseg: address should exist'')
       (let n = (if len - i < PGSIZE then len - i else PGSIZE) in
        bindK (readi ip (KernA pa) (offset + i) n) (\<lambda>(r, _).
        returnK (if word_of_int r \<noteq> n then Some (- 1) else None)))))) (\<lambda>r.
     returnK (case r of Some v \<Rightarrow> v | None \<Rightarrow> 0))"

text \<open>The loop over the program headers, with \<open>k\<close> headers left: whether it went through, and \<^verbatim>\<open>sz\<close>.\<close>

primrec load_segments :: "nat \<Rightarrow> nat \<Rightarrow> u64 \<Rightarrow> u32 \<Rightarrow> u64 \<Rightarrow> ('z fs_state_scheme, bool \<times> u64) K" where
  "load_segments 0 ip pt off z = returnK (True, z)"
| "load_segments (Suc k) ip pt off z =
     bindK (readi ip (VarA []) off 56) (\<lambda>(r, bs).
     let ph = dec_proghdr bs in
     if r \<noteq> 56 then returnK (False, z)
     else if ph_type ph \<noteq> ELF_PROG_LOAD then load_segments k ip pt (off + 56) z
     else if ph_memsz ph < ph_filesz ph then returnK (False, z)
     else if ph_vaddr ph + ph_memsz ph < ph_vaddr ph then returnK (False, z)
     else bindK (uvmalloc pt z (ph_vaddr ph + ph_memsz ph)) (\<lambda>sz1.
       if sz1 = 0 then returnK (False, z)
       else if ph_vaddr ph mod PGSIZE \<noteq> 0 then returnK (False, sz1)
       else bindK (loadseg pt (ph_vaddr ph) ip (ucast (ph_off ph)) (ucast (ph_filesz ph))) (\<lambda>l.
         if l < 0 then returnK (False, sz1) else load_segments k ip pt (off + 56) sz1)))"

text \<open>Pushing the argument strings: the final \<^verbatim>\<open>sp\<close> and \<^verbatim>\<open>ustack\<close>, or \<open>None\<close> for \<^verbatim>\<open>goto bad\<close>.\<close>

definition mem_str :: "mem \<Rightarrow> u64 \<Rightarrow> bytes" where
  "mem_str m a = cstr (mread m a PGSIZE)"

fun push_args :: "u64 \<Rightarrow> u64 \<Rightarrow> u64 list \<Rightarrow> u64 \<Rightarrow> u64 list \<Rightarrow> ('z kalloc_state_scheme, (u64 \<times> u64 list) option) K" where
  "push_args pt stackbase [] stp ustack = returnK (Some (stp, ustack))"
| "push_args pt stackbase (a # argv) stp ustack =
     (if MAXARG \<le> length ustack then returnK None
      else bindK (getmem (\<lambda>m. mem_str m a)) (\<lambda>arg.
        let sp1 = stp - of_nat (length arg + 1); sp2 = sp1 - sp1 mod 16 in
        if sp2 < stackbase then returnK None
        else bindK (copyout pt sp2 (arg @ [0])) (\<lambda>r.
          if r < 0 then returnK None else push_args pt stackbase argv sp2 (ustack @ [sp2]))))"

fun last_elem :: "bytes \<Rightarrow> bytes \<Rightarrow> bytes" where
  "last_elem lst [] = lst"
| "last_elem lst (c # s) = (if c = 0 then lst else last_elem (if is_slash c then s else lst) s)"

definition exec_bad :: "u64 \<Rightarrow> u64 \<Rightarrow> nat option \<Rightarrow> ('z proc_state_scheme, int) K" where
  "exec_bad pt z ip =
     thenK (seqK [whenK (pt \<noteq> 0) (proc_freepagetable pt z),
                  (case ip of None \<Rightarrow> returnK () | Some i \<Rightarrow> seqK [iunlockput i, end_op])])
     (returnK (- 1))"

text \<open>The second half of \<open>exec\<close>: the user stack and the switch to the new image.\<close>

definition exec_commit :: "nat \<Rightarrow> bytes \<Rightarrow> u64 \<Rightarrow> u64 \<Rightarrow> u64 \<Rightarrow> u64 \<Rightarrow> ('z proc_state_scheme, unit) K" where
  "exec_commit i path pt z entry stp =
     bindK (get_proc i) (\<lambda>p.
     seqK [set_tf i tf_a1 stp,
           set_name i (last_elem path path),
           upd_proc i (\<lambda>p. p\<lparr>pagetable := pt\<rparr>),
           upd_proc i (\<lambda>p. p\<lparr>sz := z\<rparr>),
           set_tf i tf_epc entry,
           set_tf i tf_sp stp,
           proc_freepagetable (pagetable p) (sz p)])"

definition exec_stack :: "nat \<Rightarrow> bytes \<Rightarrow> u64 list \<Rightarrow> u64 \<Rightarrow> u64 \<Rightarrow> u64 \<Rightarrow> ('z proc_state_scheme, int) K" where
  "exec_stack i path argv pt sz0 entry =
     (let z = PGROUNDUP sz0 in
      bindK (uvmalloc pt z (z + 2 * PGSIZE)) (\<lambda>sz1.
      if sz1 = 0 then exec_bad pt z None
      else thenK (uvmclear pt (sz1 - 2 * PGSIZE))
        (bindK (push_args pt (sz1 - PGSIZE) argv sz1 []) (\<lambda>r.
         case r of
           None \<Rightarrow> exec_bad pt sz1 None
         | Some (sp1, ustack) \<Rightarrow>
             thenK (ub_if (MAXARG \<le> length ustack))
             (let argc = length ustack; sp2 = sp1 - of_nat (argc + 1) * 8; sp3 = sp2 - sp2 mod 16 in
              if sp3 < sz1 - PGSIZE then exec_bad pt sz1 None
              else bindK (copyout pt sp3 (concat (map (\<lambda>a. nat_le 8 (unat a)) (ustack @ [0])))) (\<lambda>c.
                if c < 0 then exec_bad pt sz1 None
                else thenK (exec_commit i path pt sz1 entry sp3) (returnK (int argc))))))))"

definition exec :: "bytes \<Rightarrow> u64 list \<Rightarrow> ('z proc_state_scheme, int) K" where
  "exec path argv =
     bindK myproc (\<lambda>i.
     thenK begin_op
     (bindK (namei path) (\<lambda>r.
      case r of
        None \<Rightarrow> thenK end_op (returnK (- 1))
      | Some ip \<Rightarrow>
         thenK (ilock ip)
         (bindK (readi ip (VarA []) 0 64) (\<lambda>(n, bs).
          let elf = dec_elfhdr bs in
          if n \<noteq> 64 then exec_bad 0 0 (Some ip)
          else if e_magic elf \<noteq> ELF_MAGIC then exec_bad 0 0 (Some ip)
          else bindK (proc_pagetable i) (\<lambda>pt.
            if pt = 0 then exec_bad 0 0 (Some ip)
            else bindK (load_segments (unat (e_phnum elf)) ip pt (ucast (e_phoff elf)) 0) (\<lambda>(ok, z).
              if \<not> ok then exec_bad pt z (Some ip)
              else thenK (seqK [iunlockput ip, end_op]) (exec_stack i path argv pt z (e_entry elf)))))))))"

end
