(* ===== verification/Sysfile.thy ===== *)
theory Sysfile
  imports Exec
begin

text \<open>
  \<^verbatim>\<open>kernel/sysfile.c\<close>: the system calls on files.  Each takes its arguments from the trap frame of
  the running process and returns the 64-bit value that goes back to user space; an \<^verbatim>\<open>int\<close> result
  is sign-extended by \<open>ret\<close>.
\<close>

section \<open>Descriptors\<close>

definition ret :: "int \<Rightarrow> ('s, u64) K" where
  "ret v = returnK (word_of_int v)"

text \<open>\<open>None\<close> is the result -1; else the descriptor and the file.\<close>

definition argfd :: "nat \<Rightarrow> ('z kalloc_state_scheme, (nat \<times> nat) option) K" where
  "argfd n =
     bindK (argint n) (\<lambda>fd.
     bindK myproc (\<lambda>i.
     bindK (get_proc i) (\<lambda>p.
     if sint fd < 0 \<or> NOFILE \<le> sint fd then returnK None
     else returnK (case ofile p (unat fd) of None \<Rightarrow> None | Some f \<Rightarrow> Some (unat fd, f)))))"

definition set_ofile :: "nat \<Rightarrow> nat \<Rightarrow> nat option \<Rightarrow> ('z kern_scheme, unit) K" where
  "set_ofile i fd f = upd_proc i (\<lambda>p. p\<lparr>ofile := (ofile p)(fd := f)\<rparr>)"

definition fdalloc :: "nat \<Rightarrow> ('z kern_scheme, int) K" where
  "fdalloc f =
     bindK myproc (\<lambda>i.
     bindK (get_proc i) (\<lambda>p.
     case find (\<lambda>fd. ofile p fd = None) [0..<NOFILE] of
       Some fd \<Rightarrow> thenK (set_ofile i fd (Some f)) (returnK (int fd))
     | None \<Rightarrow> returnK (- 1)))"

definition sys_dup :: "('z file_state_scheme, u64) K" where
  "sys_dup =
     bindK (argfd 0) (\<lambda>r.
     case r of None \<Rightarrow> ret (- 1) | Some (_, f) \<Rightarrow>
     bindK (fdalloc f) (\<lambda>fd.
     if fd < 0 then ret (- 1) else thenK (filedup f) (ret fd)))"

definition sys_read :: "('z file_state_scheme, u64) K" where
  "sys_read =
     bindK (argfd 0) (\<lambda>r.
     case r of None \<Rightarrow> ret (- 1) | Some (_, f) \<Rightarrow>
     bindK (argint 2) (\<lambda>n.
     bindK (argaddr 1) (\<lambda>p.
     bindK (fileread f p (sint n)) ret)))"

definition sys_write :: "('z file_state_scheme, u64) K" where
  "sys_write =
     bindK (argfd 0) (\<lambda>r.
     case r of None \<Rightarrow> ret (- 1) | Some (_, f) \<Rightarrow>
     bindK (argint 2) (\<lambda>n.
     bindK (argaddr 1) (\<lambda>p.
     bindK (filewrite f p (sint n)) ret)))"

definition sys_close :: "('z file_state_scheme, u64) K" where
  "sys_close =
     bindK (argfd 0) (\<lambda>r.
     case r of None \<Rightarrow> ret (- 1) | Some (fd, f) \<Rightarrow>
     bindK myproc (\<lambda>i.
     thenK (seqK [set_ofile i fd None, fileclose f]) (ret 0)))"

definition sys_fstat :: "('z file_state_scheme, u64) K" where
  "sys_fstat =
     bindK (argfd 0) (\<lambda>r.
     case r of None \<Rightarrow> ret (- 1) | Some (_, f) \<Rightarrow>
     bindK (argaddr 1) (\<lambda>st.
     bindK (filestat f st) ret))"

section \<open>Links\<close>

text \<open>The buffer \<^verbatim>\<open>name\<close> of the callers of \<open>nameiparent\<close> starts with unspecified bytes, zero here.\<close>

definition name_buf :: bytes where
  "name_buf = replicate DIRSIZ 0"

definition link_bad :: "nat \<Rightarrow> ('z fs_state_scheme, u64) K" where
  "link_bad ip =
     thenK (seqK [ilock ip, upd_inode ip (\<lambda>p. p\<lparr>i_nlink := i_nlink p - 1\<rparr>), iupdate ip, iunlockput ip, end_op]) (ret (- 1))"

definition sys_link :: "('z fs_state_scheme, u64) K" where
  "sys_link =
     bindK (argstr 0 MAXPATH) (\<lambda>(r0, old).
     if r0 < 0 then ret (- 1) else
     bindK (argstr 1 MAXPATH) (\<lambda>(r1, new).
     if r1 < 0 then ret (- 1) else
     thenK begin_op
     (bindK (namei old) (\<lambda>r.
      case r of None \<Rightarrow> thenK end_op (ret (- 1)) | Some ip \<Rightarrow>
      thenK (ilock ip)
      (bindK (get_inode ip) (\<lambda>i.
       if i_type i = T_DIR then thenK (seqK [iunlockput ip, end_op]) (ret (- 1))
       else
        thenK (seqK [upd_inode ip (\<lambda>p. p\<lparr>i_nlink := i_nlink p + 1\<rparr>), iupdate ip, iunlock ip])
        (bindK (nameiparent new name_buf) (\<lambda>(d, name).
         case d of None \<Rightarrow> link_bad ip | Some dp \<Rightarrow>
         thenK (ilock dp)
         (bindK (get_inode dp) (\<lambda>dpi.
          bindK (get_inode ip) (\<lambda>ipi.
          bindK (if i_dev dpi \<noteq> i_dev ipi then returnK (- 1) else dirlink dp name (i_num ipi)) (\<lambda>l.
          if l < 0 then thenK (iunlockput dp) (link_bad ip)
          else thenK (seqK [iunlockput dp, iput ip, end_op]) (ret 0)))))))))))))"

definition isdirempty :: "nat \<Rightarrow> ('z fs_state_scheme, bool) K" where
  "isdirempty dp =
     bindK (get_inode dp) (\<lambda>d.
     bindK (loopK (drop 2 (dirent_offs (i_size d))) (\<lambda>off.
       bindK (readi dp (VarA []) off 16) (\<lambda>(r, de).
       thenK (panic_if (r \<noteq> 16) ''isdirempty: readi'')
       (returnK (if de_inum de \<noteq> 0 then Some () else None))))) (\<lambda>r.
     returnK (r = None)))"

definition unlink_bad :: "nat \<Rightarrow> ('z fs_state_scheme, u64) K" where
  "unlink_bad dp = thenK (seqK [iunlockput dp, end_op]) (ret (- 1))"

definition sys_unlink :: "('z fs_state_scheme, u64) K" where
  "sys_unlink =
     bindK (argstr 0 MAXPATH) (\<lambda>(r0, path).
     if r0 < 0 then ret (- 1) else
     thenK begin_op
     (bindK (nameiparent path name_buf) (\<lambda>(d, name).
      case d of None \<Rightarrow> thenK end_op (ret (- 1)) | Some dp \<Rightarrow>
      thenK (ilock dp)
      (if namecmp name (str ''.'') = 0 \<or> namecmp name (str ''..'') = 0 then unlink_bad dp
       else bindK (dirlookup dp name) (\<lambda>r.
         case r of None \<Rightarrow> unlink_bad dp | Some (ip, off) \<Rightarrow>
         thenK (ilock ip)
         (bindK (get_inode ip) (\<lambda>i.
          thenK (panic_if (sint (i_nlink i) < 1) ''unlink: nlink < 1'')
          (bindK (if i_type i = T_DIR then isdirempty ip else returnK True) (\<lambda>empty.
           if \<not> empty then thenK (iunlockput ip) (unlink_bad dp)
           else bindK (writei dp (VarA (replicate 16 0)) off 16) (\<lambda>w.
             thenK (seqK [panic_if (w \<noteq> 16) ''unlink: writei'',
                          whenK (i_type i = T_DIR) (seqK [upd_inode dp (\<lambda>p. p\<lparr>i_nlink := i_nlink p - 1\<rparr>), iupdate dp]),
                          iunlockput dp,
                          upd_inode ip (\<lambda>p. p\<lparr>i_nlink := i_nlink p - 1\<rparr>),
                          iupdate ip,
                          iunlockput ip,
                          end_op])
             (ret 0)))))))))))"

section \<open>Creation and opening\<close>

definition create :: "bytes \<Rightarrow> u16 \<Rightarrow> u16 \<Rightarrow> u16 \<Rightarrow> ('z fs_state_scheme, nat option) K" where
  "create path ty major minor =
     bindK (nameiparent path name_buf) (\<lambda>(d, name).
     case d of None \<Rightarrow> returnK None | Some dp \<Rightarrow>
     thenK (ilock dp)
     (bindK (dirlookup dp name) (\<lambda>r.
      case r of
        Some (ip, _) \<Rightarrow>
          thenK (seqK [iunlockput dp, ilock ip])
          (bindK (get_inode ip) (\<lambda>i.
           if ty = T_FILE \<and> (i_type i = T_FILE \<or> i_type i = T_DEVICE) then returnK (Some ip)
           else thenK (iunlockput ip) (returnK None)))
      | None \<Rightarrow>
          bindK (get_inode dp) (\<lambda>dpi.
          bindK (ialloc (i_dev dpi) ty) (\<lambda>ip.
          thenK (seqK [ilock ip,
                       upd_inode ip (\<lambda>p. p\<lparr>i_major := major\<rparr>),
                       upd_inode ip (\<lambda>p. p\<lparr>i_minor := minor\<rparr>),
                       upd_inode ip (\<lambda>p. p\<lparr>i_nlink := 1\<rparr>),
                       iupdate ip])
          (bindK (get_inode ip) (\<lambda>ipi.
           thenK (whenK (ty = T_DIR)
                   (seqK [upd_inode dp (\<lambda>p. p\<lparr>i_nlink := i_nlink p + 1\<rparr>),
                          iupdate dp,
                          bindK (dirlink ip (str ''.'') (i_num ipi)) (\<lambda>l. panic_if (l < 0) ''create dots''),
                          bindK (dirlink ip (str ''..'') (i_num dpi)) (\<lambda>l. panic_if (l < 0) ''create dots'')]))
           (bindK (dirlink dp name (i_num ipi)) (\<lambda>l.
            thenK (seqK [panic_if (l < 0) ''create: dirlink'', iunlockput dp]) (returnK (Some ip)))))))))))"

text \<open>The inode \<open>sys_open\<close> opens, locked; \<open>None\<close> where it has called \<open>end_op\<close> and returns -1.\<close>

definition open_inode :: "bytes \<Rightarrow> u32 \<Rightarrow> ('z fs_state_scheme, nat option) K" where
  "open_inode path omode =
     (if omode AND O_CREATE \<noteq> 0 then
        bindK (create path T_FILE 0 0) (\<lambda>r.
        case r of None \<Rightarrow> thenK end_op (returnK None) | Some ip \<Rightarrow> returnK (Some ip))
      else
        bindK (namei path) (\<lambda>r.
        case r of None \<Rightarrow> thenK end_op (returnK None) | Some ip \<Rightarrow>
        thenK (ilock ip)
        (bindK (get_inode ip) (\<lambda>i.
         if i_type i = T_DIR \<and> omode \<noteq> O_RDONLY then thenK (seqK [iunlockput ip, end_op]) (returnK None)
         else returnK (Some ip)))))"

definition open_file :: "nat \<Rightarrow> nat \<Rightarrow> inode \<Rightarrow> u32 \<Rightarrow> kfile \<Rightarrow> kfile" where
  "open_file f ip i omode k =
     (let k1 = (if i_type i = T_DEVICE then k\<lparr>f_type := FD_DEVICE, f_major := i_major i\<rparr>
                else k\<lparr>f_type := FD_INODE, f_off := 0\<rparr>) in
      k1\<lparr>f_ip := ip, f_readable := (omode AND O_WRONLY = 0),
         f_writable := (omode AND O_WRONLY \<noteq> 0 \<or> omode AND O_RDWR \<noteq> 0)\<rparr>)"

definition sys_open :: "('z file_state_scheme, u64) K" where
  "sys_open =
     bindK (argstr 0 MAXPATH) (\<lambda>(n, path).
     if n < 0 then ret (- 1) else
     bindK (argint 1) (\<lambda>omode.
     thenK begin_op
     (bindK (open_inode path omode) (\<lambda>r.
      case r of None \<Rightarrow> ret (- 1) | Some ip \<Rightarrow>
      bindK (get_inode ip) (\<lambda>i.
      if i_type i = T_DEVICE \<and> (sint (i_major i) < 0 \<or> NDEV \<le> sint (i_major i)) then
        thenK (seqK [iunlockput ip, end_op]) (ret (- 1))
      else bindK filealloc (\<lambda>fr.
        case fr of None \<Rightarrow> thenK (seqK [iunlockput ip, end_op]) (ret (- 1)) | Some f \<Rightarrow>
        bindK (fdalloc f) (\<lambda>fd.
        if fd < 0 then thenK (seqK [fileclose f, iunlockput ip, end_op]) (ret (- 1))
        else thenK (seqK [upd_file f (open_file f ip i omode),
                          whenK (omode AND O_TRUNC \<noteq> 0 \<and> i_type i = T_FILE) (itrunc ip),
                          iunlock ip,
                          end_op])
             (ret fd))))))))"

definition sys_mkdir :: "('z fs_state_scheme, u64) K" where
  "sys_mkdir =
     thenK begin_op
     (bindK (argstr 0 MAXPATH) (\<lambda>(n, path).
      bindK (if n < 0 then returnK None else create path T_DIR 0 0) (\<lambda>r.
      case r of None \<Rightarrow> thenK end_op (ret (- 1)) | Some ip \<Rightarrow>
      thenK (seqK [iunlockput ip, end_op]) (ret 0))))"

definition sys_mknod :: "('z fs_state_scheme, u64) K" where
  "sys_mknod =
     thenK begin_op
     (bindK (argstr 0 MAXPATH) (\<lambda>(n, path).
      bindK (if n < 0 then returnK None
             else bindK (argint 1) (\<lambda>major. bindK (argint 2) (\<lambda>minor.
                  create path T_DEVICE (ucast major) (ucast minor)))) (\<lambda>r.
      case r of None \<Rightarrow> thenK end_op (ret (- 1)) | Some ip \<Rightarrow>
      thenK (seqK [iunlockput ip, end_op]) (ret 0))))"

definition sys_chdir :: "('z fs_state_scheme, u64) K" where
  "sys_chdir =
     bindK myproc (\<lambda>i.
     thenK begin_op
     (bindK (argstr 0 MAXPATH) (\<lambda>(n, path).
      bindK (if n < 0 then returnK None else namei path) (\<lambda>r.
      case r of None \<Rightarrow> thenK end_op (ret (- 1)) | Some ip \<Rightarrow>
      thenK (ilock ip)
      (bindK (get_inode ip) (\<lambda>k.
       if i_type k \<noteq> T_DIR then thenK (seqK [iunlockput ip, end_op]) (ret (- 1))
       else thenK (iunlock ip)
        (bindK (get_proc i) (\<lambda>p.
         thenK (seqK [(case cwd p of None \<Rightarrow> panicK ''kerneltrap'' | Some d \<Rightarrow> iput d),
                      end_op,
                      upd_proc i (\<lambda>p. p\<lparr>cwd := Some ip\<rparr>)])
         (ret 0)))))))))"

section \<open>exec and pipe\<close>

text \<open>
  Collecting the arguments of \<open>sys_exec\<close>: whether the null pointer was found, and the pages filled
  so far.  \<open>k\<close> is the room left in \<^verbatim>\<open>argv\<close>.
\<close>

primrec fetch_args :: "nat \<Rightarrow> u64 \<Rightarrow> u64 list \<Rightarrow> ('z kalloc_state_scheme, bool \<times> u64 list) K" where
  "fetch_args 0 uargv argv = returnK (False, argv)"
| "fetch_args (Suc k) uargv argv =
     bindK (fetchaddr (uargv + 8 * of_nat (length argv))) (\<lambda>(r, uarg).
     if r < 0 then returnK (False, argv)
     else if uarg = 0 then returnK (True, argv)
     else bindK kalloc (\<lambda>a.
       if a = 0 then returnK (False, argv)
       else bindK (fetchstr uarg PGSIZE) (\<lambda>(n, buf).
         thenK (setmem (\<lambda>m. mwrite m a buf))
         (if n < 0 then returnK (False, argv @ [a]) else fetch_args k uargv (argv @ [a])))))"

definition sys_exec :: "('z proc_state_scheme, u64) K" where
  "sys_exec =
     bindK (argstr 0 MAXPATH) (\<lambda>(n, path).
     if n < 0 then ret (- 1) else
     bindK (argaddr 1) (\<lambda>uargv.
     bindK (fetch_args MAXARG uargv []) (\<lambda>(ok, argv).
     if \<not> ok then thenK (forK argv kfree) (ret (- 1))
     else bindK (exec path argv) (\<lambda>r. thenK (forK argv kfree) (ret r)))))"

definition pipe_undo :: "nat \<Rightarrow> nat list \<Rightarrow> nat \<Rightarrow> nat \<Rightarrow> ('z file_state_scheme, u64) K" where
  "pipe_undo i fds rf wrf =
     thenK (seqK [forK fds (\<lambda>fd. set_ofile i fd None), fileclose rf, fileclose wrf]) (ret (- 1))"

definition sys_pipe :: "('z file_state_scheme, u64) K" where
  "sys_pipe =
     bindK myproc (\<lambda>i.
     bindK (argaddr 0) (\<lambda>fdarray.
     bindK pipealloc (\<lambda>(r, rf, wrf).
     if r < 0 then ret (- 1) else
     bindK (fdalloc rf) (\<lambda>fd0.
     if fd0 < 0 then pipe_undo i [] rf wrf else
     bindK (fdalloc wrf) (\<lambda>fd1.
     if fd1 < 0 then pipe_undo i [nat fd0] rf wrf else
     bindK (get_proc i) (\<lambda>p.
     bindK (copyout (pagetable p) fdarray (nat_le 4 (nat fd0))) (\<lambda>c0.
     if c0 < 0 then pipe_undo i [nat fd0, nat fd1] rf wrf else
     bindK (copyout (pagetable p) (fdarray + 4) (nat_le 4 (nat fd1))) (\<lambda>c1.
     if c1 < 0 then pipe_undo i [nat fd0, nat fd1] rf wrf else ret 0))))))))"

end
