(* ===== verification/Virtio.thy ===== *)
theory Virtio
  imports Proc
begin

text \<open>
  \<^verbatim>\<open>kernel/virtio_disk.c\<close>: the driver of the virtio disk.  The memory the driver shares with the
  device is the part of the state the driver reads and writes; addresses in descriptors say
  what they point to.  A transfer is split where the thread waits for the device:
  \<open>virtio_submit\<close> up to the notification, \<open>virtio_finish\<close> once the interrupt handler has cleared
  \<^verbatim>\<open>b->disk\<close>.  The device, which is not part of the kernel, only appears through the contents of
  its registers and of the used ring.
\<close>

section \<open>State\<close>

abbreviation (input) NUM :: "'a::numeral" where "NUM \<equiv> 8"
abbreviation (input) VRING_DESC_F_NEXT :: u16 where "VRING_DESC_F_NEXT \<equiv> 1"
abbreviation (input) VRING_DESC_F_WRITE :: u16 where "VRING_DESC_F_WRITE \<equiv> 2"
abbreviation (input) VIRTIO_BLK_T_IN :: u32 where "VIRTIO_BLK_T_IN \<equiv> 0"
abbreviation (input) VIRTIO_BLK_T_OUT :: u32 where "VIRTIO_BLK_T_OUT \<equiv> 1"

datatype dma_addr = DmaNull | DmaOps nat | DmaData nat | DmaStatus nat

record virtq_desc =
  d_addr :: dma_addr
  d_len :: u32
  d_flags :: u16
  d_next :: u16

record virtio_blk_req =
  r_type :: u32
  r_reserved :: u32
  r_sector :: u64

record virt_state = proc_state +
  vio_regs :: "nat \<Rightarrow> u32"
  vio_writes :: "(nat \<times> u32) list"
  vdesc :: "nat \<Rightarrow> virtq_desc"
  avail_idx :: u16
  avail_ring :: "nat \<Rightarrow> u16"
  dev_used_idx :: u16
  used_ring :: "nat \<Rightarrow> u32"
  vfree :: "nat \<Rightarrow> bool"
  used_idx :: u16
  info_b :: "nat \<Rightarrow> nat option"
  info_status :: "nat \<Rightarrow> u8"
  vops :: "nat \<Rightarrow> virtio_blk_req"
  buf_disk :: "nat \<Rightarrow> bool"

definition null_desc :: virtq_desc where
  "null_desc = \<lparr>d_addr = DmaNull, d_len = 0, d_flags = 0, d_next = 0\<rparr>"

definition read_mmio :: "nat \<Rightarrow> ('z virt_state_scheme, u32) K" where
  "read_mmio r = getK (\<lambda>s. vio_regs s r)"

definition write_mmio :: "nat \<Rightarrow> u32 \<Rightarrow> ('z virt_state_scheme, unit) K" where
  "write_mmio r v = modifyK (\<lambda>s. s\<lparr>vio_writes := vio_writes s @ [(r, v)]\<rparr>)"

definition upd_desc :: "nat \<Rightarrow> (virtq_desc \<Rightarrow> virtq_desc) \<Rightarrow> ('z virt_state_scheme, unit) K" where
  "upd_desc i f = modifyK (\<lambda>s. s\<lparr>vdesc := (vdesc s)(i := f (vdesc s i))\<rparr>)"

definition set_free :: "nat \<Rightarrow> bool \<Rightarrow> ('z virt_state_scheme, unit) K" where
  "set_free i b = modifyK (\<lambda>s. s\<lparr>vfree := (vfree s)(i := b)\<rparr>)"

section \<open>Initialisation\<close>

definition virtio_features :: "u32 \<Rightarrow> u32" where
  "virtio_features f = fold (\<lambda>n f. f AND NOT (push_bit n 1)) [5, 7, 11, 12, 27, 29, 28] f"

definition virtio_disk_init :: "u64 \<Rightarrow> ('z virt_state_scheme, unit) K" where
  "virtio_disk_init pages =
     bindK (getK vio_regs) (\<lambda>r.
     seqK
      [panic_if (r 0x000 \<noteq> 0x74726976 \<or> r 0x004 \<noteq> 1 \<or> r 0x008 \<noteq> 2 \<or> r 0x00c \<noteq> 0x554d4551) ''could not find virtio disk'',
       write_mmio 0x070 1,
       write_mmio 0x070 (1 OR 2),
       write_mmio 0x020 (virtio_features (r 0x010)),
       write_mmio 0x070 (1 OR 2 OR 8),
       write_mmio 0x070 (1 OR 2 OR 8 OR 4),
       write_mmio 0x028 PGSIZE,
       write_mmio 0x030 0,
       panic_if (r 0x034 = 0) ''virtio disk has no queue 0'',
       panic_if (r 0x034 < NUM) ''virtio disk max queue too short'',
       write_mmio 0x038 NUM,
       modifyK (\<lambda>s. s\<lparr>vdesc := (\<lambda>_. null_desc), avail_idx := 0, avail_ring := (\<lambda>_. 0), dev_used_idx := 0, used_ring := (\<lambda>_. 0)\<rparr>),
       write_mmio 0x040 (ucast (drop_bit PGSHIFT pages)),
       forK [0..<NUM] (\<lambda>i. set_free i True)])"

section \<open>Descriptors\<close>

definition alloc_desc :: "('z virt_state_scheme, nat option) K" where
  "alloc_desc =
     bindK (getK vfree) (\<lambda>fr.
     case find fr [0..<NUM] of
       Some i \<Rightarrow> thenK (set_free i False) (returnK (Some i))
     | None \<Rightarrow> returnK None)"

definition free_desc :: "nat \<Rightarrow> ('z virt_state_scheme, unit) K" where
  "free_desc i =
     bindK (getK vfree) (\<lambda>fr.
     seqK [panic_if (NUM \<le> i) ''free_desc 1'',
           panic_if (fr i) ''free_desc 2'',
           upd_desc i (\<lambda>d. d\<lparr>d_addr := DmaNull\<rparr>),
           upd_desc i (\<lambda>d. d\<lparr>d_len := 0\<rparr>),
           upd_desc i (\<lambda>d. d\<lparr>d_flags := 0\<rparr>),
           upd_desc i (\<lambda>d. d\<lparr>d_next := 0\<rparr>),
           set_free i True,
           wakeup ChDiskFree])"

text \<open>
  \<open>free_chain\<close> frees a descriptor in each round and panics on one that is free, so \<open>NUM + 1\<close>
  rounds are enough.
\<close>

primrec free_chain_loop :: "nat \<Rightarrow> nat \<Rightarrow> ('z virt_state_scheme, unit) K" where
  "free_chain_loop 0 i = panicK ''free_desc 2''"
| "free_chain_loop (Suc k) i =
     bindK (getK (\<lambda>s. vdesc s i)) (\<lambda>d.
     thenK (free_desc i)
     (if d_flags d AND VRING_DESC_F_NEXT \<noteq> 0 then free_chain_loop k (unat (d_next d)) else returnK ()))"

definition free_chain :: "nat \<Rightarrow> ('z virt_state_scheme, unit) K" where
  "free_chain i = free_chain_loop (NUM + 1) i"

text \<open>The descriptors obtained so far, in the order of \<^verbatim>\<open>idx\<close>; \<open>None\<close> is the result -1.\<close>

primrec alloc_descs :: "nat \<Rightarrow> nat list \<Rightarrow> ('z virt_state_scheme, nat list option) K" where
  "alloc_descs 0 idx = returnK (Some idx)"
| "alloc_descs (Suc k) idx =
     bindK alloc_desc (\<lambda>r.
     case r of
       Some i \<Rightarrow> alloc_descs k (idx @ [i])
     | None \<Rightarrow> thenK (forK idx free_desc) (returnK None))"

definition alloc3_desc :: "('z virt_state_scheme, nat list option) K" where
  "alloc3_desc = alloc_descs 3 []"

section \<open>Transfers\<close>

definition format_descs :: "nat \<Rightarrow> u32 \<Rightarrow> bool \<Rightarrow> nat \<Rightarrow> nat \<Rightarrow> nat \<Rightarrow> ('z virt_state_scheme, unit) K" where
  "format_descs b bno write i0 i1 i2 =
     seqK
      [modifyK (\<lambda>s. s\<lparr>vops := (vops s)(i0 := \<lparr>r_type = (if write then VIRTIO_BLK_T_OUT else VIRTIO_BLK_T_IN),
                                          r_reserved = 0, r_sector = ucast (bno * (BSIZE div 512))\<rparr>)\<rparr>),
       upd_desc i0 (\<lambda>d. d\<lparr>d_addr := DmaOps i0, d_len := 16, d_flags := VRING_DESC_F_NEXT, d_next := of_nat i1\<rparr>),
       upd_desc i1 (\<lambda>d. d\<lparr>d_addr := DmaData b, d_len := BSIZE,
                          d_flags := (if write then 0 else VRING_DESC_F_WRITE) OR VRING_DESC_F_NEXT, d_next := of_nat i2\<rparr>),
       modifyK (\<lambda>s. s\<lparr>info_status := (info_status s)(i0 := 0xff)\<rparr>),
       upd_desc i2 (\<lambda>d. d\<lparr>d_addr := DmaStatus i0, d_len := 1, d_flags := VRING_DESC_F_WRITE, d_next := 0\<rparr>)]"

definition virtio_submit :: "nat \<Rightarrow> bool \<Rightarrow> ('z virt_state_scheme, nat) K" where
  "virtio_submit b write =
     bindK (getK (\<lambda>s. blockno (bufs s b))) (\<lambda>bno.
     thenK (acquire LkVdisk)
     (bindK alloc3_desc (\<lambda>r.
      case r of
        Some [i0, i1, i2] \<Rightarrow>
          thenK (seqK [format_descs b bno write i0 i1 i2,
                       modifyK (\<lambda>s. s\<lparr>buf_disk := (buf_disk s)(b := True)\<rparr>),
                       modifyK (\<lambda>s. s\<lparr>info_b := (info_b s)(i0 := Some b)\<rparr>),
                       modifyK (\<lambda>s. s\<lparr>avail_ring := (avail_ring s)(unat (avail_idx s mod NUM) := of_nat i0)\<rparr>),
                       modifyK (\<lambda>s. s\<lparr>avail_idx := avail_idx s + 1\<rparr>),
                       write_mmio 0x050 0])
          (returnK i0)
      | _ \<Rightarrow> thenK (sleep ChDiskFree LkVdisk) (returnK 0))))"

text \<open>The wait for the interrupt handler, and the rest of \<^verbatim>\<open>virtio_disk_rw\<close>.\<close>

definition virtio_finish :: "nat \<Rightarrow> nat \<Rightarrow> ('z virt_state_scheme, unit) K" where
  "virtio_finish b i0 =
     bindK (getK (\<lambda>s. buf_disk s b)) (\<lambda>busy.
     if busy then sleep (ChBuf b) LkVdisk
     else seqK [modifyK (\<lambda>s. s\<lparr>info_b := (info_b s)(i0 := None)\<rparr>), free_chain i0, release LkVdisk])"

definition intr_step :: "('z virt_state_scheme, unit) K" where
  "intr_step =
     bindK (getK id) (\<lambda>s.
     let id = unat (used_ring s (unat (used_idx s mod NUM))) in
     thenK (seqK [ub_if (NUM \<le> id), panic_if (info_status s id \<noteq> 0) ''virtio_disk_intr status''])
     (case info_b s id of
        None \<Rightarrow> panicK ''kerneltrap''
      | Some b \<Rightarrow> seqK [modifyK (\<lambda>s. s\<lparr>buf_disk := (buf_disk s)(b := False)\<rparr>),
                        wakeup (ChBuf b),
                        modifyK (\<lambda>s. s\<lparr>used_idx := used_idx s + 1\<rparr>)]))"

text \<open>The loop runs once for each entry between the driver's and the device's index.\<close>

definition virtio_disk_intr :: "('z virt_state_scheme, unit) K" where
  "virtio_disk_intr =
     thenK (acquire LkVdisk)
     (bindK (read_mmio 0x060) (\<lambda>st.
      thenK (write_mmio 0x064 (st AND 0x3))
      (bindK (getK (\<lambda>s. unat (dev_used_idx s - used_idx s))) (\<lambda>n.
       seqK [forK [0..<n] (\<lambda>_. intr_step), release LkVdisk]))))"

end
