(* ===== verification/Trap.thy ===== *)
theory Trap
  imports Sysfile Virtio
begin

text \<open>
  \<^verbatim>\<open>kernel/sysproc.c\<close>, the dispatcher of \<^verbatim>\<open>kernel/syscall.c\<close>, \<^verbatim>\<open>kernel/trap.c\<close>, \<^verbatim>\<open>kernel/plic.c\<close>,
  \<^verbatim>\<open>kernel/start.c\<close> and \<^verbatim>\<open>kernel/main.c\<close>.  The control and status registers of the CPU are fields
  of the state; the addresses of code, which the linker chooses, are fields too.
\<close>

section \<open>State\<close>

abbreviation (input) SSTATUS_SPP :: u64 where "SSTATUS_SPP \<equiv> 0x100"
abbreviation (input) SSTATUS_SPIE :: u64 where "SSTATUS_SPIE \<equiv> 0x20"
abbreviation (input) SIE_bit :: u64 where "SIE_bit \<equiv> 2"
abbreviation (input) UART0_IRQ :: u32 where "UART0_IRQ \<equiv> 10"
abbreviation (input) VIRTIO0_IRQ :: u32 where "VIRTIO0_IRQ \<equiv> 1"

record trap_state = virt_state +
  sstatus :: u64
  sepc :: u64
  scause :: u64
  stval :: u64
  stvec :: u64
  satp :: u64
  sip :: u64
  tp :: u64
  plic_pending :: u32
  plic_writes :: "(u64 \<times> u32) list"
  kernel_pagetable :: u64
  started :: bool
  first :: bool
  sym_kernelvec :: u64
  sym_uservec :: u64
  sym_userret :: u64
  sym_usertrap :: u64
  sym_etext :: u64
  sym_disk_pages :: u64

definition MAKE_SATP :: "u64 \<Rightarrow> u64" where
  "MAKE_SATP pt = push_bit 60 8 OR drop_bit 12 pt"

definition cpuid :: "('z trap_state_scheme, int) K" where
  "cpuid = getK (\<lambda>s. sint (ucast (tp s) :: u32))"

section \<open>System calls on processes\<close>

definition sys_exit :: "('z proc_state_scheme, u64) K" where
  "sys_exit = bindK (argint 0) (\<lambda>n. thenK (exit (sint n)) (ret 0))"

definition sys_getpid :: "('z kern_scheme, u64) K" where
  "sys_getpid = bindK myproc (\<lambda>i. bindK (get_proc i) (\<lambda>p. ret (pid p)))"

definition sys_fork :: "('z proc_state_scheme, u64) K" where
  "sys_fork = bindK fork ret"

definition sys_wait :: "('z kalloc_state_scheme, u64) K" where
  "sys_wait = bindK (argaddr 0) (\<lambda>p. bindK (wait p) ret)"

text \<open>\<^verbatim>\<open>addr\<close> of \<open>sys_sbrk\<close> is an \<^verbatim>\<open>int\<close>.\<close>

definition sys_sbrk :: "('z kalloc_state_scheme, u64) K" where
  "sys_sbrk =
     bindK (argint 0) (\<lambda>n.
     bindK myproc (\<lambda>i.
     bindK (get_proc i) (\<lambda>p.
     let addr = sint (ucast (sz p) :: u32) in
     bindK (growproc n) (\<lambda>r. if r < 0 then ret (- 1) else ret addr))))"

text \<open>
  \<^verbatim>\<open>ticks - ticks0 < n\<close> compares unsigned; \<open>sys_sleep_check\<close> is one evaluation of the loop, with
  \<open>ticks0\<close> from its start.
\<close>

definition sys_sleep_check :: "u32 \<Rightarrow> u32 \<Rightarrow> ('z proc_state_scheme, u64) K" where
  "sys_sleep_check ticks0 n =
     bindK (getK id) (\<lambda>s.
     if ticks s - ticks0 < n then
       bindK myproc (\<lambda>i.
       if killed (procs s i) then thenK (release LkTicks) (ret (- 1))
       else thenK (sleep ChTicks LkTicks) (ret 0))
     else thenK (release LkTicks) (ret 0))"

definition sys_sleep :: "('z proc_state_scheme, u64) K" where
  "sys_sleep =
     bindK (argint 0) (\<lambda>n.
     thenK (acquire LkTicks)
     (bindK (getK ticks) (\<lambda>ticks0. sys_sleep_check ticks0 n)))"

definition sys_kill :: "('z kalloc_state_scheme, u64) K" where
  "sys_kill = bindK (argint 0) (\<lambda>n. bindK (kill (sint n)) ret)"

definition sys_uptime :: "('z proc_state_scheme, u64) K" where
  "sys_uptime =
     thenK (acquire LkTicks) (bindK (getK ticks) (\<lambda>t. thenK (release LkTicks) (returnK (ucast t))))"

section \<open>The dispatcher\<close>

definition syscalls :: "nat \<Rightarrow> ('z proc_state_scheme, u64) K option" where
  "syscalls n =
     (if n = 0 \<or> 22 \<le> n then None
      else Some ([sys_fork, sys_exit, sys_wait, sys_pipe, sys_read, sys_kill, sys_exec, sys_fstat, sys_chdir, sys_dup,
        sys_getpid, sys_sbrk, sys_sleep, sys_uptime, sys_open, sys_write, sys_mknod, sys_unlink, sys_link, sys_mkdir, sys_close] ! (n - 1)))"

definition syscall :: "('z proc_state_scheme, unit) K" where
  "syscall =
     bindK myproc (\<lambda>i.
     bindK (get_tf i tf_a7) (\<lambda>a7.
     let num = ucast a7 :: u32 in
     case (if 0 < sint num then syscalls (unat num) else None) of
       Some f \<Rightarrow> bindK f (\<lambda>v. set_tf i tf_a0 v)
     | None \<Rightarrow>
         bindK (get_proc i) (\<lambda>p.
         seqK [printf (str ''%d %s: unknown sys call %d'' @ [newline]) [PInt (word_of_int (pid p)), PStr (Some (pname p)), PInt num],
               set_tf i tf_a0 (- 1)])))"

section \<open>Interrupt controller\<close>

definition plic_write :: "u64 \<Rightarrow> u32 \<Rightarrow> ('z trap_state_scheme, unit) K" where
  "plic_write a v = modifyK (\<lambda>s. s\<lparr>plic_writes := plic_writes s @ [(a, v)]\<rparr>)"

definition plicinit :: "('z trap_state_scheme, unit) K" where
  "plicinit = seqK [plic_write (PLIC + ucast UART0_IRQ * 4) 1, plic_write (PLIC + ucast VIRTIO0_IRQ * 4) 1]"

definition plicinithart :: "('z trap_state_scheme, unit) K" where
  "plicinithart =
     bindK cpuid (\<lambda>hart.
     seqK [plic_write (PLIC + 0x2080 + word_of_int hart * 0x100) (push_bit 10 1 OR push_bit 1 1),
           plic_write (PLIC + 0x201000 + word_of_int hart * 0x2000) 0])"

definition plic_claim :: "('z trap_state_scheme, u32) K" where
  "plic_claim = getK plic_pending"

definition plic_complete :: "u32 \<Rightarrow> ('z trap_state_scheme, unit) K" where
  "plic_complete irq = bindK cpuid (\<lambda>hart. plic_write (PLIC + 0x201004 + word_of_int hart * 0x2000) irq)"

section \<open>Traps\<close>

definition trapinithart :: "('z trap_state_scheme, unit) K" where
  "trapinithart = modifyK (\<lambda>s. s\<lparr>stvec := sym_kernelvec s\<rparr>)"

definition clockintr :: "('z proc_state_scheme, unit) K" where
  "clockintr = seqK [acquire LkTicks, modifyK (\<lambda>s. s\<lparr>ticks := ticks s + 1\<rparr>), wakeup ChTicks, release LkTicks]"

definition devintr :: "('z trap_state_scheme, int) K" where
  "devintr =
     bindK (getK scause) (\<lambda>c.
     if c AND 0x8000000000000000 \<noteq> 0 \<and> c AND 0xff = 9 then
       bindK plic_claim (\<lambda>irq.
       thenK (seqK [(if irq = UART0_IRQ then uartintr
                     else if irq = VIRTIO0_IRQ then virtio_disk_intr
                     else whenK (irq \<noteq> 0) (printf (str ''unexpected interrupt irq=%d'' @ [newline]) [PInt irq])),
                    whenK (irq \<noteq> 0) (plic_complete irq)])
       (returnK 1))
     else if c = 0x8000000000000001 then
       bindK cpuid (\<lambda>id.
       thenK (seqK [whenK (id = 0) clockintr, modifyK (\<lambda>s. s\<lparr>sip := sip s AND NOT 2\<rparr>)])
       (returnK 2))
     else returnK 0)"

text \<open>\<open>usertrapret\<close> ends with a jump to \<^verbatim>\<open>userret\<close>; the value is what it passes there.\<close>

definition usertrapret :: "('z trap_state_scheme, u64 \<times> u64 \<times> u64) K" where
  "usertrapret =
     bindK myproc (\<lambda>i.
     thenK (seqK [modifyK (\<lambda>s. s\<lparr>sstatus := sstatus s AND NOT SIE_bit\<rparr>),
                  modifyK (\<lambda>s. s\<lparr>stvec := TRAMPOLINE + (sym_uservec s - sym_trampoline s)\<rparr>)])
     (bindK (getK id) (\<lambda>s.
      thenK (seqK [set_tf i tf_kernel_satp (satp s),
                   set_tf i tf_kernel_sp (kstack (procs s i) + PGSIZE),
                   set_tf i tf_kernel_trap (sym_usertrap s),
                   set_tf i tf_kernel_hartid (tp s),
                   modifyK (\<lambda>s. s\<lparr>sstatus := (sstatus s AND NOT SSTATUS_SPP) OR SSTATUS_SPIE\<rparr>),
                   bindK (get_tf i tf_epc) (\<lambda>pc. modifyK (\<lambda>s. s\<lparr>sepc := pc\<rparr>))])
      (returnK (TRAMPOLINE + (sym_userret s - sym_trampoline s), TRAPFRAME, MAKE_SATP (pagetable (procs s i)))))))"

definition exit_if_killed :: "nat \<Rightarrow> ('z proc_state_scheme, unit) K" where
  "exit_if_killed i = bindK (get_proc i) (\<lambda>p. whenK (killed p) (exit (- 1)))"

definition usertrap :: "('z trap_state_scheme, u64 \<times> u64 \<times> u64) K" where
  "usertrap =
     bindK (getK sstatus) (\<lambda>st.
     thenK (seqK [panic_if (st AND SSTATUS_SPP \<noteq> 0) ''usertrap: not from user mode'',
                  modifyK (\<lambda>s. s\<lparr>stvec := sym_kernelvec s\<rparr>)])
     (bindK myproc (\<lambda>i.
      bindK (getK id) (\<lambda>s.
      thenK (set_tf i tf_epc (sepc s))
      (bindK (if scause s = 8 then
                thenK (seqK [exit_if_killed i,
                             bindK (get_tf i tf_epc) (\<lambda>pc. set_tf i tf_epc (pc + 4)),
                             modifyK (\<lambda>s. s\<lparr>sstatus := sstatus s OR SIE_bit\<rparr>),
                             syscall])
                (returnK 0)
              else bindK devintr (\<lambda>d.
                if d \<noteq> 0 then returnK d
                else thenK (seqK [bindK (get_proc i) (\<lambda>p.
                              printf (str ''usertrap(): unexpected scause %p pid=%d'' @ [newline])
                                [PPtr (scause s), PInt (word_of_int (pid p))]),
                            printf (str ''            sepc=%p stval=%p'' @ [newline]) [PPtr (sepc s), PPtr (stval s)],
                            upd_proc i (\<lambda>p. p\<lparr>killed := True\<rparr>)])
                     (returnK 0))) (\<lambda>which_dev.
       thenK (seqK [exit_if_killed i, whenK (which_dev = 2) yield]) usertrapret))))))"

definition kerneltrap :: "('z trap_state_scheme, unit) K" where
  "kerneltrap =
     bindK (getK id) (\<lambda>s.
     thenK (seqK [panic_if (sstatus s AND SSTATUS_SPP = 0) ''kerneltrap: not from supervisor mode'',
                  panic_if (sstatus s AND SIE_bit \<noteq> 0) ''kerneltrap: interrupts enabled''])
     (bindK devintr (\<lambda>which_dev.
      seqK [whenK (which_dev = 0)
              (seqK [printf (str ''scause %p'' @ [newline]) [PPtr (scause s)],
                     printf (str ''sepc=%p stval=%p'' @ [newline]) [PPtr (sepc s), PPtr (stval s)],
                     panicK ''kerneltrap'']),
            bindK (getK id) (\<lambda>t.
            case curproc t of
              None \<Rightarrow> returnK ()
            | Some i \<Rightarrow> whenK (which_dev = 2 \<and> state (procs t i) = RUNNING) yield),
            modifyK (\<lambda>t. t\<lparr>sepc := sepc s, sstatus := sstatus s\<rparr>)])))"

definition forkret :: "('z trap_state_scheme, u64 \<times> u64 \<times> u64) K" where
  "forkret =
     bindK myproc (\<lambda>i.
     thenK (release (LkProc i))
     (bindK (getK first) (\<lambda>f.
      thenK (whenK f (seqK [modifyK (\<lambda>s. s\<lparr>first := False\<rparr>), fsinit ROOTDEV]))
      usertrapret)))"

section \<open>Starting the machine\<close>

definition kvminit :: "('z trap_state_scheme, unit) K" where
  "kvminit =
     bindK (getK id) (\<lambda>s.
     bindK (kvmmake (sym_etext s) (sym_trampoline s)) (\<lambda>k. modifyK (\<lambda>s. s\<lparr>kernel_pagetable := k\<rparr>)))"

definition kvminithart :: "('z trap_state_scheme, unit) K" where
  "kvminithart = modifyK (\<lambda>s. s\<lparr>satp := MAKE_SATP (kernel_pagetable s)\<rparr>)"

text \<open>\<open>main\<close> up to the call of \<^verbatim>\<open>scheduler\<close>; another hart than the first goes on once \<^verbatim>\<open>started\<close> is set.\<close>

definition main :: "('z trap_state_scheme, unit) K" where
  "main =
     bindK cpuid (\<lambda>id.
     if id = 0 then
       bindK (getK sym_disk_pages) (\<lambda>pages.
       seqK [consoleinit, printfinit,
             printf [newline] [], printf (str ''xv6 kernel is booting'' @ [newline]) [], printf [newline] [],
             kinit, kvminit, kvminithart, procinit, trapinithart, plicinit, plicinithart,
             binit, iinit, virtio_disk_init pages, userinit,
             modifyK (\<lambda>s. s\<lparr>started := True\<rparr>)])
     else bindK (getK started) (\<lambda>st.
       if \<not> st then (\<lambda>s. Block ChSched s)
       else seqK [printf (str ''hart %d starting'' @ [newline]) [PInt (word_of_int id)],
                  kvminithart, trapinithart, plicinithart]))"

text \<open>Machine mode: \<^verbatim>\<open>start\<close> and \<^verbatim>\<open>timerinit\<close> of \<^verbatim>\<open>kernel/start.c\<close> on the registers they set.\<close>

record mregs =
  mstatus :: u64
  mepc :: u64
  m_satp :: u64
  medeleg :: u64
  mideleg :: u64
  sie :: u64
  pmpaddr0 :: u64
  pmpcfg0 :: u64
  mhartid :: u64
  m_tp :: u64
  mtime :: u64
  mtimecmp :: "u64 \<Rightarrow> u64"
  scratch :: "u64 list"
  mscratch :: u64
  mtvec :: u64
  mie :: u64

definition timerinit :: "u64 \<Rightarrow> u64 \<Rightarrow> mregs \<Rightarrow> mregs" where
  "timerinit scratch_addr timervec r =
     (let id = mhartid r; cmp = 0x2000000 + 0x4000 + 8 * id; interval = 1000000 in
      r\<lparr>mtimecmp := (mtimecmp r)(cmp := mtime r + interval),
        scratch := (scratch r)[3 := cmp, 4 := interval],
        mscratch := scratch_addr,
        mtvec := timervec,
        mstatus := mstatus r OR push_bit 3 1,
        mie := mie r OR push_bit 7 1\<rparr>)"

definition start :: "u64 \<Rightarrow> u64 \<Rightarrow> u64 \<Rightarrow> mregs \<Rightarrow> mregs" where
  "start main_addr scratch_addr timervec r =
     (let r1 = r\<lparr>mstatus := (mstatus r AND NOT (push_bit 11 3)) OR push_bit 11 1,
                 mepc := main_addr, m_satp := 0, medeleg := 0xffff, mideleg := 0xffff,
                 sie := sie r OR push_bit 9 1 OR push_bit 5 1 OR push_bit 1 1,
                 pmpaddr0 := 0x3fffffffffffff, pmpcfg0 := 0xf\<rparr>;
          r2 = timerinit scratch_addr timervec r1 in
      r2\<lparr>m_tp := mhartid r2\<rparr>)"

end
