(* ===== verification/Spinlocks.thy ===== *)
theory Spinlocks
  imports Kern
begin

text \<open>
  \<^verbatim>\<open>kernel/spinlock.c\<close> on a machine with several CPUs.  The machine state has the lock words,
  the per-CPU nesting count of \<^verbatim>\<open>push_off\<close> and each CPU's interrupt-enable bit.  \<open>acquire\<close>
  and \<open>release\<close> are cut at their atomic instructions, and \<open>step\<close> interleaves the pieces of
  all CPUs.  The invariant \<open>spin_inv\<close> of the reachable states gives mutual exclusion and that
  interrupts are off wherever a lock is held.  The locale \<open>lock_view\<close> is the contract the
  other components use; both the machine and the list of held locks of \<open>Kern\<close> satisfy it.
\<close>

section \<open>State and operations\<close>

record spinlock =
  locked :: u32
  lkcpu :: "nat option"

record cpu =
  noff :: int
  intena :: bool

text \<open>Where a CPU is inside a lock operation: spinning, between the swap and the assignment
  to \<^verbatim>\<open>lk->cpu\<close>, or between clearing \<^verbatim>\<open>lk->cpu\<close> and the releasing swap.\<close>

datatype pc = Run | Spin lockid | Got lockid | Rel lockid

record machine =
  locks :: "lockid \<Rightarrow> spinlock"
  cpus :: "nat \<Rightarrow> cpu"
  sstatus :: "nat \<Rightarrow> u64"
  at :: "nat \<Rightarrow> pc"

unbundle bit_operations_syntax

definition initlock :: "lockid \<Rightarrow> machine \<Rightarrow> machine" where
  "initlock l m = m\<lparr>locks := (locks m)(l := \<lparr>locked = 0, lkcpu = None\<rparr>)\<rparr>"

abbreviation (input) SSTATUS_SIE :: u64 where "SSTATUS_SIE \<equiv> 2"

definition intr_get :: "nat \<Rightarrow> machine \<Rightarrow> bool" where
  "intr_get c m \<longleftrightarrow> (sstatus m c AND SSTATUS_SIE) \<noteq> 0"

definition intr_off :: "nat \<Rightarrow> machine \<Rightarrow> machine" where
  "intr_off c m = m\<lparr>sstatus := (sstatus m)(c := sstatus m c AND NOT SSTATUS_SIE)\<rparr>"

definition intr_on :: "nat \<Rightarrow> machine \<Rightarrow> machine" where
  "intr_on c m = m\<lparr>sstatus := (sstatus m)(c := sstatus m c OR SSTATUS_SIE)\<rparr>"

definition upd_cpu :: "nat \<Rightarrow> (cpu \<Rightarrow> cpu) \<Rightarrow> machine \<Rightarrow> machine" where
  "upd_cpu c f m = m\<lparr>cpus := (cpus m)(c := f (cpus m c))\<rparr>"

definition upd_lock :: "lockid \<Rightarrow> (spinlock \<Rightarrow> spinlock) \<Rightarrow> machine \<Rightarrow> machine" where
  "upd_lock l f m = m\<lparr>locks := (locks m)(l := f (locks m l))\<rparr>"

definition goto :: "nat \<Rightarrow> pc \<Rightarrow> machine \<Rightarrow> machine" where
  "goto c p m = m\<lparr>at := (at m)(c := p)\<rparr>"

definition push_off :: "nat \<Rightarrow> (machine, unit) K" where
  "push_off c =
     bindK (getK (intr_get c)) (\<lambda>old.
     seqK [modifyK (intr_off c),
           modifyK (\<lambda>m. if noff (cpus m c) = 0 then upd_cpu c (\<lambda>k. k\<lparr>intena := old\<rparr>) m else m),
           modifyK (upd_cpu c (\<lambda>k. k\<lparr>noff := noff k + 1\<rparr>))])"

definition pop_off :: "nat \<Rightarrow> (machine, unit) K" where
  "pop_off c =
     bindK (getK id) (\<lambda>m.
     seqK [panic_if (intr_get c m) ''pop_off - interruptible'',
           panic_if (noff (cpus m c) < 1) ''pop_off'',
           modifyK (upd_cpu c (\<lambda>k. k\<lparr>noff := noff k - 1\<rparr>)),
           modifyK (\<lambda>m. if noff (cpus m c) = 0 \<and> intena (cpus m c) then intr_on c m else m)])"

definition holding :: "nat \<Rightarrow> lockid \<Rightarrow> machine \<Rightarrow> bool" where
  "holding c l m \<longleftrightarrow> locked (locks m l) \<noteq> 0 \<and> lkcpu (locks m l) = Some c"

definition acquire_enter :: "nat \<Rightarrow> lockid \<Rightarrow> (machine, unit) K" where
  "acquire_enter c l = thenK (push_off c) (bindK (getK (holding c l)) (\<lambda>h. panic_if h ''acquire''))"

definition test_and_set :: "lockid \<Rightarrow> (machine, u32) K" where
  "test_and_set l = bindK (getK (\<lambda>m. locked (locks m l))) (\<lambda>old.
     thenK (modifyK (upd_lock l (\<lambda>k. k\<lparr>locked := 1\<rparr>))) (returnK old))"

definition acquire_done :: "nat \<Rightarrow> lockid \<Rightarrow> (machine, unit) K" where
  "acquire_done c l = modifyK (upd_lock l (\<lambda>k. k\<lparr>lkcpu := Some c\<rparr>))"

definition release_enter :: "nat \<Rightarrow> lockid \<Rightarrow> (machine, unit) K" where
  "release_enter c l =
     bindK (getK (holding c l)) (\<lambda>h.
     seqK [panic_if (\<not> h) ''release'', modifyK (upd_lock l (\<lambda>k. k\<lparr>lkcpu := None\<rparr>))])"

definition release_exit :: "nat \<Rightarrow> lockid \<Rightarrow> (machine, unit) K" where
  "release_exit c l = seqK [modifyK (upd_lock l (\<lambda>k. k\<lparr>locked := 0\<rparr>)), pop_off c]"

text \<open>The two operations as a CPU runs them; \<open>Block\<close> is a CPU that is left spinning.\<close>

definition spin_acquire :: "nat \<Rightarrow> lockid \<Rightarrow> (machine, unit) K" where
  "spin_acquire c l =
     thenK (acquire_enter c l)
     (bindK (test_and_set l) (\<lambda>old.
      if old \<noteq> 0 then (\<lambda>m. Block ChSched (goto c (Spin l) m)) else acquire_done c l))"

definition spin_release :: "nat \<Rightarrow> lockid \<Rightarrow> (machine, unit) K" where
  "spin_release c l = seqK [release_enter c l, release_exit c l]"

section \<open>Interleaving\<close>

inductive step :: "machine \<Rightarrow> machine \<Rightarrow> bool" where
  acquire_start: "at m c = Run \<Longrightarrow> acquire_enter c l m = Ok () m' \<Longrightarrow> step m (goto c (Spin l) m')"
| spin: "at m c = Spin l \<Longrightarrow> test_and_set l m = Ok old m' \<Longrightarrow>
    step m (if old = 0 then goto c (Got l) m' else m')"
| acquired: "at m c = Got l \<Longrightarrow> acquire_done c l m = Ok () m' \<Longrightarrow> step m (goto c Run m')"
| release_start: "at m c = Run \<Longrightarrow> release_enter c l m = Ok () m' \<Longrightarrow> step m (goto c (Rel l) m')"
| released: "at m c = Rel l \<Longrightarrow> release_exit c l m = Ok () m' \<Longrightarrow> step m (goto c Run m')"
| bracket: "at m c = Run \<Longrightarrow> thenK (push_off c) (pop_off c) m = Ok () m' \<Longrightarrow> step m m'"
| enable: "at m c = Run \<Longrightarrow> noff (cpus m c) = 0 \<Longrightarrow> step m (intr_on c m)"

definition boot_machine :: machine where
  "boot_machine = \<lparr>locks = (\<lambda>_. \<lparr>locked = 0, lkcpu = None\<rparr>),
     cpus = (\<lambda>_. \<lparr>noff = 0, intena = False\<rparr>), sstatus = (\<lambda>_. 0), at = (\<lambda>_. Run)\<rparr>"

inductive reachable :: "machine \<Rightarrow> bool" where
  boot: "reachable boot_machine"
| step: "reachable m \<Longrightarrow> step m m' \<Longrightarrow> reachable m'"

section \<open>Effects of the operations\<close>

lemma SIE_bit: "((x :: u64) AND 2 \<noteq> 0) \<longleftrightarrow> bit x 1"
proof -
  have "(x AND 2 = 0) \<longleftrightarrow> (\<forall>n. \<not> bit (x AND 2) n)" by (auto intro!: bit_eqI)
  moreover have "bit (x AND 2) n \<longleftrightarrow> bit x n \<and> n = 1" for n
    using bit_2_iff [where ?'a = "64 word", of n] by (auto simp: bit_and_iff)
  ultimately show ?thesis by auto
qed

lemma intr_get_bit: "intr_get c m \<longleftrightarrow> bit (sstatus m c) 1"
  unfolding intr_get_def SIE_bit ..

lemma intr_get_off [simp]: "intr_get c' (intr_off c m) \<longleftrightarrow> c' \<noteq> c \<and> intr_get c' m"
  by (auto simp: intr_get_bit intr_off_def bit_simps)

lemma intr_get_on [simp]: "intr_get c' (intr_on c m) \<longleftrightarrow> c' = c \<or> intr_get c' m"
  by (auto simp: intr_get_bit intr_on_def bit_simps)

lemma intr_get_upd [simp]:
  "intr_get c (upd_cpu d f m) = intr_get c m" "intr_get c (upd_lock l g m) = intr_get c m"
  "intr_get c (goto d p m) = intr_get c m"
  by (simp_all add: intr_get_bit upd_cpu_def upd_lock_def goto_def)

lemma field_simps_m [simp]:
  "locks (intr_on c m) = locks m" "locks (intr_off c m) = locks m" "locks (upd_cpu c f m) = locks m"
  "locks (goto c p m) = locks m" "locks (upd_lock l g m) = (locks m)(l := g (locks m l))"
  "cpus (intr_on c m) = cpus m" "cpus (intr_off c m) = cpus m" "cpus (upd_lock l g m) = cpus m"
  "cpus (goto c p m) = cpus m" "cpus (upd_cpu c f m) = (cpus m)(c := f (cpus m c))"
  "at (intr_on c m) = at m" "at (intr_off c m) = at m" "at (upd_lock l g m) = at m"
  "at (upd_cpu c f m) = at m" "at (goto c p m) = (at m)(c := p)"
  by (simp_all add: intr_on_def intr_off_def upd_cpu_def upd_lock_def goto_def)

lemma push_off_Ok:
  "\<exists>m'. push_off c m = Ok () m' \<and> locks m' = locks m \<and> at m' = at m
     \<and> (\<forall>c'. intr_get c' m' \<longleftrightarrow> c' \<noteq> c \<and> intr_get c' m)
     \<and> cpus m' = (cpus m)(c := \<lparr>noff = noff (cpus m c) + 1,
         intena = (if noff (cpus m c) = 0 then intr_get c m else intena (cpus m c))\<rparr>)"
  by (cases "cpus m c") (simp add: push_off_def K_defs)

lemma pop_off_Ok:
  assumes "\<not> intr_get c m" "1 \<le> noff (cpus m c)"
  shows "\<exists>m'. pop_off c m = Ok () m' \<and> locks m' = locks m \<and> at m' = at m
     \<and> (\<forall>c'. intr_get c' m' \<longleftrightarrow> intr_get c' m \<or> (c' = c \<and> noff (cpus m c) = 1 \<and> intena (cpus m c)))
     \<and> cpus m' = (cpus m)(c := \<lparr>noff = noff (cpus m c) - 1, intena = intena (cpus m c)\<rparr>)"
  using assms by (auto simp: pop_off_def K_defs)

lemma pop_off_panics:
  "intr_get c m \<Longrightarrow> pop_off c m = Panic ''pop_off - interruptible''"
  "\<not> intr_get c m \<Longrightarrow> noff (cpus m c) < 1 \<Longrightarrow> pop_off c m = Panic ''pop_off''"
  by (simp_all add: pop_off_def K_defs)

section \<open>The invariant\<close>

definition owns :: "machine \<Rightarrow> nat \<Rightarrow> lockid \<Rightarrow> bool" where
  "owns m c l \<longleftrightarrow> at m c = Got l \<or> at m c = Rel l \<or> holding c l m"

definition spinning :: "machine \<Rightarrow> nat \<Rightarrow> nat" where
  "spinning m c = (case at m c of Spin l \<Rightarrow> 1 | _ \<Rightarrow> 0)"

definition lock_inv :: "machine \<Rightarrow> lockid \<Rightarrow> bool" where
  "lock_inv m l \<longleftrightarrow>
     (locked (locks m l) = 0 \<and> (\<forall>c. \<not> owns m c l)
      \<or> locked (locks m l) = 1 \<and> (\<exists>c. \<forall>c'. owns m c' l \<longleftrightarrow> c' = c))
   \<and> (lkcpu (locks m l) \<noteq> None \<longrightarrow>
        locked (locks m l) = 1 \<and> (\<forall>c. at m c \<noteq> Got l \<and> at m c \<noteq> Rel l))"

definition cpu_inv :: "machine \<Rightarrow> nat \<Rightarrow> bool" where
  "cpu_inv m c \<longleftrightarrow> finite {l. owns m c l}
     \<and> noff (cpus m c) = int (card {l. owns m c l} + spinning m c)
     \<and> (0 < noff (cpus m c) \<longrightarrow> \<not> intr_get c m)"

definition spin_inv :: "machine \<Rightarrow> bool" where
  "spin_inv m \<longleftrightarrow> (\<forall>l. lock_inv m l) \<and> (\<forall>c. cpu_inv m c)"

lemma owns_unique:
  assumes "lock_inv m l" "owns m c l" "owns m c' l" shows "c = c'"
  using assms by (auto simp: lock_inv_def)

lemma not_owned:
  assumes "lock_inv m l" "locked (locks m l) = 0" shows "\<not> owns m c l"
  using assms by (auto simp: lock_inv_def)

lemma cpu_inv_cong:
  assumes "cpu_inv m c" "\<And>l. owns m' c l \<longleftrightarrow> owns m c l" "spinning m' c = spinning m c"
    "noff (cpus m' c) = noff (cpus m c)" "intr_get c m' \<Longrightarrow> intr_get c m"
  shows "cpu_inv m' c"
  using assms by (auto simp: cpu_inv_def)

lemmas lock_view_simps = owns_def holding_def spinning_def

lemma acquire_start_inv:
  assumes inv: "spin_inv m" and c: "at m c = Run" and e: "acquire_enter c l m = Ok () m'"
  shows "spin_inv (goto c (Spin l) m')"
proof -
  obtain p where p: "push_off c m = Ok () p" "locks p = locks m" "at p = at m"
    "\<forall>c'. intr_get c' p \<longleftrightarrow> c' \<noteq> c \<and> intr_get c' m"
    "cpus p = (cpus m)(c := \<lparr>noff = noff (cpus m c) + 1,
         intena = (if noff (cpus m c) = 0 then intr_get c m else intena (cpus m c))\<rparr>)"
    using push_off_Ok [of c m] by blast
  have m': "m' = p" using e p(1) by (auto simp: acquire_enter_def K_defs split: if_splits)
  have own: "owns (goto c (Spin l) p) c' k \<longleftrightarrow> owns m c' k" for c' k
    using c by (auto simp: lock_view_simps p)
  have "lock_inv (goto c (Spin l) p) k" for k
    using inv c by (simp add: spin_inv_def lock_inv_def own) (auto simp: p)
  moreover have "cpu_inv (goto c (Spin l) p) c'" for c'
  proof (cases "c' = c")
    case True
    have "cpu_inv m c" using inv by (simp add: spin_inv_def)
    then show ?thesis using True c own by (simp add: cpu_inv_def p spinning_def)
  next
    case False
    have "cpu_inv m c'" using inv by (simp add: spin_inv_def)
    then show ?thesis by (rule cpu_inv_cong) (use False own p in \<open>simp_all add: spinning_def\<close>)
  qed
  ultimately show ?thesis by (simp add: spin_inv_def m')
qed

lemma spin_step_inv:
  assumes inv: "spin_inv m" and c: "at m c = Spin l" and e: "test_and_set l m = Ok old m'"
  shows "spin_inv (if old = 0 then goto c (Got l) m' else m')"
proof -
  have old: "old = locked (locks m l)" and m': "m' = upd_lock l (\<lambda>k. k\<lparr>locked := 1\<rparr>) m"
    using e by (auto simp: test_and_set_def K_defs)
  have li: "lock_inv m k" for k using inv by (simp add: spin_inv_def)
  show ?thesis
  proof (cases "old = 0")
    case False
    then have "locks m l = (locks m l)\<lparr>locked := 1\<rparr>" using li [of l] old by (auto simp: lock_inv_def)
    then have "m' = m" unfolding m' upd_lock_def by (metis fun_upd_triv machine.surjective machine.update_convs(1))
    then show ?thesis using inv False by simp
  next
    case True
    let ?n = "goto c (Got l) m'"
    have free: "\<not> owns m c' l" for c' using not_owned [OF li] old True by simp
    have own: "owns ?n c' k \<longleftrightarrow> owns m c' k \<or> (c' = c \<and> k = l)" for c' k
      using c free [of c'] li [of l] True old by (auto simp: lock_view_simps m' lock_inv_def)
    have lk: "lock_inv ?n k" for k
      using li [of k] li [of l] c True old unfolding lock_inv_def own by (cases "k = l") (auto simp: m')
    moreover have "cpu_inv ?n c'" for c'
    proof (cases "c' = c")
      case True
      have ci: "cpu_inv m c" using inv by (simp add: spin_inv_def)
      moreover have "{k. owns ?n c k} = insert l {k. owns m c k}" using own by auto
      ultimately show ?thesis using True c free [of c] by (simp add: cpu_inv_def spinning_def m')
    next
      case False
      have "cpu_inv m c'" using inv by (simp add: spin_inv_def)
      then show ?thesis by (rule cpu_inv_cong) (use False own m' in \<open>simp_all add: spinning_def\<close>)
    qed
    ultimately show ?thesis using True by (simp add: spin_inv_def)
  qed
qed

lemma same_owners_inv:
  assumes inv: "spin_inv m" and "\<And>k. lock_inv m' k" "\<And>c k. owns m' c k \<longleftrightarrow> owns m c k"
    "\<And>c. spinning m' c = spinning m c" "\<And>c. noff (cpus m' c) = noff (cpus m c)"
    "\<And>c. intr_get c m' \<Longrightarrow> intr_get c m \<or> noff (cpus m c) = 0"
  shows "spin_inv m'"
proof -
  have "cpu_inv m' c" for c
  proof -
    have "cpu_inv m c" using inv by (simp add: spin_inv_def)
    then show ?thesis using assms(3-5) assms(6) [of c] by (auto simp: cpu_inv_def)
  qed
  with assms(2) show ?thesis by (simp add: spin_inv_def)
qed

lemma acquired_inv:
  assumes inv: "spin_inv m" and c: "at m c = Got l" and e: "acquire_done c l m = Ok () m'"
  shows "spin_inv (goto c Run m')"
proof -
  have m': "m' = upd_lock l (\<lambda>k. k\<lparr>lkcpu := Some c\<rparr>) m" using e by (simp add: acquire_done_def K_defs)
  have li: "lock_inv m k" for k using inv by (simp add: spin_inv_def)
  have own: "owns (goto c Run m') c' k \<longleftrightarrow> owns m c' k" for c' k
    using li [of l] c by (auto simp: lock_view_simps m' lock_inv_def)
  have uniq: "c' = c" if "at m c' = Got l \<or> at m c' = Rel l" for c'
    using owns_unique [OF li, of c' l c] that c by (auto simp: owns_def)
  have "owns m c l" using c by (simp add: owns_def)
  show ?thesis
  proof (rule same_owners_inv [OF inv _ own])
    show "lock_inv (goto c Run m') k" for k
      using li [of k] c uniq \<open>owns m c l\<close> unfolding lock_inv_def own by (auto simp: m')
  qed (use c in \<open>auto simp: m' spinning_def\<close>)
qed

lemma release_start_inv:
  assumes inv: "spin_inv m" and c: "at m c = Run" and e: "release_enter c l m = Ok () m'"
  shows "spin_inv (goto c (Rel l) m')"
proof -
  have h: "holding c l m" and m': "m' = upd_lock l (\<lambda>k. k\<lparr>lkcpu := None\<rparr>) m"
    using e by (auto simp: release_enter_def K_defs split: if_splits)
  have li: "lock_inv m k" for k using inv by (simp add: spin_inv_def)
  have own: "owns (goto c (Rel l) m') c' k \<longleftrightarrow> owns m c' k" for c' k
    using li [of l] c h by (auto simp: lock_view_simps m' lock_inv_def)
  show ?thesis
  proof (rule same_owners_inv [OF inv _ own])
    show "lock_inv (goto c (Rel l) m') k" for k
      using li [of k] c unfolding lock_inv_def own by (auto simp: m')
  qed (use c in \<open>auto simp: m' spinning_def\<close>)
qed

lemma release_exit_Ok:
  assumes inv: "spin_inv m" and c: "at m c = Rel l"
  shows "\<exists>m'. release_exit c l m = Ok () m' \<and> at m' = at m
     \<and> locks m' = (locks m)(l := (locks m l)\<lparr>locked := 0\<rparr>)
     \<and> (\<forall>c'. intr_get c' m' \<longrightarrow> intr_get c' m \<or> (c' = c \<and> noff (cpus m c) = 1))
     \<and> cpus m' = (cpus m)(c := \<lparr>noff = noff (cpus m c) - 1, intena = intena (cpus m c)\<rparr>)"
proof -
  have ci: "cpu_inv m c" using inv by (simp add: spin_inv_def)
  have "l \<in> {k. owns m c k}" using c by (simp add: owns_def)
  then have n: "1 \<le> noff (cpus m c)"
    using ci card_gt_0_iff [of "{k. owns m c k}"] by (auto simp: cpu_inv_def)
  then have "\<not> intr_get c m" using ci by (simp add: cpu_inv_def)
  then show ?thesis
    using pop_off_Ok [of c "upd_lock l (\<lambda>k. k\<lparr>locked := 0\<rparr>) m"] n
    by (auto simp: release_exit_def K_defs)
qed

lemma released_inv:
  assumes inv: "spin_inv m" and c: "at m c = Rel l" and e: "release_exit c l m = Ok () m'"
  shows "spin_inv (goto c Run m')"
proof -
  have m': "at m' = at m" "locks m' = (locks m)(l := (locks m l)\<lparr>locked := 0\<rparr>)"
     "\<And>c'. intr_get c' m' \<Longrightarrow> intr_get c' m \<or> (c' = c \<and> noff (cpus m c) = 1)"
     "cpus m' = (cpus m)(c := \<lparr>noff = noff (cpus m c) - 1, intena = intena (cpus m c)\<rparr>)"
    using release_exit_Ok [OF inv c] e by auto
  let ?n = "goto c Run m'"
  have li: "lock_inv m k" for k using inv by (simp add: spin_inv_def)
  have oc: "owns m c l" using c by (simp add: owns_def)
  have uniq: "owns m c' l \<longleftrightarrow> c' = c" for c' using owns_unique [OF li _ oc] oc by blast
  have own: "owns ?n c' k \<longleftrightarrow> owns m c' k \<and> k \<noteq> l" for c' k
    using c uniq [of c'] by (cases "c' = c"; cases "k = l") (auto simp: lock_view_simps m'(1,2))
  have "lock_inv ?n k" for k
    using li [of k] li [of l] c unfolding lock_inv_def own by (cases "k = l") (auto simp: m'(1,2))
  moreover have "cpu_inv ?n c'" for c'
  proof (cases "c' = c")
    case True
    have ci': "cpu_inv m c" "spinning m c = 0" using inv c by (simp_all add: spin_inv_def spinning_def)
    have ci: "finite {k. owns m c k}" "noff (cpus m c) = int (card {k. owns m c k})"
      "intr_get c m \<Longrightarrow> noff (cpus m c) \<le> 0"
      using ci' unfolding cpu_inv_def by (simp_all add: not_less [symmetric])
    have n: "{k. owns ?n c k} = {k. owns m c k} - {l}" using own by auto
    have "card {k. owns m c k} = Suc (card ({k. owns m c k} - {l}))"
      using ci(1) oc by (intro card.remove) auto
    then have "int (card {k. owns ?n c k}) = noff (cpus m c) - 1" unfolding n ci(2) by linarith
    moreover have "finite {k. owns ?n c k}" unfolding n using ci(1) by simp
    moreover have "intr_get c ?n \<Longrightarrow> noff (cpus m c) \<le> 1" using m'(3) [of c] ci(3) by force
    ultimately show ?thesis unfolding True cpu_inv_def by (auto simp: spinning_def m'(1,4))
  next
    case False
    have "cpu_inv m c'" using inv by (simp add: spin_inv_def)
    moreover have "owns ?n c' k \<longleftrightarrow> owns m c' k" for k using own uniq [of c'] False by auto
    ultimately show ?thesis
      by (rule cpu_inv_cong) (use False m'(3) [of c'] in \<open>auto simp: spinning_def m'(1,4)\<close>)
  qed
  ultimately show ?thesis by (simp add: spin_inv_def)
qed

lemma push_pop_Ok:
  assumes "0 \<le> noff (cpus m c)" "0 < noff (cpus m c) \<longrightarrow> \<not> intr_get c m"
  shows "\<exists>m'. thenK (push_off c) (pop_off c) m = Ok () m' \<and> locks m' = locks m \<and> at m' = at m
     \<and> (\<forall>c'. intr_get c' m' \<longleftrightarrow> intr_get c' m) \<and> (\<forall>c'. noff (cpus m' c') = noff (cpus m c'))"
proof -
  obtain p where p: "push_off c m = Ok () p" "locks p = locks m" "at p = at m"
    "\<forall>c'. intr_get c' p \<longleftrightarrow> c' \<noteq> c \<and> intr_get c' m"
    "cpus p = (cpus m)(c := \<lparr>noff = noff (cpus m c) + 1,
         intena = (if noff (cpus m c) = 0 then intr_get c m else intena (cpus m c))\<rparr>)"
    using push_off_Ok [of c m] by blast
  have "\<not> intr_get c p" "1 \<le> noff (cpus p c)" using assms(1) by (simp_all add: p(4,5))
  then obtain q where q: "pop_off c p = Ok () q" "locks q = locks p" "at q = at p"
    "\<forall>c'. intr_get c' q \<longleftrightarrow> intr_get c' p \<or> (c' = c \<and> noff (cpus p c) = 1 \<and> intena (cpus p c))"
    "cpus q = (cpus p)(c := \<lparr>noff = noff (cpus p c) - 1, intena = intena (cpus p c)\<rparr>)"
    using pop_off_Ok [of c p] by blast
  have "thenK (push_off c) (pop_off c) m = Ok () q" by (simp add: thenK_def bindK_def p(1) q(1))
  moreover have "intr_get c' q \<longleftrightarrow> intr_get c' m" for c' using assms by (auto simp: p(4,5) q(4))
  moreover have "noff (cpus q c') = noff (cpus m c')" for c' by (simp add: q(5) p(5))
  ultimately show ?thesis using p(2,3) q(2,3) by auto
qed

lemma bracket_inv:
  assumes inv: "spin_inv m" and e: "thenK (push_off c) (pop_off c) m = Ok () m'"
  shows "spin_inv m'"
proof -
  have "cpu_inv m c" using inv by (simp add: spin_inv_def)
  then have m': "locks m' = locks m" "at m' = at m" "\<And>c'. intr_get c' m' \<longleftrightarrow> intr_get c' m"
    "\<And>c'. noff (cpus m' c') = noff (cpus m c')"
    using push_pop_Ok [of m c] e by (auto simp: cpu_inv_def)
  have own: "owns m' c' k \<longleftrightarrow> owns m c' k" for c' k by (simp add: lock_view_simps m')
  show ?thesis
  proof (rule same_owners_inv [OF inv _ own])
    show "lock_inv m' k" for k using inv unfolding spin_inv_def lock_inv_def own m' by blast
  qed (simp_all add: spinning_def m')
qed

lemma enable_inv:
  assumes inv: "spin_inv m" and n: "noff (cpus m c) = 0" shows "spin_inv (intr_on c m)"
proof -
  have own: "owns (intr_on c m) c' k \<longleftrightarrow> owns m c' k" for c' k by (simp add: lock_view_simps)
  show ?thesis
  proof (rule same_owners_inv [OF inv _ own])
    show "lock_inv (intr_on c m) k" for k using inv unfolding spin_inv_def lock_inv_def own by simp
  qed (use n in \<open>auto simp: spinning_def\<close>)
qed

lemma step_inv:
  assumes "step m m'" "spin_inv m" shows "spin_inv m'"
  using assms
proof (cases rule: step.cases)
  case (acquire_start c l p)
  then show ?thesis using acquire_start_inv assms(2) by simp
next
  case (spin c l old p)
  then show ?thesis using spin_step_inv assms(2) by blast
next
  case (acquired c l p)
  then show ?thesis using acquired_inv assms(2) by simp
next
  case (release_start c l p)
  then show ?thesis using release_start_inv assms(2) by simp
next
  case (released c l p)
  then show ?thesis using released_inv assms(2) by simp
next
  case (bracket c)
  then show ?thesis using bracket_inv assms(2) by simp
next
  case (enable c)
  then show ?thesis using enable_inv assms(2) by simp
qed

lemma reachable_inv: "reachable m \<Longrightarrow> spin_inv m"
proof (induction rule: reachable.induct)
  case boot
  have "\<not> owns boot_machine c l" for c l by (simp add: lock_view_simps boot_machine_def)
  then show ?case by (simp add: spin_inv_def lock_inv_def cpu_inv_def spinning_def boot_machine_def)
next
  case (step m m')
  then show ?case by (blast intro: step_inv)
qed

section \<open>The contract of locking\<close>

locale lock_view =
  fixes ok :: "'s \<Rightarrow> bool" and view :: "'s \<Rightarrow> lockid set"
    and acq :: "lockid \<Rightarrow> ('s, unit) K" and rel :: "lockid \<Rightarrow> ('s, unit) K"
  assumes acq_view: "ok s \<Longrightarrow> acq l s = Ok () t \<Longrightarrow> l \<notin> view s \<and> ok t \<and> view t = insert l (view s)"
    and acq_twice: "ok s \<Longrightarrow> l \<in> view s \<Longrightarrow> acq l s = Panic ''acquire''"
    and rel_view: "ok s \<Longrightarrow> l \<in> view s \<Longrightarrow> \<exists>t. rel l s = Ok () t \<and> ok t \<and> view t = view s - {l}"
    and rel_missing: "ok s \<Longrightarrow> l \<notin> view s \<Longrightarrow> rel l s = Panic ''release''"
begin

text \<open>A critical section gives the locks back as they were.\<close>

lemma section_view:
  assumes "ok s" "acq l s = Ok () t"
  shows "\<exists>u. rel l t = Ok () u \<and> ok u \<and> view u = view s"
proof -
  have "ok t" "view t = insert l (view s)" "l \<notin> view s" using acq_view [OF assms] by simp_all
  then show ?thesis using rel_view [of t l] by auto
qed

lemma release_twice:
  assumes "ok s" "rel l s = Ok () t" shows "rel l t = Panic ''release''"
proof -
  have "l \<in> view s" using rel_missing [OF assms(1), of l] assms(2) by auto
  then show ?thesis using rel_view [OF assms(1), of l] assms(2) rel_missing [of t l] by auto
qed

end

interpretation kern_locks: lock_view "\<lambda>s. distinct (held s)" "\<lambda>s. set (held s)" acquire release
  by unfold_locales (auto simp: acquire_def release_def split: if_splits)

text \<open>The machine as CPU \<open>c\<close> sees it between its own lock operations.\<close>

definition cpu_ok :: "nat \<Rightarrow> machine \<Rightarrow> bool" where
  "cpu_ok c m \<longleftrightarrow> spin_inv m \<and> at m c = Run"

lemma spin_acquire_held:
  assumes "holding c l m" shows "spin_acquire c l m = Panic ''acquire''"
proof -
  obtain p where "push_off c m = Ok () p" "locks p = locks m" using push_off_Ok [of c m] by blast
  then show ?thesis using assms by (simp add: spin_acquire_def acquire_enter_def K_defs holding_def)
qed

lemma upd_goto_commute: "upd_lock l f (goto c p m) = goto c p (upd_lock l f m)"
  by (simp add: upd_lock_def goto_def)

lemma goto_goto [simp]: "goto c p (goto c q m) = goto c p m"
  by (simp add: goto_def)

lemma goto_same: "at m c = p \<Longrightarrow> goto c p m = m"
  by (auto simp: goto_def)

lemma acquire_enter_Ok:
  assumes "acquire_enter c l m = Ok () p"
  shows "at p = at m" "locks p = locks m" "\<not> holding c l m"
proof -
  obtain q where "push_off c m = Ok () q" "locks q = locks m" "at q = at m"
    using push_off_Ok [of c m] by blast
  then show "at p = at m" "locks p = locks m" "\<not> holding c l m"
    using assms by (auto simp: acquire_enter_def K_defs holding_def split: if_splits)
qed

lemma spin_acquire_Ok:
  assumes "spin_acquire c l m = Ok () m'"
  obtains p where "acquire_enter c l m = Ok () p" "locked (locks p l) = 0"
    "m' = upd_lock l (\<lambda>k. k\<lparr>lkcpu := Some c\<rparr>) (upd_lock l (\<lambda>k. k\<lparr>locked := 1\<rparr>) p)"
  using assms unfolding spin_acquire_def thenK_eq_Ok bindK_eq_Ok test_and_set_def
  by (auto simp: acquire_done_def K_defs split: if_splits)

lemma spin_acquire_ok:
  assumes "cpu_ok c m" "spin_acquire c l m = Ok () m'" shows "cpu_ok c m'"
proof -
  obtain p where p: "acquire_enter c l m = Ok () p" "locked (locks p l) = 0"
    "m' = upd_lock l (\<lambda>k. k\<lparr>lkcpu := Some c\<rparr>) (upd_lock l (\<lambda>k. k\<lparr>locked := 1\<rparr>) p)"
    using spin_acquire_Ok [OF assms(2)] .
  have m: "spin_inv m" "at m c = Run" using assms(1) by (auto simp: cpu_ok_def)
  have at: "at p c = Run" using acquire_enter_Ok(1) [OF p(1)] m(2) by simp
  define a where "a = goto c (Spin l) p"
  have a: "spin_inv a" unfolding a_def by (rule acquire_start_inv [OF m p(1)])
  have ts: "test_and_set l a = Ok 0 (upd_lock l (\<lambda>k. k\<lparr>locked := 1\<rparr>) a)"
    using p(2) by (simp add: test_and_set_def K_defs a_def)
  define b where "b = goto c (Got l) (upd_lock l (\<lambda>k. k\<lparr>locked := 1\<rparr>) a)"
  have b: "spin_inv b" using spin_step_inv [OF a _ ts, of c] by (simp add: a_def b_def)
  have d: "acquire_done c l b = Ok () (upd_lock l (\<lambda>k. k\<lparr>lkcpu := Some c\<rparr>) b)"
    by (simp add: acquire_done_def modifyK_def)
  have "goto c Run (upd_lock l (\<lambda>k. k\<lparr>lkcpu := Some c\<rparr>) b) = m'"
    using at unfolding p(3) b_def a_def by (simp add: upd_goto_commute goto_same)
  moreover have "at b c = Got l" by (simp add: b_def)
  ultimately show ?thesis using acquired_inv [OF b _ d] at by (simp add: cpu_ok_def p(3))
qed

lemma spin_acquire_holding:
  assumes "spin_acquire c l m = Ok () m'"
  shows "\<not> holding c l m" "holding c k m' \<longleftrightarrow> holding c k m \<or> k = l"
proof -
  obtain p where p: "acquire_enter c l m = Ok () p" "locked (locks p l) = 0"
    "m' = upd_lock l (\<lambda>k. k\<lparr>lkcpu := Some c\<rparr>) (upd_lock l (\<lambda>k. k\<lparr>locked := 1\<rparr>) p)"
    using spin_acquire_Ok [OF assms] .
  show "\<not> holding c l m" by (rule acquire_enter_Ok(3) [OF p(1)])
  show "holding c k m' \<longleftrightarrow> holding c k m \<or> k = l"
    using acquire_enter_Ok(2) [OF p(1)] by (simp add: p(3) holding_def)
qed

lemma pop_off_goto:
  assumes "pop_off c m = Ok () m'" shows "pop_off c (goto c p m) = Ok () (goto c p m')"
  using assms unfolding pop_off_def
  by (auto simp: K_defs upd_cpu_def goto_def intr_get_def intr_on_def split: if_splits)

lemma spin_release_ok:
  assumes "cpu_ok c m" "holding c l m"
  shows "\<exists>m'. spin_release c l m = Ok () m' \<and> cpu_ok c m' \<and> {k. holding c k m'} = {k. holding c k m} - {l}"
proof -
  have m: "spin_inv m" "at m c = Run" using assms(1) by (auto simp: cpu_ok_def)
  define p where "p = upd_lock l (\<lambda>k. k\<lparr>lkcpu := None\<rparr>) m"
  have e: "release_enter c l m = Ok () p" using assms(2) by (simp add: release_enter_def K_defs p_def)
  define a where "a = goto c (Rel l) p"
  have a: "spin_inv a" "at a c = Rel l" unfolding a_def using release_start_inv [OF m e] by simp_all
  obtain q where q: "release_exit c l a = Ok () q" "locks q = (locks a)(l := (locks a l)\<lparr>locked := 0\<rparr>)"
    using release_exit_Ok [OF a] by blast
  have inv: "spin_inv (goto c Run q)" by (rule released_inv [OF a q(1)])
  have "release_exit c l p = Ok () (goto c Run q)"
  proof -
    have pa: "p = goto c Run a" using m(2) by (simp add: a_def p_def goto_same)
    have "pop_off c (upd_lock l (\<lambda>k. k\<lparr>locked := 0\<rparr>) a) = Ok () q"
      using q(1) by (simp add: release_exit_def K_defs split: outcome.splits)
    from pop_off_goto [OF this, of Run] show ?thesis
      by (simp add: release_exit_def K_defs pa upd_goto_commute)
  qed
  then have "spin_release c l m = Ok () (goto c Run q)"
    by (simp add: spin_release_def thenK_def bindK_def e returnK_def)
  moreover have "{k. holding c k (goto c Run q)} = {k. holding c k m} - {l}"
    by (auto simp: holding_def q(2) a_def p_def)
  ultimately show ?thesis using inv by (simp add: cpu_ok_def)
qed

lemma spin_release_missing: "\<not> holding c l m \<Longrightarrow> spin_release c l m = Panic ''release''"
  by (simp add: spin_release_def release_enter_def K_defs)

interpretation spin_locks: lock_view "cpu_ok c" "\<lambda>m. {l. holding c l m}" "spin_acquire c" "spin_release c" for c
proof
  fix m m' :: machine and l
  show "l \<notin> {l. holding c l m} \<and> cpu_ok c m' \<and> {l. holding c l m'} = insert l {l. holding c l m}"
    if "cpu_ok c m" "spin_acquire c l m = Ok () m'"
    using spin_acquire_holding [OF that(2)] spin_acquire_ok [OF that] by auto
  show "spin_acquire c l m = Panic ''acquire''" if "cpu_ok c m" "l \<in> {l. holding c l m}"
    using that spin_acquire_held by simp
  show "\<exists>m'. spin_release c l m = Ok () m' \<and> cpu_ok c m' \<and> {l. holding c l m'} = {l. holding c l m} - {l}"
    if "cpu_ok c m" "l \<in> {l. holding c l m}"
    using spin_release_ok [of c m l] that by simp
  show "spin_release c l m = Panic ''release''" if "cpu_ok c m" "l \<notin> {l. holding c l m}"
    using that spin_release_missing by simp
qed

section \<open>Properties\<close>

lemma reachable_acquire:
  assumes r: "reachable m" and c: "at m c = Run" and a: "spin_acquire c l m = Ok () m'"
  shows "reachable m'"
proof -
  obtain p where p: "acquire_enter c l m = Ok () p" "locked (locks p l) = 0"
    "m' = upd_lock l (\<lambda>k. k\<lparr>lkcpu := Some c\<rparr>) (upd_lock l (\<lambda>k. k\<lparr>locked := 1\<rparr>) p)"
    using spin_acquire_Ok [OF a] .
  have at: "at p c = Run" using acquire_enter_Ok(1) [OF p(1)] c by simp
  define b where "b = goto c (Spin l) p"
  have b: "reachable b" unfolding b_def by (rule reachable.step [OF r step.acquire_start [OF c p(1)]])
  have ts: "test_and_set l b = Ok 0 (upd_lock l (\<lambda>k. k\<lparr>locked := 1\<rparr>) b)"
    using p(2) by (simp add: test_and_set_def K_defs b_def)
  define d where "d = goto c (Got l) (upd_lock l (\<lambda>k. k\<lparr>locked := 1\<rparr>) b)"
  have d: "reachable d"
    using reachable.step [OF b step.spin [OF _ ts, of c]] by (simp add: b_def d_def)
  have "acquire_done c l d = Ok () (upd_lock l (\<lambda>k. k\<lparr>lkcpu := Some c\<rparr>) d)"
    by (simp add: acquire_done_def modifyK_def)
  from reachable.step [OF d step.acquired [OF _ this]]
  have "reachable (goto c Run (upd_lock l (\<lambda>k. k\<lparr>lkcpu := Some c\<rparr>) d))" by (simp add: d_def)
  moreover have "goto c Run (upd_lock l (\<lambda>k. k\<lparr>lkcpu := Some c\<rparr>) d) = m'"
    using at unfolding p(3) d_def b_def by (simp add: upd_goto_commute goto_same)
  ultimately show ?thesis by simp
qed

lemma boot_acquire:
  "\<exists>m. spin_acquire c l boot_machine = Ok () m \<and> reachable m \<and> holding c l m \<and> at m c = Run"
proof -
  obtain p where "push_off c boot_machine = Ok () p" "locks p = locks boot_machine" "at p = at boot_machine"
    using push_off_Ok [of c boot_machine] by blast
  then have "\<exists>m. spin_acquire c l boot_machine = Ok () m \<and> holding c l m \<and> at m c = Run"
    by (simp add: spin_acquire_def acquire_enter_def test_and_set_def acquire_done_def K_defs holding_def boot_machine_def)
  then show ?thesis using reachable_acquire [OF reachable.boot] by (auto simp: boot_machine_def)
qed

text \<open>C3. Mutual exclusion: in every reachable state of the machine at most one CPU is between
  the winning swap of \<open>acquire\<close> and the releasing swap of \<open>release\<close> for a lock, and while one
  is, the lock word is set, so no other CPU's swap can win.\<close>

theorem mutual_exclusion:
  assumes "reachable m" "owns m c l" "owns m c' l"
  shows "c = c' \<and> locked (locks m l) = 1"
proof -
  have "lock_inv m l" using reachable_inv [OF assms(1)] by (simp add: spin_inv_def)
  then show ?thesis using owns_unique assms(2,3) by (auto simp: lock_inv_def)
qed

theorem mutual_exclusion_witness:
  "\<exists>m. spin_acquire 0 LkKmem boot_machine = Ok () m \<and> holding 0 LkKmem m \<and> locked (locks m LkKmem) = 1"
proof -
  obtain m where m: "spin_acquire 0 LkKmem boot_machine = Ok () m" "reachable m" "holding 0 LkKmem m"
    using boot_acquire by blast
  then have "owns m 0 LkKmem" by (simp add: owns_def)
  from mutual_exclusion [OF m(2) this this] m show ?thesis by blast
qed

text \<open>C4. In every reachable state a CPU that owns a lock has interrupts off and a nesting count
  equal to the number of locks it owns (one more while it spins), and its \<open>release\<close> of a lock it
  holds never panics and leaves it holding exactly its other locks.\<close>

theorem locks_nest:
  assumes "reachable m" "owns m c l"
  shows "\<not> intr_get c m \<and> noff (cpus m c) = int (card {k. owns m c k} + spinning m c) \<and> 1 \<le> noff (cpus m c)
       \<and> (at m c = Run \<longrightarrow> (\<exists>m'. spin_release c l m = Ok () m' \<and> {k. holding c k m'} = {k. holding c k m} - {l}))"
proof -
  have ci: "cpu_inv m c" using reachable_inv [OF assms(1)] by (simp add: spin_inv_def)
  then have "0 < card {k. owns m c k}" using assms(2) by (auto simp: cpu_inv_def card_gt_0_iff)
  moreover have "noff (cpus m c) = int (card {k. owns m c k} + spinning m c)" using ci by (simp add: cpu_inv_def)
  ultimately have "1 \<le> noff (cpus m c)" by linarith
  moreover have "holding c l m" if "at m c = Run" using assms(2) that by (simp add: owns_def)
  ultimately show ?thesis
    using ci spin_release_ok [of c m l] reachable_inv [OF assms(1)] by (auto simp: cpu_inv_def cpu_ok_def)
qed

theorem locks_nest_witness:
  "\<exists>m m'. spin_acquire 3 LkLog boot_machine = Ok () m \<and> \<not> intr_get 3 m \<and> spin_release 3 LkLog m = Ok () m'
     \<and> {k. holding 3 k m'} = {k. holding 3 k m} - {LkLog}"
proof -
  obtain m where m: "spin_acquire 3 LkLog boot_machine = Ok () m" "reachable m" "holding 3 LkLog m" "at m 3 = Run"
    using boot_acquire by blast
  then have "owns m 3 LkLog" by (simp add: owns_def)
  from locks_nest [OF m(2) this] m show ?thesis by blast
qed




end
