(* ===== verification/VmTree.thy ===== *)
theory VmTree
  imports Vm
begin

text \<open>
  Page tables as trees in physical memory.  \<open>tab m pt va k\<close> is the table page that the walk for
  \<open>va\<close> reaches at depth \<open>k\<close>; \<open>pt_inv\<close> says that a table page is reached along one path only, so
  that a write of an entry changes the translation of the addresses below that entry alone.
  \<open>lookup\<close> is the abstract view: the page-table entry of an address, 0 where there is none.
\<close>

section \<open>Entries\<close>

definition slot :: "u64 \<Rightarrow> nat \<Rightarrow> u64 \<Rightarrow> u64" where
  "slot p k va = p + 8 * PX (2 - k) va"

lemma slot_offset: "slot p k va = p + of_nat (8 * unat (PX (2 - k) va))"
  by (simp add: slot_def)

lemma slot_byte: "slot p k va + of_nat i = p + of_nat (8 * unat (PX (2 - k) va) + i)"
  by (simp add: slot_offset)

lemma slot_in_page: "i < 8 \<Longrightarrow> in_page p (slot p k va + of_nat i)"
  using PX_bound [of "2 - k" va] by (simp only: slot_byte) (rule in_page_offset, simp)

lemma slot_nonzero:
  assumes "page_aligned p" "p \<noteq> 0" shows "slot p k va \<noteq> 0"
proof -
  have "unat (slot p k va) = unat p + 8 * unat (PX (2 - k) va)"
    unfolding slot_offset using PX_bound [of "2 - k" va] by (intro page_offset_unat [OF assms(1)]) simp
  then show ?thesis using assms(2) by (metis add_is_0 unat_0 word_unat_eq_iff)
qed

lemma slots_apart_page:
  assumes "page_aligned p" "page_aligned q" "p \<noteq> q" shows "apart (slot p k va) 8 (slot q j vb) 8"
  unfolding apart_def using slot_in_page [of _ p k va] slot_in_page [of _ q j vb] pages_disjoint [OF assms] by metis

lemma of_nat_eq64: "a < 2 ^ 64 \<Longrightarrow> b < 2 ^ 64 \<Longrightarrow> (of_nat a :: u64) = of_nat b \<longleftrightarrow> a = b"
  by (metis unat_of_nat64)

lemma slots_apart_index:
  assumes "PX (2 - k) va \<noteq> PX (2 - j) vb" shows "apart (slot p k va) 8 (slot p j vb) 8"
proof -
  let ?a = "unat (PX (2 - k) va)" and ?b = "unat (PX (2 - j) vb)"
  have ne: "?a \<noteq> ?b" using assms by (simp add: word_unat_eq_iff)
  have "8 * ?a + i \<noteq> 8 * ?b + l" if "i < 8" "l < 8" for i l using ne that by presburger
  moreover have "(of_nat (8 * ?a + i) :: u64) = of_nat (8 * ?b + l) \<longleftrightarrow> 8 * ?a + i = 8 * ?b + l" if "i < 8" "l < 8" for i l
    using that PX_bound [of "2 - k" va] PX_bound [of "2 - j" vb] by (intro of_nat_eq64) simp_all
  ultimately show ?thesis unfolding apart_def slot_byte by simp
qed

definition pte_valid :: "u64 \<Rightarrow> bool" where
  "pte_valid e \<longleftrightarrow> e AND PTE_V \<noteq> 0"

lemma pte_valid_bit: "pte_valid e \<longleftrightarrow> bit e 0"
  by (simp add: pte_valid_def bit_0 and_one_eq mod_2_eq_odd)

lemma pte_valid_0 [simp]: "\<not> pte_valid 0"
  by (simp add: pte_valid_def)

lemma pte_valid_or [simp]: "pte_valid (e OR PTE_V)" "pte_valid (e OR (f OR PTE_V))"
  by (simp_all add: pte_valid_bit bit_simps)

section \<open>Tables\<close>

primrec tab :: "mem \<Rightarrow> u64 \<Rightarrow> u64 \<Rightarrow> nat \<Rightarrow> u64 option" where
  "tab m pt va 0 = Some pt"
| "tab m pt va (Suc k) =
     (case tab m pt va k of
        None \<Rightarrow> None
      | Some q \<Rightarrow> let e = load64 m (slot q k va) in if pte_valid e then Some (PTE2PA e) else None)"

definition lookup :: "mem \<Rightarrow> u64 \<Rightarrow> u64 \<Rightarrow> u64" where
  "lookup m pt va = (case tab m pt va 2 of None \<Rightarrow> 0 | Some q \<Rightarrow> load64 m (slot q 2 va))"

definition same_path :: "nat \<Rightarrow> u64 \<Rightarrow> u64 \<Rightarrow> bool" where
  "same_path k va vb \<longleftrightarrow> (\<forall>j<k. PX (2 - j) va = PX (2 - j) vb)"

lemma same_path_simps [simp]:
  "same_path 0 va vb" "same_path (Suc k) va vb \<longleftrightarrow> same_path k va vb \<and> PX (2 - k) va = PX (2 - k) vb"
  by (auto simp: same_path_def less_Suc_eq)

lemma same_path_refl [simp]: "same_path k va va"
  by (simp add: same_path_def)

lemma same_path_sym: "same_path k va vb \<longleftrightarrow> same_path k vb va"
  by (auto simp: same_path_def)

lemma same_path_le: "same_path k va vb \<Longrightarrow> j \<le> k \<Longrightarrow> same_path j va vb"
  by (simp add: same_path_def)

lemma same_path_page:
  assumes "va < MAXVA" "vb < MAXVA"
  shows "same_path 3 va vb \<longleftrightarrow> PGROUNDDOWN va = PGROUNDDOWN vb"
proof
  assume "same_path 3 va vb"
  then have "PX l va = PX l vb" if "l \<le> 2" for l
    using that unfolding same_path_def by (metis diff_diff_cancel diff_le_self le_imp_less_Suc numeral_3_eq_3 numeral_2_eq_2)
  then show "PGROUNDDOWN va = PGROUNDDOWN vb" by (rule PX_inject [OF assms])
next
  assume "PGROUNDDOWN va = PGROUNDDOWN vb"
  then have "unat (PGROUNDDOWN va) = unat (PGROUNDDOWN vb)" by simp
  then have e: "unat va div 4096 = unat vb div 4096" by (simp add: unat_PGROUNDDOWN)
  have "unat (PX l va) = unat (PX l vb)" for l
    using e by (simp add: unat_PX power_add div_mult2_eq)
  then show "same_path 3 va vb" by (simp add: same_path_def word_unat_eq_iff)
qed

lemma tab_same_path: "same_path k va vb \<Longrightarrow> tab m pt va k = tab m pt vb k"
  by (induction k) (auto simp: slot_def split: option.splits)

lemma tab_prefix: "tab m pt va k = Some q \<Longrightarrow> j \<le> k \<Longrightarrow> tab m pt va j \<noteq> None"
  by (induction k arbitrary: q) (auto simp: le_Suc_eq split: option.splits)

lemma tab_None_mono: "tab m pt va j = None \<Longrightarrow> j \<le> k \<Longrightarrow> tab m pt va k = None"
  using tab_prefix by (metis not_None_eq)

text \<open>A table page belongs to \<open>own\<close> and is reached along one path.\<close>

definition pt_inv :: "mem \<Rightarrow> u64 \<Rightarrow> u64 set \<Rightarrow> bool" where
  "pt_inv m pt own \<longleftrightarrow> (\<forall>p\<in>own. page_aligned p \<and> p \<noteq> 0)
     \<and> (\<forall>va k p. k \<le> 2 \<longrightarrow> tab m pt va k = Some p \<longrightarrow> p \<in> own)
     \<and> (\<forall>va vb j k p. j \<le> 2 \<longrightarrow> k \<le> 2 \<longrightarrow> tab m pt va k = Some p \<longrightarrow> tab m pt vb j = Some p \<longrightarrow> k = j \<and> same_path k va vb)"

lemma pt_invD:
  assumes "pt_inv m pt own"
  shows "p \<in> own \<Longrightarrow> page_aligned p" "p \<in> own \<Longrightarrow> p \<noteq> 0"
    "tab m pt va k = Some p \<Longrightarrow> k \<le> 2 \<Longrightarrow> p \<in> own"
    "tab m pt va k = Some p \<Longrightarrow> tab m pt vb j = Some p \<Longrightarrow> k \<le> 2 \<Longrightarrow> j \<le> 2 \<Longrightarrow> k = j"
    "tab m pt va k = Some p \<Longrightarrow> tab m pt vb j = Some p \<Longrightarrow> k \<le> 2 \<Longrightarrow> j \<le> 2 \<Longrightarrow> same_path k va vb"
  using assms unfolding pt_inv_def by blast+

text \<open>Memory outside the table pages does not matter.\<close>

lemma tab_cong:
  assumes inv: "pt_inv m pt own" and eq: "\<And>p x. p \<in> own \<Longrightarrow> in_page p x \<Longrightarrow> m' x = m x" and k: "k \<le> 3"
  shows "tab m' pt va k = tab m pt va k"
  using k
proof (induction k)
  case (Suc k)
  have "load64 m' (slot q k va) = load64 m (slot q k va)" if "tab m pt va k = Some q" for q
    using that Suc.prems pt_invD(3) [OF inv, of va k q] eq by (intro load64_cong) (simp add: slot_in_page)
  then show ?case using Suc by (auto split: option.splits)
qed simp

lemma lookup_cong:
  assumes inv: "pt_inv m pt own" and eq: "\<And>p x. p \<in> own \<Longrightarrow> in_page p x \<Longrightarrow> m' x = m x"
  shows "lookup m' pt va = lookup m pt va"
proof (cases "tab m pt va 2")
  case None
  then show ?thesis using tab_cong [OF inv eq, where k = 2 and va = va] by (simp add: lookup_def)
next
  case (Some q)
  have "load64 m' (slot q 2 va) = load64 m (slot q 2 va)"
    using pt_invD(3) [OF inv Some] eq by (intro load64_cong) (simp add: slot_in_page)
  then show ?thesis using Some tab_cong [OF inv eq, where k = 2 and va = va] by (simp add: lookup_def)
qed

lemma pt_inv_cong:
  assumes inv: "pt_inv m pt own" and eq: "\<And>p x. p \<in> own \<Longrightarrow> in_page p x \<Longrightarrow> m' x = m x"
  shows "pt_inv m' pt own"
proof -
  have "tab m' pt va k = tab m pt va k" if "k \<le> 2" for va k using tab_cong [OF inv eq] that by simp
  then show ?thesis using inv unfolding pt_inv_def by (metis (no_types, lifting))
qed

text \<open>Writing the entry that the walk for \<open>va\<close> reads at depth \<open>k\<close>.\<close>

lemma entry_other:
  assumes inv: "pt_inv m pt own" and q: "tab m pt va k = Some q" "k \<le> 2" and r: "tab m pt vb j = Some r" "j \<le> 2"
    and ne: "j \<noteq> k \<or> \<not> same_path (Suc k) va vb"
  shows "load64 (store64 m (slot q k va) v) (slot r j vb) = load64 m (slot r j vb)"
proof (rule load64_store64_apart)
  show "apart (slot q k va) 8 (slot r j vb) 8"
  proof (cases "q = r")
    case False
    then show ?thesis
      using slots_apart_page pt_invD(1) [OF inv pt_invD(3) [OF inv q]] pt_invD(1) [OF inv pt_invD(3) [OF inv r]] by blast
  next
    case True
    have "k = j" "same_path k va vb" using pt_invD(4,5) [OF inv q(1) _ q(2) r(2)] r(1) True by auto
    then have "PX (2 - k) va \<noteq> PX (2 - j) vb" using ne by simp
    then show ?thesis using slots_apart_index True by blast
  qed
qed

lemma tab_store:
  assumes inv: "pt_inv m pt own" and q: "tab m pt va k = Some q" "k \<le> 2" and j: "j \<le> 3"
    and ne: "j \<le> k \<or> \<not> same_path (Suc k) va vb"
  shows "tab (store64 m (slot q k va) v) pt vb j = tab m pt vb j"
  using j ne
proof (induction j)
  case (Suc j)
  have IH: "tab (store64 m (slot q k va) v) pt vb j = tab m pt vb j" using Suc by auto
  have "load64 (store64 m (slot q k va) v) (slot r j vb) = load64 m (slot r j vb)" if "tab m pt vb j = Some r" for r
    using Suc.prems by (intro entry_other [OF inv q that]) auto
  then show ?case using IH by (auto split: option.splits)
qed simp

lemma leaf_store:
  fixes v :: u64
  assumes inv: "pt_inv m pt own" and q: "tab m pt va 2 = Some q"
  defines "m' \<equiv> store64 m (slot q 2 va) v"
  shows "pt_inv m' pt own" "lookup m' pt vb = (if same_path 3 va vb then v else lookup m pt vb)"
proof -
  have t: "tab m' pt vc j = tab m pt vc j" if "j \<le> 2" for vc j
    unfolding m'_def by (rule tab_store [OF inv q]) (use that in auto)
  then show "pt_inv m' pt own" using inv unfolding pt_inv_def by (metis (no_types, lifting))
  show "lookup m' pt vb = (if same_path 3 va vb then v else lookup m pt vb)"
  proof (cases "same_path 3 va vb")
    case True
    then have sp: "same_path 2 va vb" "PX 0 va = PX 0 vb" by (auto simp: numeral_3_eq_3 numeral_2_eq_2)
    then have "tab m' pt vb 2 = Some q" using tab_same_path [OF sp(1), of m' pt] t [of 2 va] q by simp
    moreover have "slot q 2 vb = slot q 2 va" using sp(2) by (simp add: slot_def)
    ultimately show ?thesis using True by (simp add: lookup_def m'_def)
  next
    case False
    have "load64 m' (slot r 2 vb) = load64 m (slot r 2 vb)" if "tab m pt vb 2 = Some r" for r
      unfolding m'_def using False by (intro entry_other [OF inv q _ that]) (auto simp: numeral_3_eq_3)
    then show ?thesis using False t [of 2 vb] by (auto simp: lookup_def split: option.splits)
  qed
qed

text \<open>Linking an empty table page.\<close>

lemma same_path_trans: "same_path k va vb \<Longrightarrow> same_path k vb vc \<Longrightarrow> same_path k va vc"
  by (simp add: same_path_def)

lemma load64_zero: "(\<And>i. i < 8 \<Longrightarrow> m (a + of_nat i) = 0) \<Longrightarrow> load64 m a = 0"
proof -
  assume "\<And>i. i < 8 \<Longrightarrow> m (a + of_nat i) = 0"
  then have "mread m a 8 = replicate 8 0" by (intro nth_equalityI) simp_all
  then show ?thesis by (simp add: load64_def)
qed

lemma PTE2PA_table: "page_aligned p \<Longrightarrow> unat p < 2 ^ 56 \<Longrightarrow> PTE2PA (PA2PTE p OR PTE_V) = p"
  by (rule PTE2PA_PA2PTE) simp_all

lemma tab_link:
  assumes inv: "pt_inv m pt own" and q: "tab m pt va k = Some q" "k \<le> 1" and p: "page_aligned p" "unat p < 2 ^ 56" "p \<notin> own"
    and z: "\<And>x. in_page p x \<Longrightarrow> m x = 0" and j: "j \<le> 3"
  shows "tab (store64 m (slot q k va) (PA2PTE p OR PTE_V)) pt vb j
     = (if same_path (Suc k) va vb \<and> k < j then if j = Suc k then Some p else None else tab m pt vb j)"
proof (cases "same_path (Suc k) va vb \<and> k < j")
  case False
  then show ?thesis using q j tab_store [OF inv q(1) _ j] by auto
next
  case True
  let ?m = "store64 m (slot q k va) (PA2PTE p OR PTE_V)"
  have sp: "same_path (Suc k) va vb" and sp': "same_path k va vb" and px: "PX (2 - k) va = PX (2 - k) vb" using True by auto
  have "tab ?m pt vb k = Some q"
    using tab_store [OF inv q(1), of k vb] tab_same_path [OF sp', of m pt] q by auto
  moreover have "slot q k vb = slot q k va" using px by (simp add: slot_def)
  ultimately have s1: "tab ?m pt vb (Suc k) = Some p" using PTE2PA_table [OF p(1,2)] by simp
  have "q \<in> own" using pt_invD(3) [OF inv q(1)] q(2) by simp
  then have "p \<noteq> q" "page_aligned q" using p(3) pt_invD(1) [OF inv] by auto
  then have "load64 ?m (slot p (Suc k) vb) = load64 m (slot p (Suc k) vb)"
    using slots_apart_page [of q p] p(1) by (intro load64_store64_apart) auto
  also have "\<dots> = 0" using z by (intro load64_zero) (simp add: slot_in_page)
  finally have s2: "tab ?m pt vb (Suc (Suc k)) = None" using s1 by simp
  show ?thesis
  proof (cases "j = Suc k")
    case True
    then show ?thesis using s1 sp by simp
  next
    case False
    then have "Suc (Suc k) \<le> j" using True by simp
    from tab_None_mono [OF s2 this] show ?thesis using False True by simp
  qed
qed

lemma table_store:
  assumes inv: "pt_inv m pt own" and q: "tab m pt va k = Some q" "k \<le> 1" and p: "page_aligned p" "unat p < 2 ^ 56" "p \<notin> own" "p \<noteq> 0"
    and z: "\<And>x. in_page p x \<Longrightarrow> m x = 0" and e: "\<not> pte_valid (load64 m (slot q k va))"
  defines "m' \<equiv> store64 m (slot q k va) (PA2PTE p OR PTE_V)"
  shows "pt_inv m' pt (insert p own)" "tab m' pt va (Suc k) = Some p" "lookup m' pt vb = lookup m pt vb"
proof -
  note tl = tab_link [OF inv q p(1-3) z, folded m'_def]
  have old: "tab m pt vb j \<noteq> Some p" if "j \<le> 2" for vb j using pt_invD(3) [OF inv _ that] p(3) by blast
  show "tab m' pt va (Suc k) = Some p" using tl [of "Suc k" va] q(2) by simp
  have own: "r \<in> insert p own" if "j \<le> 2" "tab m' pt vb j = Some r" for j vb r
    using that tl [of j vb] pt_invD(3) [OF inv, of vb j r] by (auto split: if_splits)
  have path: "j = l \<and> same_path j vb vc" if "j \<le> 2" "l \<le> 2" "tab m' pt vb j = Some r" "tab m' pt vc l = Some r" for j l vb vc r
  proof (cases "r = p")
    case True
    then have "same_path (Suc k) va vb \<and> j = Suc k" "same_path (Suc k) va vc \<and> l = Suc k"
      using that tl [of j vb] tl [of l vc] old [of j vb] old [of l vc] by (auto split: if_splits)
    then show ?thesis using same_path_trans same_path_sym by blast
  next
    case False
    then have "tab m pt vb j = Some r" "tab m pt vc l = Some r"
      using that tl [of j vb] tl [of l vc] by (auto split: if_splits)
    then show ?thesis using pt_invD(4,5) [OF inv] that(1,2) by blast
  qed
  show "pt_inv m' pt (insert p own)"
    unfolding pt_inv_def using p pt_invD(1,2) [OF inv] own path by blast
  have none: "tab m pt vb (Suc k) = None" if "same_path (Suc k) va vb"
    using tab_same_path [OF that, of m pt] q e by simp
  show "lookup m' pt vb = lookup m pt vb"
  proof (cases "same_path (Suc k) va vb")
    case True
    have "lookup m pt vb = 0" using tab_None_mono [OF none [OF True], of 2] q(2) by (simp add: lookup_def)
    moreover have "lookup m' pt vb = 0"
    proof (cases "k = 1")
      case k: True
      have "tab m' pt vb 3 = None" using tl [of 3 vb] True k by simp
      have t2: "tab m' pt vb 2 = Some p" using tl [of 2 vb] True k by simp
      have "q \<in> own" using pt_invD(3) [OF inv q(1)] q(2) by simp
      then have "p \<noteq> q" "page_aligned q" using p(3) pt_invD(1) [OF inv] by auto
      then have "load64 m' (slot p 2 vb) = load64 m (slot p 2 vb)"
        unfolding m'_def using slots_apart_page [of q p] p(1) by (intro load64_store64_apart) auto
      also have "\<dots> = 0" using z by (intro load64_zero) (simp add: slot_in_page)
      finally show ?thesis using t2 by (simp add: lookup_def)
    next
      case False
      then have "tab m' pt vb 2 = None" using tl [of 2 vb] True q(2) by simp
      then show ?thesis by (simp add: lookup_def)
    qed
    ultimately show ?thesis by simp
  next
    case False
    have "load64 m' (slot r 2 vb) = load64 m (slot r 2 vb)" if "tab m pt vb 2 = Some r" for r
      unfolding m'_def using False q(2) by (intro entry_other [OF inv q(1) _ that]) auto
    then show ?thesis using False tl [of 2 vb] by (auto simp: lookup_def split: option.splits)
  qed
qed

end
