(* ===== verification/VmSpec.thy ===== *)
theory VmSpec
  imports VmTree
begin

text \<open>
  What the operations of \<^verbatim>\<open>kernel/vm.c\<close> do to the abstract view \<open>lookup\<close> of a page table, and
  what copying between kernel and user memory reads and writes.
\<close>

section \<open>Walking\<close>

definition vm_ok :: "'z kalloc_state_scheme \<Rightarrow> u64 \<Rightarrow> u64 set \<Rightarrow> u64 list \<Rightarrow> bool" where
  "vm_ok s pt own fl \<longleftrightarrow> kalloc_ok s fl \<and> pt_inv (pmem s) pt own \<and> (\<forall>p\<in>own. valid_page (kend s) p) \<and> own \<inter> set fl = {}"

text \<open>Only physical memory and the free list change, and of the memory only the given pages.\<close>

definition vm_frame :: "u64 set \<Rightarrow> 'z kalloc_state_scheme \<Rightarrow> 'z kalloc_state_scheme \<Rightarrow> bool" where
  "vm_frame P s t \<longleftrightarrow> t = s\<lparr>pmem := pmem t, freelist := freelist t\<rparr>
     \<and> (\<forall>x. (\<forall>p\<in>P. \<not> in_page p x) \<longrightarrow> pmem t x = pmem s x)"

lemma vm_frame_refl [simp]: "vm_frame P s s"
  by (simp add: vm_frame_def)

lemma vm_frame_trans:
  assumes "vm_frame P s t" "vm_frame Q t u" "Q \<subseteq> P" shows "vm_frame P s u"
proof -
  have "pmem u x = pmem s x" if "\<forall>p\<in>P. \<not> in_page p x" for x
    using assms that unfolding vm_frame_def by (metis subsetD)
  moreover have "u = s\<lparr>pmem := pmem u, freelist := freelist u\<rparr>"
    using assms by (cases s; cases t; cases u) (simp add: vm_frame_def)
  ultimately show ?thesis by (simp add: vm_frame_def)
qed

lemma vm_frameD:
  assumes "vm_frame P s t"
  shows "kend t = kend s" "held t = held s" "procs t = procs s" "curproc t = curproc s"
    "(\<And>p. p \<in> P \<Longrightarrow> \<not> in_page p x) \<Longrightarrow> pmem t x = pmem s x"
  using assms by (cases s; cases t; simp add: vm_frame_def)+

lemma kalloc_ok_mem:
  "kalloc_ok s fl \<Longrightarrow> (\<And>p x. p \<in> set fl \<Longrightarrow> in_page p x \<Longrightarrow> m x = pmem s x) \<Longrightarrow> kalloc_ok (s\<lparr>pmem := m\<rparr>) fl"
  unfolding kalloc_ok_def by (auto intro: runs_cong [of "pmem s"])

lemma valid_page_bound: "valid_page e p \<Longrightarrow> unat p < 2 ^ 56"
  by (auto simp: valid_page_def word_less_nat_alt)

lemma vm_okD:
  assumes "vm_ok s pt own fl"
  shows "kalloc_ok s fl" "pt_inv (pmem s) pt own" "p \<in> own \<Longrightarrow> valid_page (kend s) p" "p \<in> own \<Longrightarrow> p \<notin> set fl"
    "p \<in> set fl \<Longrightarrow> valid_page (kend s) p" "0 < kend s" "distinct fl"
  using assms by (auto simp: vm_ok_def kalloc_ok_def)

lemma slot_outside:
  assumes "page_aligned p" "page_aligned q" "p \<noteq> q" "in_page p x"
  shows "store64 m (slot q k va) v x = m x"
proof (rule store64_outside, rule ccontr)
  assume "\<not> 8 \<le> unat (x - slot q k va)"
  then have "in_page q (slot q k va + of_nat (unat (x - slot q k va)))" by (intro slot_in_page) simp
  then show False using pages_disjoint [OF assms] by simp
qed

lemma walk_ro:
  assumes "tab (pmem s) pt va k = Some q" "k + l = 2"
  shows "walk_loop l q va False s = Ok (case tab (pmem s) pt va 2 of None \<Rightarrow> 0 | Some r \<Rightarrow> slot r 2 va) s"
  using assms
proof (induction l arbitrary: k q)
  case 0
  then show ?case by (simp add: slot_def K_defs)
next
  case (Suc l)
  have k: "2 - k = Suc l" "k \<le> 1" using Suc.prems by auto
  let ?e = "load64 (pmem s) (q + 8 * PX (Suc l) va)"
  have e: "load64 (pmem s) (slot q k va) = ?e" by (simp add: slot_def k)
  show ?case
  proof (cases "pte_valid ?e")
    case True
    then have "tab (pmem s) pt va (Suc k) = Some (PTE2PA ?e)" using Suc.prems e by simp
    from Suc.IH [OF this] Suc.prems True show ?thesis by (simp add: getmem_def K_defs pte_valid_def Let_def)
  next
    case False
    then have "tab (pmem s) pt va (Suc k) = None" using Suc.prems e by simp
    from tab_None_mono [OF this, of 2] k False show ?thesis by (simp add: getmem_def K_defs pte_valid_def Let_def)
  qed
qed

text \<open>Allocating a page and linking it as an empty table.\<close>

lemma link_table_ok:
  fixes s :: "'z kalloc_state_scheme"
  assumes ok: "vm_ok s pt own (p # fl)" and q: "tab (pmem s) pt va k = Some q" "k \<le> 1"
    and e: "\<not> pte_valid (load64 (pmem s) (slot q k va))"
  shows "\<exists>u t. kalloc s = Ok p u
     \<and> thenK (setmem (\<lambda>m. memset m p 0 PGSIZE)) (setmem (\<lambda>m. store64 m (slot q k va) (PA2PTE p OR PTE_V))) u = Ok () t
     \<and> vm_ok t pt (insert p own) fl \<and> tab (pmem t) pt va (Suc k) = Some p
     \<and> (\<forall>vb. lookup (pmem t) pt vb = lookup (pmem s) pt vb) \<and> vm_frame (insert p own) s t \<and> p \<noteq> 0"
proof -
  note d = vm_okD [OF ok]
  obtain u where u: "kalloc s = Ok p u" "kalloc_ok u fl" "\<And>x. pmem u x = (if in_page p x then 5 else pmem s x)"
    using kalloc_correct [OF d(1)] by blast
  have "u = s \<or> (\<exists>f mm. u = s\<lparr>freelist := f, pmem := mm\<rparr>)"
    using u(1) d(1) kalloc_eq [of s] by (auto simp: kalloc_ok_def split: if_splits)
  then obtain f mm where uu: "u = s\<lparr>freelist := f, pmem := mm\<rparr>" by (cases s) auto
  have p: "valid_page (kend s) p" "page_aligned p" "unat p < 2 ^ 56" "p \<notin> own" "p \<noteq> 0"
    using d(5) [of p] d(4) valid_page_bound valid_pageD(1,4) d(6) by (auto simp: valid_page_def)
  define m2 where "m2 = memset (pmem u) p 0 PGSIZE"
  have m2: "m2 x = (if in_page p x then 0 else pmem s x)" for x
    by (simp add: m2_def memset_eq u(3) in_page_def)
  have al: "page_aligned r" if "r \<in> own" for r using pt_invD(1) [OF d(2) that] .
  have eq2: "m2 x = pmem s x" if "r \<in> own" "in_page r x" for r x
    using m2 pages_disjoint [OF al [OF that(1)] p(2) _ that(2)] that(1) p(4) by auto
  have inv2: "pt_inv m2 pt own" by (rule pt_inv_cong [OF d(2) eq2])
  have q2: "tab m2 pt va k = Some q" using tab_cong [OF d(2) eq2, where k = k and va = va] q by auto
  have qo: "q \<in> own" using pt_invD(3) [OF d(2) q(1)] q(2) by simp
  have e2: "\<not> pte_valid (load64 m2 (slot q k va))"
  proof -
    have "load64 m2 (slot q k va) = load64 (pmem s) (slot q k va)"
      by (rule load64_cong) (rule eq2 [OF qo slot_in_page])
    then show ?thesis using e by simp
  qed
  have z: "m2 x = 0" if "in_page p x" for x using m2 that by simp
  define m3 where "m3 = store64 m2 (slot q k va) (PA2PTE p OR PTE_V)"
  note ts = table_store [OF inv2 q2 q(2) p(2-5) z e2, folded m3_def]
  define t where "t = u\<lparr>pmem := m3\<rparr>"
  have flp: "page_aligned r" "r \<noteq> p" "r \<noteq> q" if "r \<in> set fl" for r
    using d(5) [of r] d(7) that d(4) [OF qo] valid_pageD(1) by auto
  have "m3 x = pmem u x" if "r \<in> set fl" "in_page r x" for r x
    using slot_outside [OF flp(1) al [OF qo] flp(3) that(2)] m2 u(3) pages_disjoint [OF flp(1) p(2) flp(2) that(2)] that(1)
    by (simp add: m3_def)
  then have ka: "kalloc_ok t fl" unfolding t_def by (rule kalloc_ok_mem [OF u(2)])
  have ke: "kend t = kend s" by (simp add: t_def uu)
  have vk: "vm_ok t pt (insert p own) fl"
    using ka ts(1) p(1) d(3,4,7) ke by (auto simp: vm_ok_def t_def)
  have lk: "lookup (pmem t) pt vb = lookup (pmem s) pt vb" for vb
    using ts(3) lookup_cong [OF d(2) eq2] by (simp add: t_def)
  have out: "m3 x = pmem s x" if "\<forall>r\<in>insert p own. \<not> in_page r x" for x
  proof -
    have "\<not> in_page q x" "\<not> in_page p x" using that qo by auto
    moreover have "store64 m2 (slot q k va) v x = m2 x" for v
    proof (rule store64_outside, rule ccontr)
      assume "\<not> 8 \<le> unat (x - slot q k va)"
      then have "in_page q (slot q k va + of_nat (unat (x - slot q k va)))" by (intro slot_in_page) simp
      then show False using \<open>\<not> in_page q x\<close> by simp
    qed
    ultimately show ?thesis using m2 by (simp add: m3_def)
  qed
  have fr: "vm_frame (insert p own) s t"
    unfolding vm_frame_def using out by (cases s) (auto simp: t_def uu)
  have "thenK (setmem (\<lambda>m. memset m p 0 PGSIZE)) (setmem (\<lambda>m. store64 m (slot q k va) (PA2PTE p OR PTE_V))) u = Ok () t"
    by (simp add: setmem_def K_defs t_def m3_def m2_def)
  moreover have "tab (pmem t) pt va (Suc k) = Some p" using ts(2) by (simp add: t_def)
  ultimately show ?thesis using u(1) vk lk fr p(5) by blast
qed

lemma walk_alloc:
  fixes s :: "'z kalloc_state_scheme"
  assumes "vm_ok s pt own fl" "tab (pmem s) pt va k = Some q" "k + l = 2"
  shows "\<exists>a t own' fl'. walk_loop l q va True s = Ok a t \<and> vm_ok t pt own' fl' \<and> own \<subseteq> own' \<and> own' \<union> set fl' = own \<union> set fl
     \<and> (\<forall>vb. lookup (pmem t) pt vb = lookup (pmem s) pt vb) \<and> vm_frame (own \<union> set fl) s t
     \<and> (if a = 0 then fl' = [] \<and> length fl < l else \<exists>r. tab (pmem t) pt va 2 = Some r \<and> a = slot r 2 va)"
  using assms
proof (induction l arbitrary: k q s own fl)
  case 0
  then have q: "q \<in> own" "tab (pmem s) pt va 2 = Some q" using pt_invD(3) [OF vm_okD(2) [OF 0(1)] 0(2)] by auto
  have "slot q 2 va \<noteq> 0" using slot_nonzero pt_invD(1,2) [OF vm_okD(2) [OF 0(1)] q(1)] by blast
  then show ?case using 0 q by (intro exI [of _ "slot q 2 va"] exI [of _ s]) (auto simp: slot_def K_defs)
next
  case (Suc l)
  have k: "2 - k = Suc l" "k \<le> 1" using Suc.prems by auto
  let ?e = "load64 (pmem s) (q + 8 * PX (Suc l) va)"
  have e: "load64 (pmem s) (slot q k va) = ?e" by (simp add: slot_def k)
  show ?case
  proof (cases "pte_valid ?e")
    case True
    then have "tab (pmem s) pt va (Suc k) = Some (PTE2PA ?e)" using Suc.prems e by simp
    from Suc.IH [OF Suc.prems(1) this] Suc.prems(3) show ?thesis
      using True by (simp add: getmem_def run_simps pte_valid_def Let_def) (metis less_SucI)
  next
    case False
    have sl: "slot q k va = q + 8 * PX (Suc l) va" by (simp add: slot_def k)
    from False have run: "walk_loop (Suc l) q va True s = bindK kalloc (\<lambda>p. if p = 0 then returnK 0
        else thenK (setmem (\<lambda>m. memset m p 0 PGSIZE)) (thenK (setmem (\<lambda>m. store64 m (slot q k va) (PA2PTE p OR PTE_V)))
             (walk_loop l p va True))) s"
      unfolding sl by (simp add: getmem_def run_simps pte_valid_def Let_def)
    show ?thesis
    proof (cases fl)
      case Nil
      then have "kalloc s = Ok 0 s" using kalloc_empty vm_okD(1) [OF Suc.prems(1)] by simp
      then have "walk_loop (Suc l) q va True s = Ok 0 s" using run by (simp add: K_defs)
      then show ?thesis using Suc.prems(1) Nil by auto
    next
      case (Cons p fl')
      have ne: "\<not> pte_valid (load64 (pmem s) (slot q k va))" using False e by simp
      obtain u t where u: "kalloc s = Ok p u"
         "thenK (setmem (\<lambda>m. memset m p 0 PGSIZE)) (setmem (\<lambda>m. store64 m (slot q k va) (PA2PTE p OR PTE_V))) u = Ok () t"
         "vm_ok t pt (insert p own) fl'" "tab (pmem t) pt va (Suc k) = Some p"
         "\<forall>vb. lookup (pmem t) pt vb = lookup (pmem s) pt vb" "vm_frame (insert p own) s t" "p \<noteq> 0"
        using link_table_ok [OF _ Suc.prems(2) k(2) ne] Suc.prems(1) Cons by blast
      have run2: "walk_loop (Suc l) q va True s = walk_loop l p va True t"
        using run u(7) by (simp add: bindK_Ok [of kalloc, OF u(1)] thenK_thenK_Ok [OF u(2)])
      have "Suc k + l = 2" using Suc.prems(3) by simp
      from Suc.IH [OF u(3,4) this] obtain a w own' fl'' where w: "walk_loop l p va True t = Ok a w" "vm_ok w pt own' fl''"
         "insert p own \<subseteq> own'" "own' \<union> set fl'' = insert p own \<union> set fl'"
         "\<forall>vb. lookup (pmem w) pt vb = lookup (pmem t) pt vb" "vm_frame (insert p own \<union> set fl') t w"
         "if a = 0 then fl'' = [] \<and> length fl' < l else \<exists>r. tab (pmem w) pt va 2 = Some r \<and> a = slot r 2 va" by blast
      have "vm_frame (own \<union> set fl) s t" using vm_frame_trans [OF vm_frame_refl u(6)] Cons by auto
      then have "vm_frame (own \<union> set fl) s w" using vm_frame_trans [OF _ w(6)] Cons by auto
      moreover have "own' \<union> set fl'' = own \<union> set fl" using w(4) Cons by auto
      moreover have "length fl = Suc (length fl')" using Cons by simp
      ultimately show ?thesis using w u(5) run2 by (intro exI [of _ a] exI [of _ w] exI [of _ own'] exI [of _ fl'']) auto
    qed
  qed
qed

lemma walk_found:
  assumes "tab (pmem s) pt va 2 = Some r" "tab (pmem s) pt va k = Some q" "k + l = 2"
  shows "walk_loop l q va al s = Ok (slot r 2 va) s"
  using assms(2,3)
proof (induction l arbitrary: k q)
  case 0
  then show ?case using assms(1) by (simp add: slot_def K_defs)
next
  case (Suc l)
  have k: "2 - k = Suc l" "k \<le> 1" using Suc.prems by auto
  let ?e = "load64 (pmem s) (q + 8 * PX (Suc l) va)"
  have "tab (pmem s) pt va (Suc k) \<noteq> None" by (rule tab_prefix [OF assms(1)]) (use k in simp)
  then have e: "pte_valid ?e" using Suc.prems by (auto simp: slot_def k Let_def split: if_splits)
  then have "tab (pmem s) pt va (Suc k) = Some (PTE2PA ?e)" using Suc.prems by (simp add: slot_def k)
  from Suc.IH [OF this] Suc.prems e show ?case by (simp add: getmem_def run_simps pte_valid_def Let_def)
qed

section \<open>Mapping a page\<close>

lemma walk_run: "va < MAXVA \<Longrightarrow> walk pt va al s = walk_loop 2 pt va al s"
  by (simp add: walk_def K_defs not_le [symmetric] del: walk_loop.simps)

lemma page_end:
  assumes "page_aligned va" shows "PGROUNDDOWN (va + PGSIZE - 1) = va"
proof -
  have a: "unat (va + of_nat 4095) = unat va + 4095" by (rule page_offset_unat [OF assms]) simp
  have "unat va mod 4096 = 0" using assms by (simp add: page_aligned_def)
  then obtain j where j: "unat va = 4096 * j" by (metis dvd_def mod_eq_0_iff_dvd)
  have "va + PGSIZE - 1 = va + of_nat 4095" by simp
  then have "unat (PGROUNDDOWN (va + PGSIZE - 1)) = (unat va + 4095) div 4096 * 4096" using a unat_PGROUNDDOWN by metis
  also have "\<dots> = unat va" using j by simp
  finally show ?thesis by (simp add: word_unat_eq_iff)
qed

lemma one_page: "page_aligned va \<Longrightarrow> pages_to (PGROUNDDOWN va) (PGROUNDDOWN (va + PGSIZE - 1)) = [va]"
  using page_end [of va] PGROUNDDOWN_aligned [of va] by (simp add: pages_to_def)

lemma mappages_one:
  assumes "page_aligned va"
  shows "mappages pt va PGSIZE pa perm s = bindK (map_one pt va pa perm) (\<lambda>r. returnK (case r of None \<Rightarrow> 0 | Some e \<Rightarrow> e)) s"
proof -
  have "loopK (pages_to (PGROUNDDOWN va) (PGROUNDDOWN (va + PGSIZE - 1))) (\<lambda>a. map_one pt a (pa + (a - PGROUNDDOWN va)) perm) s
      = map_one pt va pa perm s"
    unfolding one_page [OF assms]
    by (auto simp: PGROUNDDOWN_aligned [OF assms] bindK_def returnK_def split: outcome.splits option.splits)
  then show ?thesis by (simp add: mappages_def thenK_panic_if Let_def bindK_def)
qed

lemma lookup_leaf: "tab m pt va 2 = Some r \<Longrightarrow> load64 m (slot r 2 va) = lookup m pt va"
  by (simp add: lookup_def)

lemma vm_leaf_store:
  fixes s :: "'z kalloc_state_scheme" and v :: u64
  assumes ok: "vm_ok s pt own fl" and r: "tab (pmem s) pt va 2 = Some r"
  defines "t \<equiv> s\<lparr>pmem := store64 (pmem s) (slot r 2 va) v\<rparr>"
  shows "vm_ok t pt own fl" "lookup (pmem t) pt vb = (if same_path 3 va vb then v else lookup (pmem s) pt vb)" "vm_frame own s t"
proof -
  note d = vm_okD [OF ok]
  note ls = leaf_store [OF d(2) r, of v]
  have ro: "r \<in> own" using pt_invD(3) [OF d(2) r] by simp
  have al: "page_aligned r" by (rule pt_invD(1) [OF d(2) ro])
  have "store64 (pmem s) (slot r 2 va) v x = pmem s x" if "p \<in> set fl" "in_page p x" for p x
    using slot_outside [OF _ al _ that(2)] d(4) [OF ro] d(5) [OF that(1)] that(1) valid_pageD(1) by metis
  then have "kalloc_ok t fl" unfolding t_def by (rule kalloc_ok_mem [OF d(1)])
  then show "vm_ok t pt own fl" using ok ls(1) by (simp add: vm_ok_def t_def)
  show "lookup (pmem t) pt vb = (if same_path 3 va vb then v else lookup (pmem s) pt vb)" using ls(2) by (simp add: t_def)
  have "store64 (pmem s) (slot r 2 va) v x = pmem s x" if "\<not> in_page r x" for x
  proof (rule store64_outside, rule ccontr)
    assume "\<not> 8 \<le> unat (x - slot r 2 va)"
    then have "in_page r (slot r 2 va + of_nat (unat (x - slot r 2 va)))" by (intro slot_in_page) simp
    then show False using that by simp
  qed
  then show "vm_frame own s t" using ro by (cases s) (auto simp: vm_frame_def t_def)
qed

lemma map_page_ok:
  fixes s :: "'z kalloc_state_scheme"
  assumes ok: "vm_ok s pt own fl" and va: "page_aligned va" "va < MAXVA" and new: "\<not> pte_valid (lookup (pmem s) pt va)"
  shows "\<exists>r t own' fl'. mappages pt va PGSIZE pa perm s = Ok r t \<and> vm_ok t pt own' fl' \<and> own \<subseteq> own'
     \<and> own' \<union> set fl' = own \<union> set fl \<and> vm_frame (own \<union> set fl) s t
     \<and> (if r = 0 then \<forall>vb. lookup (pmem t) pt vb = (if same_path 3 va vb then PA2PTE pa OR perm OR PTE_V else lookup (pmem s) pt vb)
        else r = - 1 \<and> fl' = [] \<and> length fl < 2 \<and> (\<forall>vb. lookup (pmem t) pt vb = lookup (pmem s) pt vb))"
proof -
  obtain a u own' fl' where u: "walk_loop 2 pt va True s = Ok a u" "vm_ok u pt own' fl'" "own \<subseteq> own'" "own' \<union> set fl' = own \<union> set fl"
     "\<forall>vb. lookup (pmem u) pt vb = lookup (pmem s) pt vb" "vm_frame (own \<union> set fl) s u"
     "if a = 0 then fl' = [] \<and> length fl < 2 else \<exists>r. tab (pmem u) pt va 2 = Some r \<and> a = slot r 2 va"
    using walk_alloc [OF ok, of va 0 pt 2] by auto
  have w: "walk pt va True s = Ok a u" using u(1) by (simp add: walk_run [OF va(2)])
  show ?thesis
  proof (cases "a = 0")
    case True
    then have "mappages pt va PGSIZE pa perm s = Ok (- 1) u"
      by (simp add: mappages_one [OF va(1)] map_one_def K_defs w)
    then show ?thesis using u True by (intro exI [of _ "- 1"] exI [of _ u]) auto
  next
    case False
    then obtain r where r: "tab (pmem u) pt va 2 = Some r" "a = slot r 2 va" using u(7) by auto
    define t where "t = u\<lparr>pmem := store64 (pmem u) (slot r 2 va) (PA2PTE pa OR perm OR PTE_V)\<rparr>"
    note ls = vm_leaf_store [OF u(2) r(1), of "PA2PTE pa OR perm OR PTE_V", folded t_def]
    have "\<not> pte_valid (load64 (pmem u) a)" using lookup_leaf [OF r(1)] r(2) u(5) new by simp
    then have "load64 (pmem u) a AND 1 = 0" by (simp add: pte_valid_def)
    then have "mappages pt va PGSIZE pa perm s = Ok 0 t"
      using False r(2) by (simp add: mappages_one [OF va(1)] map_one_def K_defs w getmem_def setmem_def t_def)
    moreover have "vm_frame (own \<union> set fl) s t" using vm_frame_trans [OF u(6) ls(3)] u(4) by blast
    ultimately show ?thesis using ls(1,2) u(3-5) by (intro exI [of _ 0] exI [of _ t] exI [of _ own'] exI [of _ fl']) auto
  qed
qed

lemma map_page_remap:
  fixes s :: "'z kalloc_state_scheme"
  assumes ok: "vm_ok s pt own fl" and va: "page_aligned va" "va < MAXVA" and old: "pte_valid (lookup (pmem s) pt va)"
  shows "mappages pt va PGSIZE pa perm s = Panic ''mappages: remap''"
proof -
  obtain a u own' fl' where u: "walk_loop 2 pt va True s = Ok a u"
     "\<forall>vb. lookup (pmem u) pt vb = lookup (pmem s) pt vb" "if a = 0 then fl' = [] \<and> length fl < 2 else \<exists>r. tab (pmem u) pt va 2 = Some r \<and> a = slot r 2 va"
     "vm_ok u pt own' fl'"
    using walk_alloc [OF ok, of va 0 pt 2] by auto
  have w: "walk pt va True s = Ok a u" using u(1) by (simp add: walk_run [OF va(2)])
  obtain r0 where r0: "tab (pmem s) pt va 2 = Some r0" using old by (auto simp: lookup_def split: option.splits)
  have "walk_loop 2 pt va True s = Ok (slot r0 2 va) s" by (rule walk_found [OF r0, where k = 0]) simp_all
  then have "a = slot r0 2 va" "u = s" using u(1) by auto
  moreover have "slot r0 2 va \<noteq> 0"
    using slot_nonzero pt_invD(1-3) [OF vm_okD(2) [OF ok]] r0 by (metis order_refl)
  moreover have "load64 (pmem s) (slot r0 2 va) AND 1 \<noteq> 0" using old lookup_leaf [OF r0] by (simp add: pte_valid_def)
  ultimately show ?thesis by (simp add: mappages_one [OF va(1)] map_one_def K_defs w getmem_def)
qed

end
