(* ===== verification/UserMem.thy ===== *)
theory UserMem
  imports VmSpec
begin

text \<open>
  Copying between the kernel and user memory, against a reference that translates every byte by
  itself: \<open>user_pa\<close> is what the page table gives a user access, \<open>ubytes\<close>, \<open>ustr\<close> and \<open>uwrite\<close> read and
  write user memory one byte at a time.
\<close>

section \<open>Translation\<close>

definition user_pa :: "mem \<Rightarrow> u64 \<Rightarrow> u64 \<Rightarrow> u64" where
  "user_pa m pt va = (let e = lookup m pt va in
     if va < MAXVA \<and> pte_valid e \<and> e AND PTE_U \<noteq> 0 then PTE2PA e else 0)"

lemma walkaddr_eq:
  assumes "pt_inv (pmem s) pt own"
  shows "walkaddr pt va s = Ok (user_pa (pmem s) pt va) s"
proof (cases "va < MAXVA")
  case True
  let ?a = "case tab (pmem s) pt va 2 of None \<Rightarrow> 0 | Some r \<Rightarrow> slot r 2 va"
  have w: "walk pt va False s = Ok ?a s"
    unfolding walk_run [OF True] by (rule walk_ro [where k = 0]) simp_all
  show ?thesis
  proof (cases "tab (pmem s) pt va 2")
    case None
    then show ?thesis using True w by (simp add: walkaddr_def user_pa_def lookup_def K_defs not_le Let_def)
  next
    case (Some r)
    then have "slot r 2 va \<noteq> 0" using slot_nonzero pt_invD(1-3) [OF assms] by (metis order_refl)
    moreover have "\<not> MAXVA \<le> va" using True by simp
    ultimately show ?thesis
      using Some True w by (simp add: walkaddr_def user_pa_def lookup_def K_defs Let_def getmem_def pte_valid_def)
  qed
next
  case False
  moreover have "MAXVA \<le> va" using False by simp
  ultimately show ?thesis by (simp add: walkaddr_def user_pa_def K_defs Let_def)
qed

lemma user_pa_page: "va < MAXVA \<Longrightarrow> vb < MAXVA \<Longrightarrow> PGROUNDDOWN va = PGROUNDDOWN vb \<Longrightarrow> user_pa m pt va = user_pa m pt vb"
proof -
  assume a: "va < MAXVA" "vb < MAXVA" "PGROUNDDOWN va = PGROUNDDOWN vb"
  then have sp: "same_path 3 va vb" using same_path_page by simp
  then have "tab m pt va 2 = tab m pt vb 2" "PX 0 va = PX 0 vb"
    using tab_same_path [OF same_path_le [OF sp]] by (auto simp: numeral_3_eq_3)
  then show ?thesis using a(1,2) by (simp add: user_pa_def lookup_def slot_def split: option.splits)
qed

lemma page_aligned_user_pa [simp]: "page_aligned (user_pa m pt va)"
  by (simp add: user_pa_def Let_def) (simp add: page_aligned_def)

section \<open>Reference definitions\<close>

definition uaddr :: "mem \<Rightarrow> u64 \<Rightarrow> u64 \<Rightarrow> u64 option" where
  "uaddr m pt va = (let pa = user_pa m pt (PGROUNDDOWN va) in if pa = 0 then None else Some (pa + (va - PGROUNDDOWN va)))"

primrec ubytes :: "mem \<Rightarrow> u64 \<Rightarrow> u64 \<Rightarrow> nat \<Rightarrow> int \<times> bytes" where
  "ubytes m pt va 0 = (0, [])"
| "ubytes m pt va (Suc n) =
     (case uaddr m pt va of
        None \<Rightarrow> (- 1, [])
      | Some a \<Rightarrow> let (r, bs) = ubytes m pt (va + 1) n in (r, m a # bs))"

primrec ustr :: "mem \<Rightarrow> u64 \<Rightarrow> u64 \<Rightarrow> nat \<Rightarrow> int \<times> bytes" where
  "ustr m pt va 0 = (- 1, [])"
| "ustr m pt va (Suc n) =
     (case uaddr m pt va of
        None \<Rightarrow> (- 1, [])
      | Some a \<Rightarrow> if m a = 0 then (0, [0]) else let (r, bs) = ustr m pt (va + 1) n in (r, m a # bs))"

text \<open>The next \<open>n\<close> bytes are on the page of \<open>va\<close>.\<close>

definition on_page :: "u64 \<Rightarrow> nat \<Rightarrow> bool" where
  "on_page va n \<longleftrightarrow> unat (va - PGROUNDDOWN va) + n \<le> PGSIZE"

lemma on_page_chunk: "on_page va (chunk va len)"
  using page_offset_less [of va] by (auto simp: on_page_def chunk_def)

lemma page_offset_mod: "unat (va - PGROUNDDOWN va) = unat va mod 4096"
  using PGROUNDDOWN_le [of va] by (simp add: unat_sub unat_PGROUNDDOWN minus_div_mult_eq_mod)

lemma on_page_step:
  assumes "on_page va (Suc n)"
  shows "n = 0 \<or> PGROUNDDOWN (va + 1) = PGROUNDDOWN va \<and> va + 1 - PGROUNDDOWN (va + 1) = va - PGROUNDDOWN va + 1 \<and> on_page (va + 1) n"
proof (cases n)
  case (Suc k)
  have m: "unat va mod 4096 + 1 < 4096" using assms Suc by (simp add: on_page_def page_offset_mod)
  have lt: "unat va + 1 < 2 ^ 64"
  proof (rule ccontr)
    assume "\<not> unat va + 1 < 2 ^ 64"
    then have "unat va = 2 ^ 64 - 1" using unat64_bound [of va] by simp
    then show False using m by simp
  qed
  then have u: "unat (va + 1) = unat va + 1" by (simp add: unat_word_ariths)
  have "(unat va + 1) div 4096 = unat va div 4096" using m by (simp add: div_Suc mod_Suc)
  then have e: "PGROUNDDOWN (va + 1) = PGROUNDDOWN va" by (simp add: word_unat_eq_iff unat_PGROUNDDOWN u)
  have "(unat va + 1) mod 4096 = unat va mod 4096 + 1" using m by (simp add: mod_Suc)
  then have "on_page (va + 1) n" using assms Suc by (simp add: on_page_def page_offset_mod u)
  then show ?thesis using e by simp
qed simp

lemma ubytes_chunk:
  assumes "on_page va n" "user_pa m pt (PGROUNDDOWN va) = pa" "pa \<noteq> 0"
  shows "ubytes m pt va (n + k) = (let (r, bs) = ubytes m pt (va + of_nat n) k in (r, mread m (pa + (va - PGROUNDDOWN va)) n @ bs))"
  using assms
proof (induction n arbitrary: va)
  case 0
  then show ?case by (simp add: mread_def split: prod.splits)
next
  case (Suc n)
  have a: "uaddr m pt va = Some (pa + (va - PGROUNDDOWN va))" using Suc.prems by (simp add: uaddr_def)
  show ?case
  proof (cases "n = 0")
    case True
    then show ?thesis using a by (simp add: mread_Suc split: prod.splits) (simp add: mread_def)
  next
    case False
    then have o: "PGROUNDDOWN (va + 1) = PGROUNDDOWN va" "va + 1 - PGROUNDDOWN (va + 1) = va - PGROUNDDOWN va + 1" "on_page (va + 1) n"
      using on_page_step [OF Suc.prems(1)] by auto
    have s: "pa + (va + 1 - PGROUNDDOWN va) = pa + (va - PGROUNDDOWN va) + 1" "va + 1 + of_nat n = va + of_nat (Suc n)" by simp_all
    have "ubytes m pt (va + 1) (n + k) = (let (r, bs) = ubytes m pt (va + of_nat (Suc n)) k in
         (r, mread m (pa + (va - PGROUNDDOWN va) + 1) n @ bs))"
      using Suc.IH [OF o(3)] Suc.prems(2,3) unfolding o(1) s by simp
    then show ?thesis using a by (simp add: mread_Suc split: prod.splits)
  qed
qed

lemma chunk_next: "chunk va len < len \<Longrightarrow> va + of_nat (chunk va len) = PGROUNDDOWN va + PGSIZE"
proof -
  assume "chunk va len < len"
  then have c: "chunk va len = PGSIZE - unat (va - PGROUNDDOWN va)" by (auto simp: chunk_def min_def split: if_splits)
  have "of_nat (PGSIZE - unat (va - PGROUNDDOWN va)) = (PGSIZE :: u64) - (va - PGROUNDDOWN va)"
    using page_offset_less [of va] by (simp add: of_nat_diff less_imp_le)
  then show ?thesis by (simp add: c)
qed

lemma copyin_ubytes:
  assumes "pt_inv (pmem s) pt own"
  shows "copyin pt va len s = Ok (ubytes (pmem s) pt va len) s"
  using assms
proof (induction pt va len arbitrary: s rule: copyin.induct)
  case (1 pt va len)
  let ?n = "chunk va len" and ?pa = "user_pa (pmem s) pt (PGROUNDDOWN va)"
  show ?case
  proof (cases "len = 0")
    case True
    then show ?thesis by (simp add: copyin.simps [of pt va 0] K_defs)
  next
    case False
    then obtain l where l: "len = Suc l" by (cases len) auto
    show ?thesis
    proof (cases "?pa = 0")
      case True
      then show ?thesis unfolding l
        by (simp add: copyin.simps [of pt va "Suc l"] K_defs walkaddr_eq [OF 1(2)] Let_def uaddr_def)
    next
      case pa: False
      have IH: "copyin pt (PGROUNDDOWN va + PGSIZE) (len - ?n) s = Ok (ubytes (pmem s) pt (PGROUNDDOWN va + PGSIZE) (len - ?n)) s"
        using 1(1) [OF False refl refl pa] 1(2) by simp
      have eq: "ubytes (pmem s) pt (PGROUNDDOWN va + PGSIZE) (len - ?n) = ubytes (pmem s) pt (va + of_nat ?n) (len - ?n)"
        using chunk_next [of va len] chunk_bounds(1) [of va len] by (cases "?n = len") auto
      have "ubytes (pmem s) pt va len = ubytes (pmem s) pt va (?n + (len - ?n))" using chunk_bounds(1) [of va len] by simp
      then have "ubytes (pmem s) pt va len = (let (r, bs) = ubytes (pmem s) pt (PGROUNDDOWN va + PGSIZE) (len - ?n) in
           (r, mread (pmem s) (?pa + (va - PGROUNDDOWN va)) ?n @ bs))"
        using ubytes_chunk [OF on_page_chunk refl pa] eq by simp
      then show ?thesis using False pa IH
        by (simp add: copyin.simps [of pt va len] K_defs walkaddr_eq [OF 1(2)] Let_def getmem_def split: prod.splits)
    qed
  qed
qed

section \<open>Strings\<close>

lemma ustr_chunk:
  assumes "on_page va n" "user_pa m pt (PGROUNDDOWN va) = pa" "pa \<noteq> 0"
  shows "ustr m pt va (n + k) = (let (bs, nul) = instr_page m (pa + (va - PGROUNDDOWN va)) n in
     if nul then (0, bs) else let (r, rest) = ustr m pt (va + of_nat n) k in (r, bs @ rest))"
  using assms
proof (induction n arbitrary: va)
  case 0
  then show ?case by (simp split: prod.splits)
next
  case (Suc n)
  have a: "uaddr m pt va = Some (pa + (va - PGROUNDDOWN va))" using Suc.prems by (simp add: uaddr_def)
  show ?case
  proof (cases "n = 0")
    case True
    then show ?thesis using a by (simp split: prod.splits)
  next
    case False
    then have o: "PGROUNDDOWN (va + 1) = PGROUNDDOWN va" "on_page (va + 1) n"
      using on_page_step [OF Suc.prems(1)] by auto
    have s: "pa + (va + 1 - PGROUNDDOWN va) = pa + (va - PGROUNDDOWN va) + 1" "va + 1 + of_nat n = va + of_nat (Suc n)" by simp_all
    have "ustr m pt (va + 1) (n + k) = (let (bs, nul) = instr_page m (pa + (va - PGROUNDDOWN va) + 1) n in
         if nul then (0, bs) else let (r, rest) = ustr m pt (va + of_nat (Suc n)) k in (r, bs @ rest))"
      using Suc.IH [OF o(2)] Suc.prems(2,3) unfolding o(1) s by simp
    then show ?thesis using a by (simp split: prod.splits)
  qed
qed

lemma copyinstr_ustr:
  assumes "pt_inv (pmem s) pt own"
  shows "copyinstr pt va mx s = Ok (ustr (pmem s) pt va mx) s"
  using assms
proof (induction pt va mx arbitrary: s rule: copyinstr.induct)
  case (1 pt va mx)
  let ?n = "chunk va mx" and ?pa = "user_pa (pmem s) pt (PGROUNDDOWN va)"
  show ?case
  proof (cases mx)
    case 0
    then show ?thesis by (simp add: copyinstr.simps [of pt va 0] K_defs)
  next
    case (Suc l)
    then have nz: "mx \<noteq> 0" by simp
    show ?thesis
    proof (cases "?pa = 0")
      case True
      then show ?thesis unfolding Suc
        by (simp add: copyinstr.simps [of pt va "Suc l"] K_defs walkaddr_eq [OF 1(2)] Let_def uaddr_def)
    next
      case pa: False
      obtain bs nul where i: "instr_page (pmem s) (?pa + (va - PGROUNDDOWN va)) ?n = (bs, nul)" by fastforce
      have eq: "ustr (pmem s) pt (PGROUNDDOWN va + PGSIZE) (mx - ?n) = ustr (pmem s) pt (va + of_nat ?n) (mx - ?n)"
        using chunk_next [of va mx] chunk_bounds(1) [of va mx] by (cases "?n = mx") auto
      have "ustr (pmem s) pt va mx = ustr (pmem s) pt va (?n + (mx - ?n))" using chunk_bounds(1) [of va mx] by simp
      then have u: "ustr (pmem s) pt va mx = (if nul then (0, bs) else
           let (r, rest) = ustr (pmem s) pt (PGROUNDDOWN va + PGSIZE) (mx - ?n) in (r, bs @ rest))"
        using ustr_chunk [OF on_page_chunk [of va mx] refl pa, of "mx - ?n"] eq i by simp
      have c: "copyinstr pt va mx s = (if nul then returnK (0, bs) else bindK (copyinstr pt (PGROUNDDOWN va + PGSIZE) (mx - ?n))
           (\<lambda>(r, rest). returnK (r, bs @ rest))) s"
        using nz pa i by (simp add: copyinstr.simps [of pt va mx] bindK_def walkaddr_eq [OF 1(2)] Let_def getmem_def getK_def)
      have "copyinstr pt (PGROUNDDOWN va + PGSIZE) (mx - ?n) s = Ok (ustr (pmem s) pt (PGROUNDDOWN va + PGSIZE) (mx - ?n)) s" if "\<not> nul"
        by (rule 1(1) [OF nz refl refl pa that 1(2)])
      then show ?thesis unfolding c u by (cases nul) (auto simp: K_defs split: prod.splits)
    qed
  qed
qed

section \<open>Writing\<close>

primrec uwrite :: "mem \<Rightarrow> u64 \<Rightarrow> u64 \<Rightarrow> bytes \<Rightarrow> int \<times> mem" where
  "uwrite m pt va [] = (0, m)"
| "uwrite m pt va (b # bs) =
     (case uaddr m pt va of None \<Rightarrow> (- 1, m) | Some a \<Rightarrow> uwrite (m(a := b)) pt (va + 1) bs)"

text \<open>No table page is accessible to the user.\<close>

definition user_sep :: "mem \<Rightarrow> u64 \<Rightarrow> u64 set \<Rightarrow> bool" where
  "user_sep m pt own \<longleftrightarrow> (\<forall>va. user_pa m pt va \<noteq> 0 \<longrightarrow> user_pa m pt va \<notin> own)"

lemma user_write:
  assumes inv: "pt_inv m pt own" and sep: "user_sep m pt own" and a: "user_pa m pt va = pa" "pa \<noteq> 0" "\<And>x. \<not> in_page pa x \<Longrightarrow> m' x = m x"
  shows "pt_inv m' pt own" "user_sep m' pt own" "user_pa m' pt = user_pa m pt" "uaddr m' pt = uaddr m pt"
proof -
  have "page_aligned pa" "pa \<notin> own" using a(1,2) sep by (auto simp: user_sep_def)
  then have eq: "m' x = m x" if "p \<in> own" "in_page p x" for p x
    using a(3) pages_disjoint [OF pt_invD(1) [OF inv that(1)] _ _ that(2), of pa] that(1) by blast
  show "pt_inv m' pt own" by (rule pt_inv_cong [OF inv eq])
  have "lookup m' pt vb = lookup m pt vb" for vb by (rule lookup_cong [OF inv eq])
  then show u: "user_pa m' pt = user_pa m pt" by (simp add: user_pa_def fun_eq_iff)
  then show "user_sep m' pt own" "uaddr m' pt = uaddr m pt" using sep by (simp_all add: user_sep_def uaddr_def fun_eq_iff)
qed

lemma mwrite_Nil [simp]: "mwrite m a [] = m"
  by (simp add: mwrite_def)

lemma mwrite_Cons:
  assumes "length bs < 2 ^ 64 - 1" shows "mwrite m a (b # bs) = mwrite (m(a := b)) (a + 1) bs"
proof
  fix x
  show "mwrite m a (b # bs) x = mwrite (m(a := b)) (a + 1) bs x"
  proof (cases "x = a")
    case True
    have "unat (a - (a + 1)) = 2 ^ 64 - 1" by (simp add: unsigned_minus_1_eq_mask mask_eq_exp_minus_1)
    then show ?thesis using assms True by (simp add: mwrite_def)
  next
    case False
    have "unat (x - a) \<noteq> 0" using False by (simp add: unat_eq_0)
    moreover have "unat (x - (a + 1)) = unat (x - a) - 1" using unat_minus_Suc64 [of x a] False by simp
    ultimately show ?thesis using False by (auto simp: mwrite_def nth_Cons')
  qed
qed

lemma uwrite_chunk:
  assumes "pt_inv m pt own" "user_sep m pt own" "on_page va (length xs)" "user_pa m pt (PGROUNDDOWN va) = pa" "pa \<noteq> 0"
  shows "uwrite m pt va (xs @ ys) = uwrite (mwrite m (pa + (va - PGROUNDDOWN va)) xs) pt (va + of_nat (length xs)) ys"
  using assms
proof (induction xs arbitrary: m va)
  case Nil
  then show ?case by (simp add: mwrite_def)
next
  case (Cons b xs)
  let ?a = "pa + (va - PGROUNDDOWN va)"
  have a: "uaddr m pt va = Some ?a" using Cons.prems by (simp add: uaddr_def)
  have ip: "in_page pa ?a" using page_offset_less [of va] by (simp add: in_page_def)
  define m1 where "m1 = m(?a := b)"
  have uw: "pt_inv m1 pt own" "user_sep m1 pt own" "user_pa m1 pt = user_pa m pt"
    by (rule user_write [OF Cons.prems(1,2,4,5)], use ip in \<open>auto simp: m1_def\<close>)+
  have len: "length xs < PGSIZE" using Cons.prems(3) by (simp add: on_page_def)
  have mw: "mwrite m ?a (b # xs) = mwrite m1 (?a + 1) xs" unfolding m1_def by (rule mwrite_Cons) (use len in simp)
  have run: "uwrite m pt va ((b # xs) @ ys) = uwrite m1 pt (va + 1) (xs @ ys)" using a by (simp add: m1_def)
  have "uwrite m1 pt (va + 1) (xs @ ys) = uwrite (mwrite m1 (?a + 1) xs) pt (va + of_nat (length (b # xs))) ys"
  proof (cases "xs = []")
    case False
    then have o: "PGROUNDDOWN (va + 1) = PGROUNDDOWN va" "on_page (va + 1) (length xs)"
      using on_page_step [of va "length xs"] Cons.prems(3) by auto
    have s: "pa + (va + 1 - PGROUNDDOWN va) = ?a + 1" "va + 1 + of_nat (length xs) = va + of_nat (length (b # xs))" by simp_all
    show ?thesis using Cons.IH [OF uw(1,2) o(2)] Cons.prems(4,5) uw(3) unfolding o(1) s by simp
  qed simp
  then show ?case unfolding run mw .
qed

lemma copyout_uwrite:
  assumes "pt_inv (pmem s) pt own" "user_sep (pmem s) pt own"
  shows "copyout pt va src s = (case uwrite (pmem s) pt va src of (r, m) \<Rightarrow> Ok r (s\<lparr>pmem := m\<rparr>))"
  using assms
proof (induction pt va src arbitrary: s rule: copyout.induct)
  case (1 pt va src)
  let ?n = "chunk va (length src)" and ?pa = "user_pa (pmem s) pt (PGROUNDDOWN va)"
  show ?case
  proof (cases "src = []")
    case True
    then show ?thesis by (simp add: copyout.simps [of pt va "[]"] K_defs)
  next
    case False
    show ?thesis
    proof (cases "?pa = 0")
      case True
      then show ?thesis using False
        by (cases src) (simp_all add: copyout.simps [of pt va "_ # _"] K_defs walkaddr_eq [OF 1(2)] Let_def uaddr_def)
    next
      case pa: False
      have nz: "length src \<noteq> 0" using False by simp
      let ?a = "?pa + (va - PGROUNDDOWN va)"
      define m where "m = mwrite (pmem s) ?a (take ?n src)"
      have len: "length (take ?n src) = ?n" using chunk_bounds(1) [of va "length src"] by simp
      have op: "on_page va ?n" by (rule on_page_chunk)
      have out: "m x = pmem s x" if "\<not> in_page ?pa x" for x
        unfolding m_def
      proof (rule mwrite_outside, rule ccontr)
        assume c: "\<not> length (take ?n src) \<le> unat (x - ?a)"
        have "unat (x - ?a) + unat (va - PGROUNDDOWN va) < PGSIZE" using c op len by (simp add: on_page_def)
        moreover have "x - ?pa = (x - ?a) + (va - PGROUNDDOWN va)" by simp
        ultimately have "unat (x - ?pa) < PGSIZE" by (simp only: unat_word_ariths) simp
        then show False using that by (simp add: in_page_def)
      qed
      note uw = user_write [OF 1(2,3) refl pa out]
      have st: "pmem (s\<lparr>pmem := m\<rparr>) = m" by simp
      have IH: "copyout pt (PGROUNDDOWN va + PGSIZE) (drop ?n src) (s\<lparr>pmem := m\<rparr>)
          = (case uwrite m pt (PGROUNDDOWN va + PGSIZE) (drop ?n src) of (r, m') \<Rightarrow> Ok r (s\<lparr>pmem := m'\<rparr>))"
        using 1(1) [OF nz refl refl pa, of "s\<lparr>pmem := m\<rparr>"] uw(1,2) by simp
      have "uwrite (pmem s) pt va (take ?n src @ drop ?n src) = uwrite m pt (va + of_nat ?n) (drop ?n src)"
        unfolding m_def using uwrite_chunk [OF 1(2,3) _ refl pa, of "take ?n src" "drop ?n src"] op unfolding len by simp
      moreover have "uwrite m pt (va + of_nat ?n) (drop ?n src) = uwrite m pt (PGROUNDDOWN va + PGSIZE) (drop ?n src)"
        using chunk_next [of va "length src"] chunk_bounds(1) [of va "length src"] by (cases "?n = length src") auto
      ultimately have "uwrite (pmem s) pt va src = uwrite m pt (PGROUNDDOWN va + PGSIZE) (drop ?n src)" by simp
      moreover have "copyout pt va src s = copyout pt (PGROUNDDOWN va + PGSIZE) (drop ?n src) (s\<lparr>pmem := m\<rparr>)"
        using nz pa by (simp add: copyout.simps [of pt va src] bindK_def thenK_def walkaddr_eq [OF 1(2)] Let_def setmem_def modifyK_def m_def)
      ultimately show ?thesis using IH by simp
    qed
  qed
qed

end
