(* ===== verification/VmProps.thy ===== *)
theory VmProps
  imports UserMem
begin

text \<open>
  The properties of the page tables: mapping and unmapping a page, and the copies between the kernel
  and user memory, with a concrete three-level table on which they are applied.
\<close>

section \<open>Unmapping a page\<close>

lemma below_one_page:
  assumes "page_aligned va" "va < MAXVA" shows "pages_below va (va + PGSIZE) = [va]"
proof -
  have b: "unat va < 2 ^ 38" using assms(2) by (simp add: word_less_nat_alt)
  then have "unat (va + 4096) = unat va + 4096" by (simp add: unat_word_ariths)
  then have "va < va + PGSIZE" by (simp add: word_less_nat_alt)
  moreover have "va + PGSIZE - 1 - va = 4095" by simp
  ultimately show ?thesis by (simp add: pages_below_def pages_to_def)
qed

lemma unmap_page_ok:
  fixes s :: "'z kalloc_state_scheme"
  assumes ok: "vm_ok s pt own fl" and va: "page_aligned va" "va < MAXVA"
    and e: "lookup (pmem s) pt va = e" "pte_valid e" "PTE_FLAGS e \<noteq> PTE_V"
    and p: "PTE2PA e = p" "valid_page (kend s) p" "p \<notin> own" "p \<notin> set fl"
  shows "\<exists>t. uvmunmap pt va 1 True s = Ok () t \<and> vm_ok t pt own (p # fl)
     \<and> (\<forall>vb. lookup (pmem t) pt vb = (if same_path 3 va vb then 0 else lookup (pmem s) pt vb))"
proof -
  note d = vm_okD [OF ok]
  obtain r where r: "tab (pmem s) pt va 2 = Some r" using e by (auto simp: lookup_def split: option.splits)
  have w: "walk pt va False s = Ok (slot r 2 va) s"
    unfolding walk_run [OF va(2)] by (rule walk_found [OF r, where k = 0]) simp_all
  have nz: "slot r 2 va \<noteq> 0" using slot_nonzero pt_invD(1-3) [OF d(2)] r by (metis order_refl)
  obtain u where u: "kfree p s = Ok () u" "kalloc_ok u (p # fl)" "\<And>x. \<not> in_page p x \<Longrightarrow> pmem u x = pmem s x"
    using kfree_correct [OF d(1) p(2,4)] by blast
  have ku: "kend u = kend s" using u(1) kfree_eq [OF p(2)] d(1) by (auto simp: kalloc_ok_def)
  have eq: "pmem u x = pmem s x" if "q \<in> own" "in_page q x" for q x
    using u(3) pages_disjoint [OF pt_invD(1) [OF d(2) that(1)] valid_pageD(1) [OF p(2)] _ that(2)] that(1) p(3) by blast
  have inv: "pt_inv (pmem u) pt own" by (rule pt_inv_cong [OF d(2) eq])
  have vu: "vm_ok u pt own (p # fl)" using u(2) inv d(3,4) p(3) ku by (auto simp: vm_ok_def)
  have tu: "tab (pmem u) pt va 2 = Some r" by (rule trans [OF tab_cong [OF d(2) eq] r]) simp_all
  have lu: "lookup (pmem u) pt vb = lookup (pmem s) pt vb" for vb by (rule lookup_cong [OF d(2) eq])
  note ls = vm_leaf_store [OF vu tu, of 0]
  let ?t = "u\<lparr>pmem := store64 (pmem u) (slot r 2 va) 0\<rparr>"
  have "e AND 1 \<noteq> 0" "load64 (pmem s) (slot r 2 va) = e" using e(1,2) lookup_leaf [OF r] by (simp_all add: pte_valid_def)
  then have "unmap_one pt True va s = Ok () ?t"
    using nz e(3) p(1) u(1) w by (simp add: unmap_one_def K_defs getmem_def setmem_def)
  moreover have "uvmunmap pt va 1 True s = unmap_one pt True va s"
    using va(1) below_one_page [OF va]
    by (simp add: uvmunmap_def thenK_panic_if mod_PGSIZE K_defs split: outcome.splits)
  ultimately show ?thesis using ls(1,2) lu by (intro exI [of _ ?t]) auto
qed

section \<open>Round trips through user memory\<close>

text \<open>No physical byte is mapped at two user addresses.\<close>

definition user_inj :: "mem \<Rightarrow> u64 \<Rightarrow> bool" where
  "user_inj m pt \<longleftrightarrow> (\<forall>va vb a. uaddr m pt va = Some a \<longrightarrow> uaddr m pt vb = Some a \<longrightarrow> va = vb)"

lemma uaddr_write:
  assumes inv: "pt_inv m pt own" "user_sep m pt own" and a: "uaddr m pt va = Some a"
  shows "pt_inv (m(a := b)) pt own" "user_sep (m(a := b)) pt own" "uaddr (m(a := b)) pt = uaddr m pt"
proof -
  let ?pa = "user_pa m pt (PGROUNDDOWN va)"
  have pa: "?pa \<noteq> 0" "a = ?pa + (va - PGROUNDDOWN va)" using a by (auto simp: uaddr_def Let_def split: if_splits)
  then have "in_page ?pa a" using page_offset_less [of va] by (simp add: in_page_def)
  then have eq: "\<not> in_page ?pa x \<Longrightarrow> (m(a := b)) x = m x" for x by auto
  show "pt_inv (m(a := b)) pt own" "user_sep (m(a := b)) pt own" "uaddr (m(a := b)) pt = uaddr m pt"
    by (rule user_write [OF inv refl pa(1) eq]; assumption)+
qed

lemma uwrite_frame:
  assumes "pt_inv m pt own" "user_sep m pt own" "uwrite m pt va bs = (r, m')"
  shows "uaddr m' pt = uaddr m pt \<and> (\<forall>x. (\<forall>i<length bs. uaddr m pt (va + of_nat i) \<noteq> Some x) \<longrightarrow> m' x = m x)
     \<and> pt_inv m' pt own"
  using assms
proof (induction bs arbitrary: m va)
  case (Cons b bs)
  show ?case
  proof (cases "uaddr m pt va")
    case None
    then show ?thesis using Cons.prems by auto
  next
    case (Some a)
    define m1 where "m1 = m(a := b)"
    note w = uaddr_write [OF Cons.prems(1,2) Some, of b, folded m1_def]
    have "uwrite m1 pt (va + 1) bs = (r, m')" using Cons.prems(3) Some by (simp add: m1_def)
    note IH = Cons.IH [OF w(1,2) this]
    have "m' x = m x" if x: "\<forall>i<length (b # bs). uaddr m pt (va + of_nat i) \<noteq> Some x" for x
    proof -
      have "uaddr m pt (va + 1 + of_nat i) \<noteq> Some x" if "i < length bs" for i
        using x [rule_format, of "Suc i"] that by (simp add: add.assoc)
      then have "m' x = m1 x" using IH w(3) by simp
      moreover have "x \<noteq> a" using x [rule_format, of 0] Some by auto
      ultimately show ?thesis by (simp add: m1_def)
    qed
    then show ?thesis using IH w(3) by (simp del: length_Cons)
  qed
qed simp

lemma uwrite_ubytes:
  assumes "pt_inv m pt own" "user_sep m pt own" "user_inj m pt" "length bs < 2 ^ 64" "uwrite m pt va bs = (0, m')"
  shows "ubytes m' pt va (length bs) = (0, bs)"
  using assms
proof (induction bs arbitrary: m va)
  case (Cons b bs)
  obtain a where a: "uaddr m pt va = Some a" using Cons.prems(5) by (auto split: option.splits)
  note w = uaddr_write [OF Cons.prems(1,2) a, of b]
  have run: "uwrite (m(a := b)) pt (va + 1) bs = (0, m')" using Cons.prems(5) a by simp
  have inj: "user_inj (m(a := b)) pt" using Cons.prems(3) by (simp add: user_inj_def w(3))
  have IH: "ubytes m' pt (va + 1) (length bs) = (0, bs)" using Cons.IH [OF w(1,2) inj _ run] Cons.prems(4) by simp
  note f = uwrite_frame [OF w(1,2) run]
  have "uaddr m pt (va + 1 + of_nat i) \<noteq> Some a" if i: "i < length bs" for i
  proof
    assume "uaddr m pt (va + 1 + of_nat i) = Some a"
    then have "va + 1 + of_nat i = va" using a Cons.prems(3) unfolding user_inj_def by blast
    then have "(of_nat (Suc i) :: u64) = 0" by (simp add: add.assoc)
    then show False using i Cons.prems(4) by (simp add: of_nat_eq_0_iff word_of_nat_eq_0_iff nat_dvd_not_less del: of_nat_Suc)
  qed
  then have "m' a = b" using f w(3) by simp
  moreover have "uaddr m' pt va = Some a" using f w(3) a by simp
  ultimately show ?case using IH by simp
qed simp

section \<open>A concrete table\<close>

definition demo_mem :: mem where
  "demo_mem = store64 (store64 (store64 (\<lambda>_. 0) 0x80100000 (PA2PTE 0x80101000 OR PTE_V))
      0x80101000 (PA2PTE 0x80102000 OR PTE_V)) 0x80102000 (PA2PTE 0x80103000 OR PTE_R OR PTE_W OR PTE_U OR PTE_V)"

definition demo_vm :: kalloc_state where
  "demo_vm = (boot_kalloc 0x80021000)\<lparr>pmem := demo_mem\<rparr>"

abbreviation demo_own :: "u64 set" where
  "demo_own \<equiv> {0x80102000, 0x80101000, 0x80100000}"

lemma zero_root: "page_aligned pt \<Longrightarrow> pt \<noteq> 0 \<Longrightarrow> pt_inv (\<lambda>_. 0) pt {pt}"
proof -
  assume a: "page_aligned pt" "pt \<noteq> 0"
  have "tab (\<lambda>_. 0) pt va (Suc 0) = None" for va by (simp add: load64_zero)
  then have n: "tab (\<lambda>_. 0) pt va k = (if k = 0 then Some pt else None)" for va k
    using tab_None_mono [of "\<lambda>_. 0" pt va "Suc 0" k] by (cases k) auto
  show ?thesis using a by (auto simp: pt_inv_def n split: if_splits)
qed

lemma demo_slot [simp]: "slot p k 0 = p"
  by (simp add: slot_def PX_def)

lemma demo_table:
  "pt_inv demo_mem 0x80100000 demo_own"
  "lookup demo_mem 0x80100000 vb = (if same_path 3 0 vb then PA2PTE 0x80103000 OR PTE_R OR PTE_W OR PTE_U OR PTE_V else 0)"
proof -
  let ?m1 = "store64 (\<lambda>_. 0) 0x80100000 (PA2PTE 0x80101000 OR PTE_V)"
  let ?m2 = "store64 ?m1 0x80101000 (PA2PTE 0x80102000 OR PTE_V)"
  have al: "page_aligned 0x80100000" "page_aligned 0x80101000" "page_aligned 0x80102000" by (simp_all add: page_aligned_def)
  have z: "?m1 x = 0" if "in_page p x" "page_aligned p" "p \<noteq> 0x80100000" for p x
    using slot_outside [OF that(2) al(1) that(3) that(1), of "\<lambda>_. 0" 0 0] by simp
  note i0 = zero_root [OF al(1)]
  have l0: "load64 (\<lambda>_. 0) a = 0" for a by (simp add: load64_zero)
  have 1: "pt_inv ?m1 0x80100000 {0x80101000, 0x80100000}" "tab ?m1 0x80100000 0 (Suc 0) = Some 0x80101000"
     "\<And>vb. lookup ?m1 0x80100000 vb = lookup (\<lambda>_. 0) 0x80100000 vb"
    using table_store [OF i0, of 0 0 "0x80100000" "0x80101000"] al l0 by simp_all
  have l1: "load64 ?m1 0x80101000 = 0" by (rule load64_zero, rule z [OF _ al(2)]) (simp_all add: in_page_def unat_of_nat)
  have 2: "pt_inv ?m2 0x80100000 demo_own" "tab ?m2 0x80100000 0 (Suc (Suc 0)) = Some 0x80102000"
     "\<And>vb. lookup ?m2 0x80100000 vb = lookup ?m1 0x80100000 vb"
    using table_store [OF 1(1,2), of "0x80102000"] al l1 z [OF _ al(3)] by simp_all
  then have t2: "tab ?m2 0x80100000 0 2 = Some 0x80102000" by (simp only: numeral_2_eq_2)
  show "pt_inv demo_mem 0x80100000 demo_own"
    using leaf_store(1) [OF 2(1) t2] by (simp add: demo_mem_def)
  have "lookup (\<lambda>_. 0) 0x80100000 vb = 0" by (simp add: lookup_def numeral_2_eq_2 l0)
  then show "lookup demo_mem 0x80100000 vb = (if same_path 3 0 vb then PA2PTE 0x80103000 OR PTE_R OR PTE_W OR PTE_U OR PTE_V else 0)"
    using leaf_store(2) [OF 2(1) t2] 1(3) 2(3) by (simp add: demo_mem_def)
qed

lemma demo_vm_ok: "vm_ok demo_vm 0x80100000 demo_own []"
proof -
  have "kalloc_ok demo_vm []" using kalloc_ok_mem [OF boot_kalloc_ok] by (simp add: demo_vm_def)
  then show ?thesis using demo_table(1) by (simp add: vm_ok_def demo_vm_def valid_page_def page_aligned_def)
qed

lemma page_zero: "PGROUNDDOWN va = 0 \<longleftrightarrow> va < PGSIZE"
  by (simp add: word_unat_eq_iff unat_PGROUNDDOWN word_less_nat_alt div_eq_0_iff)

lemma demo_user_pa: "user_pa demo_mem 0x80100000 va = (if va < PGSIZE then 0x80103000 else 0)"
proof (cases "va < MAXVA")
  case True
  then have "same_path 3 0 va \<longleftrightarrow> va < PGSIZE" using same_path_page [of 0 va] page_zero [of va] page_zero [of 0] by simp
  then show ?thesis using True
    by (auto simp: user_pa_def demo_table(2) Let_def pte_valid_def PTE2PA_def PA2PTE_def)
next
  case False
  then have "\<not> va < PGSIZE" by (simp add: word_less_nat_alt)
  then show ?thesis using False by (simp add: user_pa_def)
qed

lemma demo_uaddr: "uaddr demo_mem 0x80100000 va = (if va < PGSIZE then Some (0x80103000 + va) else None)"
proof -
  have "PGROUNDDOWN va < PGSIZE \<longleftrightarrow> va < PGSIZE" 
    by (auto simp: word_less_nat_alt unat_PGROUNDDOWN div_eq_0_iff)
  then show ?thesis using page_zero [of va] by (simp add: uaddr_def demo_user_pa)
qed

lemma demo_user: "user_sep demo_mem 0x80100000 demo_own" "user_inj demo_mem 0x80100000"
  by (auto simp: user_sep_def demo_user_pa user_inj_def demo_uaddr split: if_splits)

lemma demo_zero: "demo_mem 0x80103FFE = 0" "demo_mem 0x80103FFF = 0" "demo_mem 0x80104000 = 0"
  by (simp_all add: demo_mem_def store64_outside)

lemma demo_read:
  "ubytes demo_mem 0x80100000 0xFFE 3 = (- 1, [0, 0])" "ustr demo_mem 0x80100000 0xFFE 3 = (0, [0])"
  by (simp_all add: numeral_3_eq_3 demo_uaddr demo_zero)

lemma demo_write:
  "uwrite demo_mem 0x80100000 0xFFE [7, 9] = (0, demo_mem(0x80103FFE := 7, 0x80103FFF := 9))"
proof -
  have "uaddr demo_mem 0x80100000 0xFFE = Some 0x80103FFE" by (simp add: demo_uaddr)
  from uaddr_write(3) [OF demo_table(1) demo_user(1) this, of 7] show ?thesis
    by (simp add: demo_uaddr)
qed

section \<open>Properties\<close>

text \<open>C10. Mapping one page refines an update of the function from virtual addresses to leaf entries:
  after \<open>mappages\<close> returns 0 exactly the addresses of that page have the new entry and every other
  lookup is unchanged; it returns -1 only when fewer than two pages were free, and then no lookup has
  changed.  Table pages come from the free list, and no byte outside the tables and the free pages is
  written.\<close>

theorem map_page_refines:
  fixes s :: "'z kalloc_state_scheme"
  assumes "vm_ok s pt own fl" "page_aligned va" "va < MAXVA" "\<not> pte_valid (lookup (pmem s) pt va)"
  shows "\<exists>r t own' fl'. mappages pt va PGSIZE pa perm s = Ok r t \<and> vm_ok t pt own' fl' \<and> own \<subseteq> own'
     \<and> own' \<union> set fl' = own \<union> set fl \<and> vm_frame (own \<union> set fl) s t
     \<and> (if r = 0 then \<forall>vb. lookup (pmem t) pt vb = (if same_path 3 va vb then PA2PTE pa OR perm OR PTE_V else lookup (pmem s) pt vb)
        else r = - 1 \<and> fl' = [] \<and> length fl < 2 \<and> (\<forall>vb. lookup (pmem t) pt vb = lookup (pmem s) pt vb))"
  by (rule map_page_ok [OF assms])

theorem map_page_refines_witness:
  "\<exists>r t own' fl'. mappages 0x80100000 0x1000 PGSIZE 0x80104000 PTE_R demo_vm = Ok r t \<and> vm_ok t 0x80100000 own' fl'
     \<and> demo_own \<subseteq> own' \<and> own' \<union> set fl' = demo_own"
proof -
  have "same_path 3 0 0x1000 \<longleftrightarrow> False" using same_path_page [of 0 "0x1000"] page_zero [of "0x1000"] page_zero [of 0] by simp
  then have "\<not> pte_valid (lookup (pmem demo_vm) 0x80100000 0x1000)" by (simp add: demo_vm_def demo_table(2))
  then show ?thesis using map_page_refines [OF demo_vm_ok, of "0x1000" "0x80104000" PTE_R]
    by (simp add: page_aligned_def) blast
qed

text \<open>C15. Mapping a page that is mapped already is caught: \<open>mappages\<close> panics with \<^verbatim>\<open>remap\<close>.\<close>

theorem remap_panics:
  fixes s :: "'z kalloc_state_scheme"
  assumes "vm_ok s pt own fl" "page_aligned va" "va < MAXVA" "pte_valid (lookup (pmem s) pt va)"
  shows "mappages pt va PGSIZE pa perm s = Panic ''mappages: remap''"
  by (rule map_page_remap [OF assms])

theorem remap_panics_witness: "mappages 0x80100000 0 PGSIZE 0x80104000 PTE_R demo_vm = Panic ''mappages: remap''"
  by (rule remap_panics [OF demo_vm_ok]) (simp_all add: page_aligned_def demo_vm_def demo_table(2) pte_valid_def PA2PTE_def)

text \<open>C14. Unmapping a page with \<^verbatim>\<open>do_free\<close> clears the entry of exactly that page and puts the physical
  page on the free list; the tables stay well formed and disjoint from the free pages.\<close>

theorem unmap_page_frees:
  fixes s :: "'z kalloc_state_scheme"
  assumes "vm_ok s pt own fl" "page_aligned va" "va < MAXVA"
    and "lookup (pmem s) pt va = e" "pte_valid e" "PTE_FLAGS e \<noteq> PTE_V"
    and "PTE2PA e = p" "valid_page (kend s) p" "p \<notin> own" "p \<notin> set fl"
  shows "\<exists>t. uvmunmap pt va 1 True s = Ok () t \<and> vm_ok t pt own (p # fl)
     \<and> (\<forall>vb. lookup (pmem t) pt vb = (if same_path 3 va vb then 0 else lookup (pmem s) pt vb))"
  by (rule unmap_page_ok [OF assms])

theorem unmap_page_frees_witness:
  "\<exists>t. uvmunmap 0x80100000 0 1 True demo_vm = Ok () t \<and> vm_ok t 0x80100000 demo_own [0x80103000]"
proof -
  have l: "lookup (pmem demo_vm) 0x80100000 0 = PA2PTE 0x80103000 OR PTE_R OR PTE_W OR PTE_U OR PTE_V"
    by (simp add: demo_vm_def demo_table(2))
  show ?thesis using unmap_page_frees [OF demo_vm_ok _ _ l _ _ refl]
    by (auto simp: page_aligned_def pte_valid_def PTE_FLAGS_def PTE2PA_def PA2PTE_def valid_page_def demo_vm_def)
qed

text \<open>C11. \<open>copyin\<close> and \<open>copyinstr\<close>, which work page by page, read exactly what a loop over single bytes
  with one translation per byte reads: the same bytes, the same stop at the terminating zero and the same
  -1 at the first byte the user has no access to.  Neither changes the state.\<close>

theorem copyin_bytewise:
  assumes "pt_inv (pmem s) pt own"
  shows "copyin pt va len s = Ok (ubytes (pmem s) pt va len) s \<and> copyinstr pt va mx s = Ok (ustr (pmem s) pt va mx) s"
  using copyin_ubytes [OF assms] copyinstr_ustr [OF assms] by blast

theorem copyin_bytewise_witness:
  "copyin 0x80100000 0xFFE 3 demo_vm = Ok (- 1, [0, 0]) demo_vm \<and> copyinstr 0x80100000 0xFFE 3 demo_vm = Ok (0, [0]) demo_vm"
  using copyin_bytewise [OF vm_okD(2) [OF demo_vm_ok], of "0xFFE" 3 3] demo_read by (simp add: demo_vm_def)

text \<open>C13. What \<open>copyout\<close> has written successfully, \<open>copyin\<close> reads back.\<close>

theorem copyout_copyin:
  assumes "pt_inv (pmem s) pt own" "user_sep (pmem s) pt own" "user_inj (pmem s) pt" "length src < 2 ^ 64"
    and "copyout pt va src s = Ok 0 t"
  shows "copyin pt va (length src) t = Ok (0, src) t"
proof -
  obtain m where m: "uwrite (pmem s) pt va src = (0, m)" "t = s\<lparr>pmem := m\<rparr>"
    using assms(5) copyout_uwrite [OF assms(1,2)] by (auto split: prod.splits)
  have "pt_inv (pmem t) pt own" using uwrite_frame [OF assms(1,2) m(1)] m(2) by simp
  from copyin_ubytes [OF this] show ?thesis using uwrite_ubytes [OF assms(1-4) m(1)] m(2) by simp
qed

theorem copyout_copyin_witness:
  "\<exists>t. copyout 0x80100000 0xFFE [7, 9] demo_vm = Ok 0 t \<and> copyin 0x80100000 0xFFE 2 t = Ok (0, [7, 9]) t"
proof -
  have i: "pt_inv (pmem demo_vm) 0x80100000 demo_own" "user_sep (pmem demo_vm) 0x80100000 demo_own" "user_inj (pmem demo_vm) 0x80100000"
    using demo_table(1) demo_user by (simp_all add: demo_vm_def)
  obtain t where t: "copyout 0x80100000 0xFFE [7, 9] demo_vm = Ok 0 t"
    using copyout_uwrite [OF i(1,2), of "0xFFE" "[7, 9]"] demo_write by (simp add: demo_vm_def)
  then show ?thesis using copyout_copyin [OF i _ t] by (simp add: numeral_2_eq_2 [symmetric])
qed

text \<open>C12. \<open>copyout\<close> writes nothing but the bytes the page table gives the user at the addresses copied to:
  whatever the arguments and the result, every other byte of physical memory, the page tables among them,
  is unchanged, and so is every other part of the state.\<close>

theorem copyout_confined:
  assumes "pt_inv (pmem s) pt own" "user_sep (pmem s) pt own"
  shows "\<exists>r m. copyout pt va src s = Ok r (s\<lparr>pmem := m\<rparr>) \<and> pt_inv m pt own
     \<and> (\<forall>x. (\<forall>i<length src. uaddr (pmem s) pt (va + of_nat i) \<noteq> Some x) \<longrightarrow> m x = pmem s x)"
proof -
  obtain r m where "uwrite (pmem s) pt va src = (r, m)" by fastforce
  then show ?thesis using copyout_uwrite [OF assms] uwrite_frame [OF assms] by fastforce
qed

theorem copyout_confined_witness:
  "\<exists>r m. copyout 0x80100000 0xFFE [7, 9, 11] demo_vm = Ok r (demo_vm\<lparr>pmem := m\<rparr>) \<and> m 0x80104000 = 0 \<and> pt_inv m 0x80100000 demo_own"
proof -
  have i: "pt_inv (pmem demo_vm) 0x80100000 demo_own" "user_sep (pmem demo_vm) 0x80100000 demo_own"
    using demo_table(1) demo_user by (simp_all add: demo_vm_def)
  obtain r m where m: "copyout 0x80100000 0xFFE [7, 9, 11] demo_vm = Ok r (demo_vm\<lparr>pmem := m\<rparr>)" "pt_inv m 0x80100000 demo_own"
     "\<forall>x. (\<forall>i<length [7, 9, 11 :: u8]. uaddr (pmem demo_vm) 0x80100000 (0xFFE + of_nat i) \<noteq> Some x) \<longrightarrow> m x = pmem demo_vm x"
    using copyout_confined [OF i, of "0xFFE" "[7, 9, 11]"] by blast
  then have "m 0x80104000 = 0" using demo_zero by (auto simp: demo_vm_def demo_uaddr less_Suc_eq)
  then show ?thesis using m(1,2) by blast
qed

end
