(* ===== verification/RingBuf.thy ===== *)
theory RingBuf
  imports File VmProps
begin

text \<open>
  The ring buffers of the kernel, each an array with two counters that only grow and wrap around:
  \<^verbatim>\<open>struct pipe\<close>, the transmit buffer of the UART and the input buffer of the console.  Each is a
  bounded first-in first-out queue: the locale \<open>fifo\<close> is that interface, and the three buffers are
  its instances.
\<close>

section \<open>Queues\<close>

locale fifo =
  fixes ok :: "'s \<Rightarrow> bool" and queue :: "'s \<Rightarrow> 'b list" and put :: "'b \<Rightarrow> 's \<Rightarrow> 's" and get :: "'s \<Rightarrow> 'b \<times> 's" and cap :: nat
  assumes bounded: "ok s \<Longrightarrow> length (queue s) \<le> cap"
    and put_ok: "ok s \<Longrightarrow> length (queue s) < cap \<Longrightarrow> ok (put b s)"
    and put_queue: "ok s \<Longrightarrow> length (queue s) < cap \<Longrightarrow> queue (put b s) = queue s @ [b]"
    and get_ok: "ok s \<Longrightarrow> queue s \<noteq> [] \<Longrightarrow> ok (snd (get s))"
    and get_queue: "ok s \<Longrightarrow> queue s \<noteq> [] \<Longrightarrow> queue s = fst (get s) # queue (snd (get s))"
begin

lemma puts:
  "ok s \<Longrightarrow> length (queue s) + length bs \<le> cap \<Longrightarrow> ok (fold put bs s) \<and> queue (fold put bs s) = queue s @ bs"
  by (induction bs arbitrary: s) (auto simp: put_ok put_queue)

primrec get_many :: "nat \<Rightarrow> 's \<Rightarrow> 'b list \<times> 's" where
  "get_many 0 s = ([], s)"
| "get_many (Suc n) s = (let (b, t) = get s; (bs, u) = get_many n t in (b # bs, u))"

lemma gets_take:
  "ok s \<Longrightarrow> n \<le> length (queue s) \<Longrightarrow> \<exists>t. get_many n s = (take n (queue s), t) \<and> ok t \<and> queue t = drop n (queue s)"
proof (induction n arbitrary: s)
  case (Suc n)
  then have ne: "queue s \<noteq> []" by auto
  note g = get_ok [OF Suc.prems(1) ne] get_queue [OF Suc.prems(1) ne]
  have "n \<le> length (queue (snd (get s)))" using Suc.prems(2) g(2) by (metis Suc_le_mono length_Cons)
  from Suc.IH [OF g(1) this] obtain t where "get_many n (snd (get s)) = (take n (queue (snd (get s))), t)" "ok t"
     "queue t = drop n (queue (snd (get s)))" by blast
  then show ?case using g(2) by (metis (no_types, lifting) case_prod_conv drop_Suc_Cons get_many.simps(2) prod.collapse take_Suc_Cons)
qed auto

text \<open>What goes in comes out, in order.\<close>

lemma puts_gets:
  assumes "ok s" "queue s = []" "length bs \<le> cap"
  shows "\<exists>t. get_many (length bs) (fold put bs s) = (bs, t) \<and> ok t \<and> queue t = []"
  using puts [of s bs] gets_take [of "fold put bs s" "length bs"] assms by simp

end

section \<open>Rings\<close>

text \<open>The elements between two counters.\<close>

definition ring_seg :: "nat \<Rightarrow> 'b list \<Rightarrow> 'a::len word \<Rightarrow> 'a word \<Rightarrow> 'b list" where
  "ring_seg cap d r w = map (\<lambda>i. d ! (unat (r + of_nat i) mod cap)) [0..<unat (w - r)]"

lemma length_ring_seg [simp]: "length (ring_seg cap d r w) = unat (w - r)"
  by (simp add: ring_seg_def)

lemma unat_of_nat_small: "n < 2 ^ LENGTH('a) \<Longrightarrow> unat (of_nat n :: 'a::len word) = n"
  by (simp add: unat_of_nat)

lemma ring_index:
  assumes "cap dvd 2 ^ LENGTH('a)"
  shows "unat (r + of_nat i :: 'a::len word) mod cap = (unat r + i) mod cap"
proof -
  have "unat (r + of_nat i) = (unat r + i) mod 2 ^ LENGTH('a)"
    by (simp add: unat_word_ariths unat_of_nat mod_add_right_eq)
  then show ?thesis using mod_mod_cancel [OF assms] by simp
qed

lemma ring_index_inj:
  assumes "i < cap" "j < cap" "((a :: nat) + i) mod cap = (a + j) mod cap" shows "i = j"
proof -
  have *: "i = j" if "i \<le> j" "j < cap" "(a + i) mod cap = (a + j) mod cap" for i j
  proof -
    have "cap dvd (a + j) - (a + i)" using that by (subst mod_eq_dvd_iff_nat [symmetric]) auto
    then have "cap dvd j - i" by simp
    then show ?thesis using that dvd_imp_le [of cap "j - i"] by (cases "j - i = 0") auto
  qed
  show ?thesis using * [of i j] * [of j i] assms by (cases "i \<le> j") auto
qed

lemma ring_put_count:
  fixes r w :: "'a::len word"
  assumes "unat (w - r) < cap" "cap < 2 ^ LENGTH('a)"
  shows "unat (w + 1 - r) = Suc (unat (w - r))"
proof -
  have e: "w + 1 - r = (w - r) + 1" by simp
  have "unat ((w - r) + 1) = Suc (unat (w - r)) mod 2 ^ LENGTH('a)" by (simp add: unat_word_ariths mod_Suc_eq)
  then show ?thesis unfolding e using assms by simp
qed

lemma ring_get_count:
  fixes r w :: "'a::len word"
  assumes "r \<noteq> w" shows "unat (w - r) = Suc (unat (w - (r + 1)))"
proof -
  have e: "w - (r + 1) = (w - r) - 1" by simp
  have nz: "w - r \<noteq> 0" using assms by simp
  then have "0 < unat (w - r)" by (simp add: unat_gt_0)
  then show ?thesis unfolding e unat_minus_one [OF nz] by simp
qed

lemma ring_put:
  fixes r w :: "'a::len word"
  assumes cap: "cap dvd 2 ^ LENGTH('a)" "unat (w - r) < cap" "length d = cap" "cap < 2 ^ LENGTH('a)"
  shows "ring_seg cap (d[unat w mod cap := b]) r (w + 1) = ring_seg cap d r w @ [b]"
proof -
  let ?n = "unat (w - r)"
  note n = ring_put_count [OF cap(2,4)]
  have w: "unat w mod cap = (unat r + ?n) mod cap" using ring_index [OF cap(1), of r ?n] by simp
  have old: "(d[unat w mod cap := b]) ! (unat (r + of_nat i) mod cap) = d ! (unat (r + of_nat i) mod cap)" if "i < ?n" for i
  proof (rule nth_list_update_neq)
    show "unat w mod cap \<noteq> unat (r + of_nat i) mod cap"
      unfolding w ring_index [OF cap(1)] using ring_index_inj [of i cap ?n "unat r"] that cap(2) by force
  qed
  have "unat w mod cap < length d" using cap(2,3) by simp
  then have "(d[unat w mod cap := b]) ! (unat (r + of_nat ?n) mod cap) = b" by simp
  then show ?thesis using old unfolding ring_seg_def n by simp
qed

lemma ring_get:
  fixes r w :: "'a::len word"
  assumes "r \<noteq> w"
  shows "ring_seg cap d r w = d ! (unat r mod cap) # ring_seg cap d (r + 1) w"
proof -
  note n = ring_get_count [OF assms]
  show ?thesis unfolding ring_seg_def n upt_conv_Cons [OF zero_less_Suc] by (simp add: map_Suc_upt [symmetric] add.assoc del: upt_Suc)
qed

lemma ring_empty: "ring_seg cap d r w = [] \<longleftrightarrow> r = w"
proof -
  have "length (ring_seg cap d r w) = 0 \<longleftrightarrow> w - r = 0" by (simp only: length_ring_seg unat_eq_0)
  then show ?thesis by (simp only: length_0_conv right_minus_eq) blast
qed

lemma ring_full:
  fixes r w :: "'a::len word"
  assumes "cap < 2 ^ LENGTH('a)" "unat (w - r) \<le> cap"
  shows "unat (w - r) < cap \<longleftrightarrow> w \<noteq> r + of_nat cap"
proof -
  have "w = r + of_nat cap \<longleftrightarrow> w - r = of_nat cap" by (auto simp: algebra_simps)
  also have "\<dots> \<longleftrightarrow> unat (w - r) = cap" using assms(1) by (auto simp: word_unat_eq_iff unat_of_nat)
  finally show ?thesis using assms(2) by auto
qed

lemma unat_mod_numeral: "unat (w mod 512 :: u32) = unat w mod 512" "unat (w mod 128 :: u32) = unat w mod 128" "unat (v mod 32 :: u64) = unat v mod 32"
  by (simp_all add: unat_mod_distrib)

section \<open>Instances\<close>

definition pipe_ok :: "pipe \<Rightarrow> bool" where
  "pipe_ok p \<longleftrightarrow> length (p_data p) = PIPESIZE \<and> unat (nwrite p - nread p) \<le> PIPESIZE"

definition pipe_queue :: "pipe \<Rightarrow> bytes" where
  "pipe_queue p = ring_seg PIPESIZE (p_data p) (nread p) (nwrite p)"

interpretation pipeq: fifo pipe_ok pipe_queue pipe_put pipe_get PIPESIZE
  by unfold_locales
     (auto simp: pipe_ok_def pipe_queue_def pipe_put_def pipe_get_def unat_mod_numeral ring_empty
       ring_put_count [where cap = 512] intro: ring_put ring_get dest: ring_get_count)

definition tx_ok :: "'z dev_state_scheme \<Rightarrow> bool" where
  "tx_ok s \<longleftrightarrow> length (uart_tx_buf s) = UART_TX_BUF_SIZE \<and> unat (uart_tx_w s - uart_tx_r s) \<le> UART_TX_BUF_SIZE"

definition tx_queue :: "'z dev_state_scheme \<Rightarrow> bytes" where
  "tx_queue s = ring_seg UART_TX_BUF_SIZE (uart_tx_buf s) (uart_tx_r s) (uart_tx_w s)"

interpretation txq: fifo tx_ok tx_queue tx_put tx_get UART_TX_BUF_SIZE
  by unfold_locales
     (auto simp: tx_ok_def tx_queue_def tx_put_def tx_get_def unat_mod_numeral ring_empty
       ring_put_count [where cap = 32] intro: ring_put ring_get dest: ring_get_count)

text \<open>
  The console buffer holds lines the reader may take, between \<^verbatim>\<open>cons.r\<close> and \<^verbatim>\<open>cons.w\<close>, and the line
  being edited, from \<^verbatim>\<open>cons.w\<close> to \<^verbatim>\<open>cons.e\<close>.
\<close>

definition cons_ok :: "'z dev_state_scheme \<Rightarrow> bool" where
  "cons_ok s \<longleftrightarrow> length (cons_buf s) = INPUT_BUF \<and> unat (cons_e s - cons_r s) \<le> INPUT_BUF"

definition cons_queue :: "'z dev_state_scheme \<Rightarrow> bytes" where
  "cons_queue s = ring_seg INPUT_BUF (cons_buf s) (cons_r s) (cons_e s)"

interpretation consq: fifo cons_ok cons_queue cons_put cons_get INPUT_BUF
  by unfold_locales
     (auto simp: cons_ok_def cons_queue_def cons_put_def cons_get_def unat_mod_numeral ring_empty
       ring_put_count [where cap = 128] intro: ring_put ring_get dest: ring_get_count)

end
