(* ===== verification/Pipes.thy ===== *)
theory Pipes
  imports RingBuf
begin

text \<open>
  What \<open>pipewrite\<close> and \<open>piperead\<close> do to the queue a pipe holds and to user memory, on every branch:
  a closed end, a killed process, a full or empty pipe on which the caller sleeps, and an address
  the user has no access to.
\<close>

section \<open>Writing\<close>

definition set_pipe :: "u64 \<Rightarrow> pipe \<Rightarrow> 'z file_state_scheme \<Rightarrow> 'z file_state_scheme" where
  "set_pipe pi p s = s\<lparr>pipes := (pipes s)(pi := p)\<rparr>"

lemma set_pipe_simps [simp]:
  "pipes (set_pipe pi p s) pi = p" "set_pipe pi (pipes s pi) s = s" "set_pipe pi p (set_pipe pi q s) = set_pipe pi p s"
  "procs (set_pipe pi p s) = procs s" "pmem (set_pipe pi p s) = pmem s" "held (set_pipe pi p s) = held s" "curproc (set_pipe pi p s) = curproc s"
  by (simp_all add: set_pipe_def)

lemma upd_pipe_run: "upd_pipe pi g s = Ok () (set_pipe pi (g (pipes s pi)) s)"
  by (simp add: upd_pipe_def modifyK_def set_pipe_def)

lemma pipe_put_flags [simp]: "readopen (pipe_put b p) = readopen p" "writeopen (pipe_put b p) = writeopen p"
  by (simp_all add: pipe_put_def)

lemma pipe_get_flags [simp]: "readopen (snd (pipe_get p)) = readopen p" "writeopen (snd (pipe_get p)) = writeopen p"
  by (simp_all add: pipe_get_def)

lemma fold_put_flags [simp]: "readopen (fold pipe_put bs p) = readopen p" "writeopen (fold pipe_put bs p) = writeopen p"
  by (induction bs arbitrary: p) simp_all

definition pipe_room :: "pipe \<Rightarrow> nat" where
  "pipe_room p = PIPESIZE - length (pipe_queue p)"

lemma pipe_full_iff: "pipe_ok p \<Longrightarrow> nwrite p = nread p + PIPESIZE \<longleftrightarrow> pipe_room p = 0"
  using ring_full [of 512 "nwrite p" "nread p"] by (auto simp: pipe_ok_def pipe_room_def pipe_queue_def)

lemma pipe_empty_iff: "nread p = nwrite p \<longleftrightarrow> pipe_queue p = []"
  by (simp add: pipe_queue_def ring_empty)

lemma pipe_room_put: "pipe_ok p \<Longrightarrow> pipe_room p \<noteq> 0 \<Longrightarrow> pipe_ok (pipe_put b p) \<and> pipe_room (pipe_put b p) = pipe_room p - 1"
  using pipeq.put_ok [of p b] pipeq.put_queue [of p b] by (simp add: pipe_room_def)

text \<open>
  The loop with the lock held: it takes the bytes of user memory up to the first it cannot read, and
  either stores all of them, or fills the pipe and sleeps.
\<close>

definition sleep_on_write :: "u64 \<Rightarrow> nat \<Rightarrow> 'z file_state_scheme \<Rightarrow> 'z file_state_scheme" where
  "sleep_on_write pi pr s =
     (let ps = wake_all (ChPipeRead pi) (Some pr) (procs s) in
      s\<lparr>procs := ps(pr := (ps pr)\<lparr>chan := Some (ChPipeWrite pi), state := SLEEPING\<rparr>), held := []\<rparr>)"

lemma pipewrite_full:
  assumes "held s = [LkPipe pi]" "curproc s = Some pr"
  shows "thenK (seqK [wakeup (ChPipeRead pi), sleep (ChPipeWrite pi) (LkPipe pi)]) f s = Block (ChPipeWrite pi) (sleep_on_write pi pr s)"
proof -
  have w: "wakeup (ChPipeRead pi) s = Ok () (s\<lparr>procs := wake_all (ChPipeRead pi) (Some pr) (procs s)\<rparr>)"
    using wakeup_eq [of s "ChPipeRead pi"] assms by simp
  have "sleep (ChPipeWrite pi) (LkPipe pi) (s\<lparr>procs := wake_all (ChPipeRead pi) (Some pr) (procs s)\<rparr>)
      = Block (ChPipeWrite pi) (sleep_on_write pi pr s)"
    by (subst sleep_eq [where p = pr]) (use assms in \<open>simp_all add: sleep_on_write_def Let_def\<close>)
  then show ?thesis using w by (simp add: K_defs)
qed

lemma pipewrite_loop_run:
  fixes s :: "'z file_state_scheme"
  assumes "held s = [LkPipe pi]" "curproc s = Some pr" "pt_inv (pmem s) (pagetable (procs s pr)) own"
    and "pipe_ok (pipes s pi)" "readopen (pipes s pi)" "\<not> killed (procs s pr)"
    and "snd (ubytes (pmem s) (pagetable (procs s pr)) (addr + word_of_int i) k) = bs" "pipe_room (pipes s pi) = room"
  shows "pipewrite_loop k pi pr addr i s =
     (let t = set_pipe pi (fold pipe_put (take room bs) (pipes s pi)) s in
      if room < k \<and> room \<le> length bs then Block (ChPipeWrite pi) (sleep_on_write pi pr t)
      else Ok (Some (i + int (length bs))) t)"
  using assms
proof (induction k arbitrary: s i bs room)
  case 0
  then show ?case by (simp add: K_defs)
next
  case (Suc k)
  note pre = Suc.prems
  let ?p = "pipes s pi" and ?pt = "pagetable (procs s pr)"
  have live: "\<not> (\<not> readopen ?p \<or> killed (procs s pr))" using pre by simp
  show ?case
  proof (cases "room = 0")
    case True
    then have "nwrite ?p = nread ?p + PIPESIZE" using pipe_full_iff [OF pre(4)] pre(8) by simp
    then have "pipewrite_loop (Suc k) pi pr addr i s
        = thenK (seqK [wakeup (ChPipeRead pi), sleep (ChPipeWrite pi) (LkPipe pi)]) (returnK None) s"
      using live by (simp add: bindK_def getK_def Let_def)
    then show ?thesis using True pipewrite_full [OF pre(1,2)] by simp
  next
    case room: False
    then have nf: "nwrite ?p \<noteq> nread ?p + PIPESIZE" using pipe_full_iff [OF pre(4)] pre(8) by simp
    have c: "copyin ?pt (addr + word_of_int i) (Suc 0) s = Ok (ubytes (pmem s) ?pt (addr + word_of_int i) (Suc 0)) s"
      by (rule copyin_ubytes [OF pre(3)])
    show ?thesis
    proof (cases "uaddr (pmem s) ?pt (addr + word_of_int i)")
      case None
      then have "bs = []" using pre(7) by simp
      moreover have "pipewrite_loop (Suc k) pi pr addr i s = Ok (Some i) s"
        using live nf None by (simp add: bindK_def getK_def Let_def c returnK_def)
      ultimately show ?thesis using room by simp
    next
      case (Some a)
      let ?b = "pmem s a"
      let ?s' = "set_pipe pi (pipe_put ?b ?p) s"
      obtain r bs' where u: "ubytes (pmem s) ?pt (addr + word_of_int i + 1) k = (r, bs')" by fastforce
      then have u': "snd (ubytes (pmem s) ?pt (addr + word_of_int (i + 1)) k) = bs'" by (simp add: add.assoc)
      have bs: "bs = ?b # bs'" using pre(7) Some u by simp
      have run: "pipewrite_loop (Suc k) pi pr addr i s = pipewrite_loop k pi pr addr (i + 1) ?s'"
        using live nf Some by (simp add: bindK_def thenK_def getK_def Let_def c upd_pipe_run)
      have rp: "pipe_ok (pipe_put ?b ?p)" "pipe_room (pipe_put ?b ?p) = room - 1" using pipe_room_put pre(4,8) room by auto
      have "pipewrite_loop k pi pr addr (i + 1) ?s' =
         (let t = set_pipe pi (fold pipe_put (take (room - 1) bs') (pipes ?s' pi)) ?s' in
          if room - 1 < k \<and> room - 1 \<le> length bs' then Block (ChPipeWrite pi) (sleep_on_write pi pr t)
          else Ok (Some (i + 1 + int (length bs'))) t)"
        by (rule Suc.IH [of ?s']) (use pre(1-6) rp u' in simp_all)
      then show ?thesis using room unfolding run bs by (cases room) (simp_all add: Let_def)
    qed
  qed
qed

definition woken :: "chan \<Rightarrow> 'z file_state_scheme \<Rightarrow> 'z file_state_scheme" where
  "woken ch s = s\<lparr>procs := wake_all ch (curproc s) (procs s)\<rparr>"

lemma woken_simps [simp]:
  "pipes (woken ch s) = pipes s" "pmem (woken ch s) = pmem s" "held (woken ch s) = held s" "curproc (woken ch s) = curproc s"
  by (simp_all add: woken_def)

lemma wake_release:
  assumes "held s = [LkPipe pi]"
  shows "thenK (seqK [wakeup ch, release (LkPipe pi)]) (returnK r) s = Ok r ((woken ch s)\<lparr>held := []\<rparr>)"
proof -
  have "wakeup ch s = Ok () (woken ch s)" unfolding woken_def by (rule wakeup_eq) (use assms in simp)
  then show ?thesis using assms by (simp add: K_defs)
qed

lemma set_pipe_held [simp]: "(set_pipe pi p s)\<lparr>held := h\<rparr> = set_pipe pi p (s\<lparr>held := h\<rparr>)"
  by (simp add: set_pipe_def)

lemma pipewrite_run:
  fixes s :: "'z file_state_scheme"
  assumes "held s = []" "curproc s = Some pr" "pt_inv (pmem s) (pagetable (procs s pr)) own"
    and "pipe_ok (pipes s pi)" "readopen (pipes s pi)" "\<not> killed (procs s pr)"
    and "snd (ubytes (pmem s) (pagetable (procs s pr)) addr (nat n)) = bs" "pipe_room (pipes s pi) = room"
  shows "pipewrite pi addr n s =
     (let t = set_pipe pi (fold pipe_put (take room bs) (pipes s pi)) s in
      if room < nat n \<and> room \<le> length bs then Block (ChPipeWrite pi) (sleep_on_write pi pr t)
      else Ok (int (length bs)) (woken (ChPipeRead pi) t))"
proof -
  let ?s = "s\<lparr>held := [LkPipe pi]\<rparr>" and ?p = "fold pipe_put (take room bs) (pipes s pi)"
  have loop: "pipewrite_loop (nat n) pi pr addr 0 ?s =
     (let t = set_pipe pi ?p ?s in
      if room < nat n \<and> room \<le> length bs then Block (ChPipeWrite pi) (sleep_on_write pi pr t) else Ok (Some (int (length bs))) t)"
    using pipewrite_loop_run [of ?s pi pr own addr 0 "nat n" bs room] assms by (simp add: Let_def)
  have run: "pipewrite pi addr n s = bindK (pipewrite_loop (nat n) pi pr addr 0) (\<lambda>r. case r of
        None \<Rightarrow> returnK (- 1)
      | Some i \<Rightarrow> thenK (seqK [wakeup (ChPipeRead pi), release (LkPipe pi)]) (returnK i)) ?s"
    using assms(1,2) by (simp add: pipewrite_def bindK_def thenK_def)
  show ?thesis
  proof (cases "room < nat n \<and> room \<le> length bs")
    case True
    then have "pipewrite pi addr n s = Block (ChPipeWrite pi) (sleep_on_write pi pr (set_pipe pi ?p ?s))"
      unfolding run using loop by (simp add: bindK_def Let_def)
    moreover have "sleep_on_write pi pr (set_pipe pi ?p ?s) = sleep_on_write pi pr (set_pipe pi ?p s)"
      by (simp add: sleep_on_write_def set_pipe_def Let_def)
    ultimately show ?thesis using True by (simp add: Let_def)
  next
    case False
    have "held (set_pipe pi ?p ?s) = [LkPipe pi]" by simp
    note w = wake_release [OF this, of "ChPipeRead pi" "int (length bs)"]
    have "pipewrite pi addr n s = Ok (int (length bs)) ((woken (ChPipeRead pi) (set_pipe pi ?p ?s))\<lparr>held := []\<rparr>)"
      unfolding run using loop w False by (simp add: bindK_def Let_def)
    moreover have "(woken (ChPipeRead pi) (set_pipe pi ?p ?s))\<lparr>held := []\<rparr> = woken (ChPipeRead pi) (set_pipe pi ?p s)"
      using assms(1) by (simp add: woken_def set_pipe_def)
    ultimately show ?thesis using False by (simp add: Let_def)
  qed
qed

lemma pipewrite_refused:
  fixes s :: "'z file_state_scheme"
  assumes "held s = []" "curproc s = Some pr" "0 < n" "\<not> readopen (pipes s pi) \<or> killed (procs s pr)"
  shows "pipewrite pi addr n s = Ok (- 1) s"
proof -
  obtain k where k: "nat n = Suc k" using assms(3) by (metis gr0_implies_Suc zero_less_nat_eq)
  have "pipewrite_loop (nat n) pi pr addr 0 (s\<lparr>held := [LkPipe pi]\<rparr>) = Ok None s"
    using assms(1,4) unfolding k by (simp add: K_defs Let_def)
  then show ?thesis using assms(1,2) by (simp add: pipewrite_def bindK_def thenK_def returnK_def)
qed

section \<open>Reading\<close>

text \<open>How many bytes from \<open>va\<close> on the user has access to, at most \<open>n\<close>.\<close>

primrec uprefix :: "(u64 \<Rightarrow> u64 option) \<Rightarrow> u64 \<Rightarrow> nat \<Rightarrow> nat" where
  "uprefix f va 0 = 0"
| "uprefix f va (Suc n) = (if f va = None then 0 else Suc (uprefix f (va + 1) n))"

lemma uprefix_le: "uprefix f va n \<le> n"
  by (induction n arbitrary: va) auto

primrec pipe_pop :: "nat \<Rightarrow> pipe \<Rightarrow> pipe" where
  "pipe_pop 0 p = p"
| "pipe_pop (Suc n) p = pipe_pop n (snd (pipe_get p))"

lemma pipe_pop_queue: "pipe_ok p \<Longrightarrow> n \<le> length (pipe_queue p) \<Longrightarrow> pipe_ok (pipe_pop n p) \<and> pipe_queue (pipe_pop n p) = drop n (pipe_queue p)"
proof (induction n arbitrary: p)
  case (Suc n)
  then have ne: "pipe_queue p \<noteq> []" by auto
  note g = pipeq.get_ok [OF Suc.prems(1) ne] pipeq.get_queue [OF Suc.prems(1) ne]
  have "n \<le> length (pipe_queue (snd (pipe_get p)))" using Suc.prems(2) g(2) by (metis Suc_le_mono length_Cons)
  with Suc.IH [OF g(1)] g(2) show ?case by (metis drop_Suc_Cons pipe_pop.simps(2))
qed simp

lemma piperead_loop_run:
  fixes s :: "'z file_state_scheme"
  assumes "pt_inv (pmem s) pt own" "user_sep (pmem s) pt own" "pagetable (procs s pr) = pt" "pipe_ok (pipes s pi)"
    and "take k (pipe_queue (pipes s pi)) = q" "uprefix (uaddr (pmem s) pt) (addr + word_of_int i) (length q) = acc"
  shows "piperead_loop k pi pr addr i s = Ok (i + int acc)
     ((set_pipe pi (pipe_pop (min (Suc acc) (length q)) (pipes s pi)) s)\<lparr>pmem := snd (uwrite (pmem s) pt (addr + word_of_int i) q)\<rparr>)"
  using assms
proof (induction k arbitrary: s i q acc)
  case 0
  then show ?case by (simp add: K_defs)
next
  case (Suc k)
  note pre = Suc.prems
  let ?p = "pipes s pi" and ?va = "addr + word_of_int i"
  show ?case
  proof (cases "pipe_queue ?p")
    case Nil
    then have "nread ?p = nwrite ?p" using pipe_empty_iff by blast
    then show ?thesis using Nil pre(5,6) by (simp add: K_defs Let_def)
  next
    case (Cons b q')
    then have ne: "nread ?p \<noteq> nwrite ?p" "pipe_queue ?p \<noteq> []" using pipe_empty_iff by auto
    have g: "fst (pipe_get ?p) = b" "pipe_queue (snd (pipe_get ?p)) = q'" "pipe_ok (snd (pipe_get ?p))"
      using pipeq.get_queue [OF pre(4) ne(2)] pipeq.get_ok [OF pre(4) ne(2)] Cons by auto
    have q: "q = b # take k q'" using pre(5) Cons by simp
    let ?s1 = "set_pipe pi (snd (pipe_get ?p)) s"
    have c: "copyout pt ?va [b] ?s1 = (case uwrite (pmem s) pt ?va [b] of (r, m) \<Rightarrow> Ok r (?s1\<lparr>pmem := m\<rparr>))"
      using copyout_uwrite [of ?s1 pt own ?va "[b]"] pre(1,2) by simp
    have run: "piperead_loop (Suc k) pi pr addr i s = bindK (copyout pt ?va [b]) (\<lambda>r.
        if r = - 1 then returnK i else piperead_loop k pi pr addr (i + 1)) ?s1"
      using ne(1) pre(3) g(1) by (simp add: bindK_def thenK_def getK_def Let_def upd_pipe_run)
    show ?thesis
    proof (cases "uaddr (pmem s) pt ?va")
      case None
      then have "acc = 0" using pre(6) q by simp
      moreover have "piperead_loop (Suc k) pi pr addr i s = Ok i ?s1"
        unfolding run using c None by (simp add: bindK_def returnK_def set_pipe_def)
      ultimately show ?thesis using None q by (simp add: set_pipe_def)
    next
      case (Some a)
      define m1 where "m1 = (pmem s)(a := b)"
      let ?s2 = "?s1\<lparr>pmem := m1\<rparr>"
      note w = uaddr_write [OF pre(1,2) Some, of b, folded m1_def]
      obtain acc' where acc: "acc = Suc acc'" "uprefix (uaddr (pmem s) pt) (?va + 1) (length (take k q')) = acc'"
        using pre(6) q Some by simp
      have "piperead_loop (Suc k) pi pr addr i s = piperead_loop k pi pr addr (i + 1) ?s2"
        unfolding run using c Some by (simp add: bindK_def m1_def)
      also have "\<dots> = Ok (i + 1 + int acc') ((set_pipe pi (pipe_pop (min (Suc acc') (length (take k q'))) (pipes ?s2 pi)) ?s2)
          \<lparr>pmem := snd (uwrite (pmem ?s2) pt (addr + word_of_int (i + 1)) (take k q'))\<rparr>)"
      proof (rule Suc.IH)
        show "take k (pipe_queue (pipes ?s2 pi)) = take k q'" using g(2) by (simp add: set_pipe_def)
        show "uprefix (uaddr (pmem ?s2) pt) (addr + word_of_int (i + 1)) (length (take k q')) = acc'"
          using acc(2) w(3) by (simp add: add.assoc)
      qed (use w pre(3) g(3) in \<open>simp_all add: set_pipe_def\<close>)
      finally show ?thesis using acc(1) q Some by (simp add: set_pipe_def add.assoc m1_def)
    qed
  qed
qed

definition sleep_on_read :: "u64 \<Rightarrow> nat \<Rightarrow> 'z file_state_scheme \<Rightarrow> 'z file_state_scheme" where
  "sleep_on_read pi pr s = s\<lparr>procs := (procs s)(pr := (procs s pr)\<lparr>chan := Some (ChPipeRead pi), state := SLEEPING\<rparr>)\<rparr>"

lemma piperead_waits:
  fixes s :: "'z file_state_scheme"
  assumes "held s = []" "curproc s = Some pr" "pipe_queue (pipes s pi) = []" "writeopen (pipes s pi)"
  shows "piperead pi addr n s =
     (if killed (procs s pr) then Ok (- 1) s else Block (ChPipeRead pi) (sleep_on_read pi pr s))"
proof -
  let ?s = "s\<lparr>held := [LkPipe pi]\<rparr>"
  have e: "nread (pipes s pi) = nwrite (pipes s pi)" using assms(3) pipe_empty_iff by blast
  have "sleep (ChPipeRead pi) (LkPipe pi) ?s = Block (ChPipeRead pi) (sleep_on_read pi pr s)"
    by (subst sleep_eq [where p = pr]) (use assms(1,2) in \<open>simp_all add: sleep_on_read_def\<close>)
  then show ?thesis using assms(1,2,4) e by (simp add: piperead_def K_defs Let_def)
qed

lemma piperead_run:
  fixes s :: "'z file_state_scheme"
  assumes "held s = []" "curproc s = Some pr" "pt_inv (pmem s) pt own" "user_sep (pmem s) pt own" "pagetable (procs s pr) = pt"
    and "pipe_ok (pipes s pi)" "pipe_queue (pipes s pi) \<noteq> [] \<or> \<not> writeopen (pipes s pi)"
    and "take (nat n) (pipe_queue (pipes s pi)) = q" "uprefix (uaddr (pmem s) pt) addr (length q) = acc"
  shows "piperead pi addr n s = Ok (int acc) (woken (ChPipeWrite pi)
     ((set_pipe pi (pipe_pop (min (Suc acc) (length q)) (pipes s pi)) s)\<lparr>pmem := snd (uwrite (pmem s) pt addr q)\<rparr>))"
proof -
  let ?s = "s\<lparr>held := [LkPipe pi]\<rparr>"
  let ?t = "\<lambda>s. (set_pipe pi (pipe_pop (min (Suc acc) (length q)) (pipes s pi)) s)\<lparr>pmem := snd (uwrite (pmem s) pt addr q)\<rparr>"
  have loop: "piperead_loop (nat n) pi pr addr 0 ?s = Ok (int acc) (?t ?s)"
    using piperead_loop_run [of ?s pt own pr pi "nat n" q addr 0 acc] assms by simp
  have run: "piperead pi addr n s = bindK (piperead_loop (nat n) pi pr addr 0) (\<lambda>i.
        thenK (seqK [wakeup (ChPipeWrite pi), release (LkPipe pi)]) (returnK i)) ?s"
    using assms(1,2,7) pipe_empty_iff [of "pipes s pi"] by (auto simp: piperead_def bindK_def thenK_def getK_def Let_def)
  have "held (?t ?s) = [LkPipe pi]" by simp
  note w = wake_release [OF this, of "ChPipeWrite pi" "int acc"]
  have "piperead pi addr n s = Ok (int acc) ((woken (ChPipeWrite pi) (?t ?s))\<lparr>held := []\<rparr>)"
    unfolding run using loop w by (simp add: bindK_def)
  moreover have "(woken (ChPipeWrite pi) (?t ?s))\<lparr>held := []\<rparr> = woken (ChPipeWrite pi) (?t s)"
    using assms(1) by (simp add: woken_def set_pipe_def)
  ultimately show ?thesis by simp
qed

lemma uprefix_full: "fst (uwrite m pt va bs) = 0 \<Longrightarrow> pt_inv m pt own \<Longrightarrow> user_sep m pt own \<Longrightarrow> uprefix (uaddr m pt) va (length bs) = length bs"
proof (induction bs arbitrary: m va)
  case (Cons b bs)
  then obtain a where a: "uaddr m pt va = Some a" by (auto split: option.splits)
  define m1 where "m1 = m(a := b)"
  note w = uaddr_write [OF Cons.prems(2,3) a, of b, folded m1_def]
  have "fst (uwrite m1 pt (va + 1) bs) = 0" using Cons.prems(1) a by (simp add: m1_def)
  from Cons.IH [OF this w(1,2)] show ?case using a w(3) by simp
qed simp

lemma length_ubytes: "length (snd (ubytes m pt va n)) = uprefix (uaddr m pt) va n"
  by (induction n arbitrary: va) (auto simp: case_prod_beta split: option.splits)

lemma wake_all_fields [simp]: "pagetable (wake_all ch me ps i) = pagetable (ps i)" "killed (wake_all ch me ps i) = killed (ps i)"
  by (simp_all add: wake_all_def wakeup1_def)

lemma puts_room:
  assumes "pipe_ok p" "pipe_room p = room"
  shows "pipe_ok (fold pipe_put (take room bs) p)" "pipe_queue (fold pipe_put (take room bs) p) = pipe_queue p @ take room bs"
  using pipeq.puts [OF assms(1), of "take room bs"] pipeq.bounded [OF assms(1)] assms(2) by (auto simp: pipe_room_def)

section \<open>Properties\<close>

text \<open>C23. \<open>pipewrite\<close> appends to the bytes in the pipe exactly the bytes of user memory, up to the first
  the user has no access to: all of them, and returns their number; or as many as there is room for,
  and sleeps on the full pipe with the lock released.  It never overwrites a byte that was not read
  and changes no memory.\<close>

theorem pipe_write:
  fixes s :: "'z file_state_scheme"
  assumes "held s = []" "curproc s = Some pr" "pt_inv (pmem s) (pagetable (procs s pr)) own"
    and "pipe_ok (pipes s pi)" "readopen (pipes s pi)" "\<not> killed (procs s pr)"
    and "snd (ubytes (pmem s) (pagetable (procs s pr)) addr (nat n)) = bs" "PIPESIZE - length (pipe_queue (pipes s pi)) = room"
  shows "\<exists>t. pipewrite pi addr n s = (if room < nat n \<and> room \<le> length bs then Block (ChPipeWrite pi) t else Ok (int (length bs)) t)
     \<and> pipe_ok (pipes t pi) \<and> pipe_queue (pipes t pi) = pipe_queue (pipes s pi) @ take room bs
     \<and> pmem t = pmem s \<and> held t = []"
proof -
  have r: "pipe_room (pipes s pi) = room" using assms(8) by (simp add: pipe_room_def)
  show ?thesis using pipewrite_run [OF assms(1-7) r] puts_room [OF assms(4) r, of bs] assms(1)
    by (auto simp: Let_def sleep_on_write_def)
qed

definition demo_pipe :: file_state where
  "demo_pipe = (boot_file 0x80021000 (\<lambda>_. []))\<lparr>pmem := demo_mem(0x80103FFE := 7, 0x80103FFF := 9),
     procs := (\<lambda>_. zero_proc\<lparr>pagetable := 0x80100000\<rparr>), curproc := Some 1,
     pipes := (\<lambda>_. zero_pipe\<lparr>readopen := True, writeopen := True\<rparr>)\<rparr>"

lemma demo_pipe_simps:
  "held demo_pipe = []" "curproc demo_pipe = Some 1" "pagetable (procs demo_pipe i) = 0x80100000" "\<not> killed (procs demo_pipe i)"
  "pmem demo_pipe = demo_mem(0x80103FFE := 7, 0x80103FFF := 9)" "pipe_ok (pipes demo_pipe pi)" "pipe_queue (pipes demo_pipe pi) = []"
  "readopen (pipes demo_pipe pi)" "writeopen (pipes demo_pipe pi)"
  by (simp_all add: demo_pipe_def boot_file_def zero_pipe_def zero_proc_def pipe_ok_def pipe_queue_def ring_seg_def)

lemma demo_pipe_mem:
  "pt_inv (pmem demo_pipe) 0x80100000 demo_own" "user_sep (pmem demo_pipe) 0x80100000 demo_own"
  "uaddr (pmem demo_pipe) 0x80100000 = uaddr demo_mem 0x80100000"
proof -
  have a: "uaddr demo_mem 0x80100000 0xFFE = Some 0x80103FFE" by (simp add: demo_uaddr)
  define m1 where "m1 = demo_mem(0x80103FFE := 7)"
  note w1 = uaddr_write [OF demo_table(1) demo_user(1) a, of 7, folded m1_def]
  have b: "uaddr m1 0x80100000 0xFFF = Some 0x80103FFF" by (simp add: w1(3) demo_uaddr)
  note w2 = uaddr_write [OF w1(1,2) b, of 9]
  show "pt_inv (pmem demo_pipe) 0x80100000 demo_own" "user_sep (pmem demo_pipe) 0x80100000 demo_own"
    "uaddr (pmem demo_pipe) 0x80100000 = uaddr demo_mem 0x80100000"
    using w2 w1(3) by (simp_all add: demo_pipe_simps(5) m1_def)
qed

lemma demo_pipe_bytes: "ubytes (pmem demo_pipe) 0x80100000 0xFFE 2 = (0, [7, 9])" "ubytes (pmem demo_pipe) 0x80100000 0xFFE 3 = (- 1, [7, 9])"
proof -
  have v: "pmem demo_pipe 0x80103FFE = 7" "pmem demo_pipe 0x80103FFF = 9" by (simp_all add: demo_pipe_simps(5))
  have "ubytes (pmem demo_pipe) 0x80100000 0xFFE (Suc (Suc 0)) = (0, [7, 9])" by (simp add: demo_pipe_mem(3) demo_uaddr v)
  then show "ubytes (pmem demo_pipe) 0x80100000 0xFFE 2 = (0, [7, 9])" by (simp only: numeral_2_eq_2)
  show "ubytes (pmem demo_pipe) 0x80100000 0xFFE 3 = (- 1, [7, 9])" by (simp add: numeral_3_eq_3 demo_pipe_mem(3) demo_uaddr v)
qed

theorem pipe_write_witness:
  "\<exists>t. pipewrite 0x80104000 0xFFE 3 demo_pipe = Ok 2 t \<and> pipe_queue (pipes t 0x80104000) = [7, 9]"
  using pipe_write [of demo_pipe 1 demo_own "0x80104000" "0xFFE" 3 "[7, 9]" 512] demo_pipe_mem(1) demo_pipe_bytes(2)
  by (auto simp: demo_pipe_simps)

text \<open>C24. \<open>piperead\<close> sleeps on an empty pipe whose write end is open; otherwise it moves the oldest bytes,
  in order, to user memory and returns their number.  A byte it cannot copy out is lost: it has been
  taken from the pipe and is not counted.\<close>

theorem pipe_read:
  fixes s :: "'z file_state_scheme"
  assumes "held s = []" "curproc s = Some pr" "pt_inv (pmem s) pt own" "user_sep (pmem s) pt own" "pagetable (procs s pr) = pt"
    and "pipe_ok (pipes s pi)" "take (nat n) (pipe_queue (pipes s pi)) = q" "uprefix (uaddr (pmem s) pt) addr (length q) = acc"
    and "\<not> killed (procs s pr)"
  shows "\<exists>t. pipe_ok (pipes t pi) \<and> held t = [] \<and>
     (if pipe_queue (pipes s pi) = [] \<and> writeopen (pipes s pi)
      then piperead pi addr n s = Block (ChPipeRead pi) t \<and> pipes t = pipes s \<and> pmem t = pmem s
      else piperead pi addr n s = Ok (int acc) t \<and> pmem t = snd (uwrite (pmem s) pt addr q)
         \<and> pipe_queue (pipes t pi) = drop (if acc = length q then acc else Suc acc) (pipe_queue (pipes s pi)))"
proof (cases "pipe_queue (pipes s pi) = [] \<and> writeopen (pipes s pi)")
  case True
  then show ?thesis using piperead_waits [OF assms(1,2)] assms(1,6,9) by (auto simp: sleep_on_read_def)
next
  case False
  let ?n = "min (Suc acc) (length q)"
  have le: "acc \<le> length q" using uprefix_le assms(8) by blast
  have n: "?n = (if acc = length q then acc else Suc acc)" using le by auto
  have "?n \<le> length (pipe_queue (pipes s pi))" using assms(7) by auto
  note pop = pipe_pop_queue [OF assms(6) this]
  have "piperead pi addr n s = Ok (int acc) (woken (ChPipeWrite pi)
     ((set_pipe pi (pipe_pop ?n (pipes s pi)) s)\<lparr>pmem := snd (uwrite (pmem s) pt addr q)\<rparr>))"
    by (rule piperead_run) (use assms False in auto)
  then show ?thesis using pop False assms(1) unfolding n [symmetric] by (simp add: set_pipe_def)
qed

theorem pipe_read_witness:
  "\<exists>t. piperead 0x80104000 0xFFF 2 (set_pipe 0x80104000 (fold pipe_put [7, 9] (pipes demo_pipe 0x80104000)) demo_pipe) = Ok 1 t
     \<and> pipe_queue (pipes t 0x80104000) = []"
proof -
  let ?s = "set_pipe 0x80104000 (fold pipe_put [7, 9] (pipes demo_pipe 0x80104000)) demo_pipe"
  have q: "pipe_ok (pipes ?s 0x80104000)" "pipe_queue (pipes ?s 0x80104000) = [7, 9]"
    using pipeq.puts [of "pipes demo_pipe 0x80104000" "[7, 9]"] demo_pipe_simps by simp_all
  have "uprefix (uaddr (pmem ?s) 0x80100000) 0xFFF (length [7, 9 :: u8]) = 1" by (simp add: demo_pipe_mem(3) demo_uaddr)
  note r = pipe_read [of ?s 1 "0x80100000" demo_own "0x80104000" 2 "[7, 9]", OF _ _ _ _ _ q(1) _ this]
  show ?thesis using r q demo_pipe_mem(1,2) demo_pipe_simps by auto
qed

text \<open>C22. End to end: what one process writes into an empty pipe with a single \<open>pipewrite\<close> of at most
  \<^verbatim>\<open>PIPESIZE\<close> bytes, another process's \<open>piperead\<close> delivers, byte for byte, into its own memory.\<close>

theorem pipe_transfer:
  fixes s :: "'z file_state_scheme"
  assumes "held s = []" "curproc s = Some a" "pt_inv (pmem s) (pagetable (procs s a)) owna"
    and "pipe_ok (pipes s pi)" "pipe_queue (pipes s pi) = []" "readopen (pipes s pi)" "\<not> killed (procs s a)"
    and "ubytes (pmem s) (pagetable (procs s a)) src n = (0, bs)" "length bs = n" "0 < n" "n \<le> PIPESIZE"
    and "pagetable (procs s b) = pt" "pt_inv (pmem s) pt own" "user_sep (pmem s) pt own" "user_inj (pmem s) pt"
    and "fst (uwrite (pmem s) pt dst bs) = 0"
  shows "\<exists>t u. pipewrite pi src (int n) s = Ok (int n) t \<and> piperead pi dst (int n) (t\<lparr>curproc := Some b\<rparr>) = Ok (int n) u
     \<and> ubytes (pmem u) pt dst n = (0, bs) \<and> pipe_queue (pipes u pi) = []"
proof -
  let ?p = "fold pipe_put bs (pipes s pi)"
  let ?t = "woken (ChPipeRead pi) (set_pipe pi ?p s)"
  have room: "pipe_room (pipes s pi) = PIPESIZE" using assms(5) by (simp add: pipe_room_def)
  have tk: "take PIPESIZE bs = bs" using assms(9,11) by simp
  have w: "pipewrite pi src (int n) s = Ok (int n) ?t"
    using pipewrite_run [OF assms(1-4,6,7) _ room, of src "int n" bs] assms(8,9,11) tk by (simp add: Let_def)
  have q: "pipe_ok ?p" "pipe_queue ?p = bs" using puts_room [OF assms(4) room, of bs] tk assms(5) by simp_all
  obtain m where m: "uwrite (pmem s) pt dst bs = (0, m)" using assms(16) by (cases "uwrite (pmem s) pt dst bs") simp
  let ?u = "\<lambda>t. woken (ChPipeWrite pi) ((set_pipe pi (pipe_pop (min (Suc n) (length bs)) (pipes t pi)) t)\<lparr>pmem := m\<rparr>)"
  have r: "piperead pi dst (int n) (?t\<lparr>curproc := Some b\<rparr>) = Ok (int n) (?u (?t\<lparr>curproc := Some b\<rparr>))"
    using piperead_run [of "?t\<lparr>curproc := Some b\<rparr>" b pt own pi "int n" bs dst n] assms(1,9,10,12-14) q m
      uprefix_full [OF assms(16,13,14)] by (auto simp: woken_def set_pipe_def)
  have "pipe_queue (pipe_pop (min (Suc n) (length bs)) ?p) = []" using pipe_pop_queue [OF q(1)] q(2) assms(9) by simp
  moreover have "ubytes m pt dst n = (0, bs)" using uwrite_ubytes [OF assms(13-15) _ m] assms(9,11) by simp
  ultimately show ?thesis using w r by (intro exI [of _ ?t] exI [of _ "?u (?t\<lparr>curproc := Some b\<rparr>)"]) simp
qed

theorem pipe_transfer_witness:
  "\<exists>t u. pipewrite 0x80104000 0xFFE 2 demo_pipe = Ok 2 t \<and> piperead 0x80104000 0 2 (t\<lparr>curproc := Some 2\<rparr>) = Ok 2 u
     \<and> ubytes (pmem u) 0x80100000 0 2 = (0, [7, 9])"
proof -
  have i: "user_inj (pmem demo_pipe) 0x80100000" using demo_user(2) by (simp add: user_inj_def demo_pipe_mem(3))
  have a: "uaddr (pmem demo_pipe) 0x80100000 0 = Some 0x80103000" "uaddr (pmem demo_pipe) 0x80100000 1 = Some 0x80103001"
    by (simp_all add: demo_pipe_mem(3) demo_uaddr)
  have "fst (uwrite (pmem demo_pipe) 0x80100000 0 [7, 9]) = 0"
    using uaddr_write(3) [OF demo_pipe_mem(1,2) a(1), of 7] a by simp
  then show ?thesis
    using pipe_transfer [of demo_pipe 1 demo_own "0x80104000" "0xFFE" 2 "[7, 9]" 2 "0x80100000" demo_own 0]
      i demo_pipe_mem demo_pipe_bytes(1) demo_pipe_simps by simp blast
qed

end
