(* ===== verification/ConsoleSpec.thy ===== *)
theory ConsoleSpec
  imports RingBuf
begin

text \<open>
  The console: input is a line editor, output goes to the UART in order, and \<open>printf\<close> writes the
  digits of its arguments.
\<close>

section \<open>Output without interrupts\<close>

definition put_out :: "bytes \<Rightarrow> 'z dev_state_scheme \<Rightarrow> 'z dev_state_scheme" where
  "put_out cs s = s\<lparr>uart_out := uart_out s @ cs, uart_room := uart_room s - length cs\<rparr>"

lemma put_out_simps [simp]:
  "uart_out (put_out cs s) = uart_out s @ cs" "panicked (put_out cs s) = panicked s" "held (put_out cs s) = held s"
  "cons_buf (put_out cs s) = cons_buf s" "cons_r (put_out cs s) = cons_r s" "cons_w (put_out cs s) = cons_w s" "cons_e (put_out cs s) = cons_e s"
  "curproc (put_out cs s) = curproc s" "procs (put_out cs s) = procs s" "pr_locking (put_out cs s) = pr_locking s"
  "put_out ds (put_out cs s) = put_out (cs @ ds) s" "put_out [] s = s"
  by (simp_all add: put_out_def)

lemma consputc_char: "\<not> panicked s \<Longrightarrow> consputc (uint (c :: u8)) s = Ok () (put_out [c] s)"
proof -
  assume p: "\<not> panicked s"
  have "uint c \<noteq> 256" using uint_lt2p [of c] by simp
  then show ?thesis using p by (simp add: consputc_def uartputc_sync_def write_THR_def K_defs put_out_def)
qed

lemma consputc_back: "\<not> panicked s \<Longrightarrow> consputc BACKSPACE s = Ok () (put_out [8, 32, 8] s)"
  by (simp add: consputc_def uartputc_sync_def write_THR_def K_defs put_out_def)

lemma putchars_run: "\<not> panicked s \<Longrightarrow> putchars cs s = Ok () (put_out cs s)"
  by (induction cs arbitrary: s) (simp_all add: putchars_def consputc_char thenK_def bindK_def returnK_def)

section \<open>Numbers\<close>








section \<open>The text of printf\<close>

definition int_text :: "nat \<Rightarrow> u32 \<Rightarrow> bytes" where
  "int_text base x = rev (int_buf x base True)"

definition str_text :: "bytes option \<Rightarrow> bytes" where
  "str_text x = (case x of None \<Rightarrow> str ''(null)'' | Some s \<Rightarrow> cstr s)"

text \<open>The text of one conversion and the arguments left; \<open>None\<close> where an argument is missing or has the wrong type.\<close>

definition conv_text :: "u8 \<Rightarrow> parg list \<Rightarrow> (bytes \<times> parg list) option" where
  "conv_text d ap =
     (if d = of_char (CHR ''d'') then (case ap of PInt x # as \<Rightarrow> Some (int_text 10 x, as) | _ \<Rightarrow> None)
      else if d = of_char (CHR ''x'') then (case ap of PInt x # as \<Rightarrow> Some (int_text 16 x, as) | _ \<Rightarrow> None)
      else if d = of_char (CHR ''p'') then (case ap of PPtr x # as \<Rightarrow> Some (48 # 120 # ptr_digits x, as) | _ \<Rightarrow> None)
      else if d = of_char (CHR ''s'') then (case ap of PStr x # as \<Rightarrow> Some (str_text x, as) | _ \<Rightarrow> None)
      else if d = of_char (CHR ''%'') then Some ([d], ap)
      else Some ([of_char (CHR ''%''), d], ap))"

fun fmt_text :: "bytes \<Rightarrow> parg list \<Rightarrow> bytes option" where
  "fmt_text [] ap = Some []"
| "fmt_text (c # fmt) ap =
     (if c = 0 then Some []
      else if c \<noteq> of_char (CHR ''%'') then map_option ((@) [c]) (fmt_text fmt ap)
      else case fmt of
        [] \<Rightarrow> Some []
      | d # fmt' \<Rightarrow>
         if d = 0 then Some []
         else case conv_text d ap of None \<Rightarrow> None | Some (xs, as) \<Rightarrow> map_option ((@) xs) (fmt_text fmt' as))"

lemma printint_run: "\<not> panicked s \<Longrightarrow> printint x base True s = Ok () (put_out (int_text base x) s)"
  by (simp add: printint_def int_text_def putchars_run)

lemma printptr_run: "\<not> panicked s \<Longrightarrow> printptr x s = Ok () (put_out (48 # 120 # ptr_digits x) s)"
  using consputc_char [of s 48] consputc_char [of "put_out [48] s" 120]
  by (simp add: printptr_def thenK_def bindK_def returnK_def putchars_run)

abbreviation printed :: "bytes option \<Rightarrow> 'z dev_state_scheme \<Rightarrow> (unit, 'z dev_state_scheme) outcome" where
  "printed t s \<equiv> (case t of Some cs \<Rightarrow> Ok () (put_out cs s) | None \<Rightarrow> Panic ''undefined behaviour'')"

lemma printed_then:
  assumes "f s = Ok () (put_out xs s)" "\<And>s. \<not> panicked s \<Longrightarrow> g s = printed t s" "\<not> panicked s"
  shows "thenK f g s = printed (map_option ((@) xs) t) s"
  using assms by (simp add: thenK_def bindK_def split: option.splits)

lemma ub_then: "thenK (ub_if True) g s = Panic ''undefined behaviour''"
  by (simp add: ub_if_def K_defs)

lemma put_arg_run:
  assumes "\<not> panicked s"
  shows "put_arg_int base ap s = (case ap of PInt x # as \<Rightarrow> Ok () (put_out (int_text base x) s) | _ \<Rightarrow> Panic ''undefined behaviour'')"
    "put_arg_ptr ap s = (case ap of PPtr x # as \<Rightarrow> Ok () (put_out (48 # 120 # ptr_digits x) s) | _ \<Rightarrow> Panic ''undefined behaviour'')"
    "put_arg_str ap s = (case ap of PStr x # as \<Rightarrow> Ok () (put_out (str_text x) s) | _ \<Rightarrow> Panic ''undefined behaviour'')"
  using assms by (auto simp: put_arg_int_def put_arg_ptr_def put_arg_str_def str_text_def ub_if_def K_defs printint_run printptr_run putchars_run
      split: list.splits parg.splits option.splits)

lemma printf_conv:
  assumes "d \<noteq> 0" "\<not> panicked s"
  shows "printf_loop (of_char (CHR ''%'') # d # fmt) ap s =
     (case conv_text d ap of None \<Rightarrow> Panic ''undefined behaviour'' | Some (xs, as) \<Rightarrow> printf_loop fmt as (put_out xs s))"
  using assms consputc_char [of s d] consputc_char [of s 37] consputc_char [of "put_out [37] s" d]
  by (auto simp: conv_text_def put_arg_run thenK_def bindK_def returnK_def split: list.splits parg.splits)

lemma printf_loop_run: "\<not> panicked s \<Longrightarrow> printf_loop fmt ap s = printed (fmt_text fmt ap) s"
proof (induction fmt ap arbitrary: s rule: fmt_text.induct)
  case (1 ap)
  then show ?case by (simp add: returnK_def)
next
  case (2 c fmt ap)
  consider "c = 0" | "c \<noteq> 0" "c \<noteq> of_char (CHR ''%'')" | "c \<noteq> 0" "c = of_char (CHR ''%'')" by blast
  then show ?case
  proof cases
    case 1
    then show ?thesis by (simp add: returnK_def)
  next
    case p: 2
    have "thenK (consputc (uint c)) (printf_loop fmt ap) s = printed (map_option ((@) [c]) (fmt_text fmt ap)) s"
      by (rule printed_then) (use 2(1) [OF p] 2(3) consputc_char in auto)
    then show ?thesis using p by simp
  next
    case 3
    show ?thesis
    proof (cases "fmt = [] \<or> hd fmt = 0")
      case True
      then show ?thesis using 3 by (auto simp: returnK_def split: list.splits)
    next
      case False
      then obtain d fmt' where f: "fmt = d # fmt'" "d \<noteq> 0" by (cases fmt) auto
      show ?thesis
      proof (cases "conv_text d ap")
        case None
        then show ?thesis using printf_conv [OF f(2) 2(3), of fmt' ap] 3 f by simp
      next
        case (Some r)
        obtain xs as where r: "r = (xs, as)" by fastforce
        have "printf_loop fmt' as (put_out xs s) = printed (fmt_text fmt' as) (put_out xs s)"
          using 2(2) [OF 3(1) _ f Some r [symmetric], of "put_out xs s"] 3(2) 2(3) by simp
        then show ?thesis using printf_conv [OF f(2) 2(3), of fmt' ap] 3 f Some r by (simp split: option.splits)
      qed
    qed
  qed
qed

lemma printf_run:
  assumes "\<not> panicked s" "pr_locking s \<Longrightarrow> LkPr \<notin> set (held s)"
  shows "printf fmt ap s = printed (fmt_text fmt ap) s"
proof (cases "pr_locking s")
  case False
  then show ?thesis using assms(1)
    by (simp add: printf_def K_defs printf_loop_run split: option.splits)
next
  case True
  let ?s = "s\<lparr>held := LkPr # held s\<rparr>"
  have "printf_loop fmt ap ?s = printed (fmt_text fmt ap) ?s" by (rule printf_loop_run) (use assms(1) in simp)
  then show ?thesis using True assms(2) by (simp add: printf_def K_defs put_out_def split: option.splits)
qed

lemma procdump_run:
  assumes "\<not> panicked s" "pr_locking s \<Longrightarrow> LkPr \<notin> set (held s)"
  shows "\<exists>cs. procdump s = Ok () (put_out cs s)"
proof -
  let ?f = "\<lambda>i. bindK (getK (\<lambda>s. procs s i)) (\<lambda>p. whenK (state p \<noteq> UNUSED)
         (seqK [printf (str ''%d %s %s'') [PInt (word_of_int (pid p)), PStr (Some (state_name (state p))), PStr (Some (pname p))],
                printf [newline] []]))"
  have nl: "printf [newline] [] t = Ok () (put_out [10] t)" if "\<not> panicked t" "pr_locking t \<Longrightarrow> LkPr \<notin> set (held t)" for t
    using printf_run [OF that, of "[newline]" "[]"] by simp
  have tx: "fmt_text (str ''%d %s %s'') [PInt x, PStr (Some u), PStr (Some v)]
      = Some (int_text 10 x @ 32 # cstr u @ 32 # cstr v)" for x u v
    by (simp add: str_def conv_text_def str_text_def)
  have step: "\<exists>cs. ?f i t = Ok () (put_out cs t)" if "\<not> panicked t" "pr_locking t \<Longrightarrow> LkPr \<notin> set (held t)" for i t
  proof (cases "state (procs t i) = UNUSED")
    case True
    then show ?thesis by (intro exI [of _ "[]"]) (simp add: K_defs)
  next
    case False
    note th = that
    obtain cs where "printf (str ''%d %s %s'') [PInt (word_of_int (pid (procs t i))), PStr (Some (state_name (state (procs t i)))), PStr (Some (pname (procs t i)))] t
        = Ok () (put_out cs t)"
      using printf_run [OF th] tx by simp
    moreover have "printf [newline] [] (put_out cs t) = Ok () (put_out [10] (put_out cs t))" by (rule nl) (use th in auto)
    ultimately show ?thesis using False by (intro exI [of _ "cs @ [10]"]) (simp add: K_defs)
  qed
  have loop: "\<exists>cs. forK js ?f t = Ok () (put_out cs t)" if "\<not> panicked t" "pr_locking t \<Longrightarrow> LkPr \<notin> set (held t)" for js t
    using that
  proof (induction js arbitrary: t)
    case Nil
    then show ?case by (intro exI [of _ "[]"]) (simp add: K_defs)
  next
    case (Cons i js)
    obtain cs where c: "?f i t = Ok () (put_out cs t)" using step [OF Cons.prems] by blast
    obtain ds where d: "forK js ?f (put_out cs t) = Ok () (put_out ds (put_out cs t))"
      using Cons.IH [of "put_out cs t"] Cons.prems by auto
    show ?case using c d by (intro exI [of _ "cs @ ds"]) (simp add: thenK_def bindK_def)
  qed
  obtain ds where "forK [0..<NPROC] ?f (put_out [10] s) = Ok () (put_out ds (put_out [10] s))"
    using loop [of "put_out [10] s"] assms by auto
  then show ?thesis using nl [OF assms] by (intro exI [of _ "[10] @ ds"]) (simp only: procdump_def thenK_def bindK_def outcome.case put_out_simps)
qed

section \<open>The line editor\<close>

text \<open>Input as an editor sees it: the bytes handed over to readers, and the line being typed.\<close>

definition line_edit :: "u8 \<Rightarrow> bytes \<times> bytes \<Rightarrow> bytes \<times> bytes" where
  "line_edit c = (\<lambda>(lines, ed).
     if c = ctrl CHR ''P'' then (lines, ed)
     else if c = ctrl CHR ''U'' then (lines, [])
     else if c = ctrl CHR ''H'' \<or> c = 0x7f then (lines, butlast ed)
     else if c = 0 \<or> INPUT_BUF \<le> length lines + length ed then (lines, ed)
     else let d = (if c = 13 then newline else c) in
       if d = newline \<or> d = ctrl CHR ''D'' \<or> Suc (length lines + length ed) = INPUT_BUF then (lines @ ed @ [d], [])
       else (lines, ed @ [d]))"

definition cons_abs :: "'z dev_state_scheme \<Rightarrow> bytes \<times> bytes" where
  "cons_abs s = (ring_seg INPUT_BUF (cons_buf s) (cons_r s) (cons_w s), ring_seg INPUT_BUF (cons_buf s) (cons_w s) (cons_e s))"

definition cons_inv :: "'z dev_state_scheme \<Rightarrow> bool" where
  "cons_inv s \<longleftrightarrow> length (cons_buf s) = INPUT_BUF \<and> length (fst (cons_abs s)) + length (snd (cons_abs s)) \<le> INPUT_BUF
     \<and> newline \<notin> set (snd (cons_abs s))"

lemma ring_snoc:
  fixes w e :: "'a::len word"
  assumes "w \<noteq> e"
  shows "ring_seg cap d w e = ring_seg cap d w (e - 1) @ [d ! (unat (e - 1) mod cap)]"
proof -
  have nz: "e - w \<noteq> 0" using assms by simp
  then have "0 < unat (e - w)" by (simp add: unat_gt_0)
  moreover have e1: "e - 1 - w = e - w - 1" by simp
  ultimately have n: "unat (e - w) = Suc (unat (e - 1 - w))" unfolding e1 unat_minus_one [OF nz] by simp
  have "w + of_nat (unat (e - 1 - w)) = e - 1" by simp
  then show ?thesis unfolding ring_seg_def n by simp
qed

lemma ring_join:
  fixes r w e :: "'a::len word"
  assumes "unat (w - r) + unat (e - w) < 2 ^ LENGTH('a)"
  shows "ring_seg cap d r w @ ring_seg cap d w e = ring_seg cap d r e" "unat (e - r) = unat (w - r) + unat (e - w)"
proof -
  have "e - r = (w - r) + (e - w)" by simp
  then have "unat (e - r) = (unat (w - r) + unat (e - w)) mod 2 ^ LENGTH('a)" by (simp only: unat_word_ariths)
  then show u: "unat (e - r) = unat (w - r) + unat (e - w)" using assms by simp
  have "map (\<lambda>i. d ! (unat (r + of_nat i) mod cap)) [unat (w - r)..<unat (w - r) + unat (e - w)]
      = map (\<lambda>i. d ! (unat (w + of_nat i) mod cap)) [0..<unat (e - w)]"
    by (rule nth_equalityI) (simp_all add: add.commute [of "of_nat _"] add.assoc [symmetric])
  then show "ring_seg cap d r w @ ring_seg cap d w e = ring_seg cap d r e"
    unfolding ring_seg_def u upt_add_eq_append [OF zero_le] by simp
qed

definition set_e :: "u32 \<Rightarrow> bytes \<Rightarrow> 'z dev_state_scheme \<Rightarrow> 'z dev_state_scheme" where
  "set_e e cs s = put_out cs (s\<lparr>cons_e := e\<rparr>)"

lemma kill_line:
  assumes "\<not> panicked s" "newline \<notin> set (ring_seg INPUT_BUF (cons_buf s) (cons_w s) (cons_e s))" "unat (cons_e s - cons_w s) \<le> n"
  shows "\<exists>cs r. loopK [0..<Suc n] (\<lambda>_. kill_line_step) s = Ok r (set_e (cons_w s) cs s)"
proof -
  have "\<exists>cs r. loopK js (\<lambda>_. kill_line_step) s = Ok r (set_e (cons_w s) cs s)" if "unat (cons_e s - cons_w s) < length js" for js :: "nat list"
    using that assms(1,2)
  proof (induction js arbitrary: s)
    case (Cons j js)
    show ?case
    proof (cases "cons_e s = cons_w s")
      case True
      then have "kill_line_step s = Ok (Some ()) s" by (simp add: kill_line_step_def K_defs)
      then show ?thesis using True by (intro exI [of _ "[]"]) (simp add: bindK_def returnK_def set_e_def)
    next
      case False
      note sn = ring_snoc [of "cons_w s" "cons_e s" 128 "cons_buf s", OF False [symmetric]]
      have "cons_buf s ! unat ((cons_e s - 1) mod INPUT_BUF) \<noteq> newline"
        using Cons.prems(3) unfolding sn by (auto simp: unat_mod_numeral)
      then have st: "kill_line_step s = Ok None (set_e (cons_e s - 1) [8, 32, 8] s)"
        using False Cons.prems(2) consputc_back [of "s\<lparr>cons_e := cons_e s - 1\<rparr>"]
        by (simp add: kill_line_step_def K_defs set_e_def)
      let ?t = "set_e (cons_e s - 1) [8, 32, 8] s"
      have len: "length (ring_seg 128 (cons_buf s) (cons_w s) (cons_e s)) = Suc (length (ring_seg 128 (cons_buf s) (cons_w s) (cons_e s - 1)))"
        unfolding sn by simp
      have cnt: "unat (cons_e s - cons_w s) = Suc (unat (cons_e s - 1 - cons_w s))" using len by (simp only: length_ring_seg)
      have "\<exists>cs r. loopK js (\<lambda>_. kill_line_step) ?t = Ok r (set_e (cons_w ?t) cs ?t)"
        by (rule Cons.IH) (use cnt Cons.prems sn in \<open>auto simp: set_e_def\<close>)
      then obtain cs r where "loopK js (\<lambda>_. kill_line_step) ?t = Ok r (set_e (cons_w ?t) cs ?t)" by blast
      then show ?thesis using st by (intro exI [of _ "[8, 32, 8] @ cs"] exI [of _ r]) (simp add: bindK_def set_e_def put_out_def)
    qed
  qed simp
  from this [of "[0..<Suc n]"] assms(3) show ?thesis by (simp del: upt_Suc)
qed

text \<open>What \<open>consoleintr\<close> does with the lock held, by the character.\<close>

lemma cons_counts:
  assumes "cons_inv s"
  shows "unat (cons_w s - cons_r s) + unat (cons_e s - cons_w s) \<le> 128"
    "unat (cons_e s - cons_r s) = unat (cons_w s - cons_r s) + unat (cons_e s - cons_w s)"
proof -
  show a: "unat (cons_w s - cons_r s) + unat (cons_e s - cons_w s) \<le> 128" using assms by (simp add: cons_inv_def cons_abs_def)
  then show "unat (cons_e s - cons_r s) = unat (cons_w s - cons_r s) + unat (cons_e s - cons_w s)"
    by (intro ring_join) simp
qed

lemma cons_store_abs:
  assumes "cons_inv s" "unat (cons_w s - cons_r s) + unat (cons_e s - cons_w s) < 128"
  shows "cons_abs (cons_put c s) = (fst (cons_abs s), snd (cons_abs s) @ [c])" "length (cons_buf (cons_put c s)) = 128"
proof -
  let ?d = "(cons_buf s)[unat (cons_e s mod 128) := c]"
  have len: "length (cons_buf s) = 128" using assms(1) by (simp add: cons_inv_def)
  have ed: "ring_seg 128 ?d (cons_w s) (cons_e s + 1) = ring_seg 128 (cons_buf s) (cons_w s) (cons_e s) @ [c]"
    using assms(2) len by (simp add: unat_mod_numeral ring_put)
  have all: "ring_seg 128 ?d (cons_r s) (cons_e s + 1) = ring_seg 128 (cons_buf s) (cons_r s) (cons_e s) @ [c]"
    using assms len cons_counts(2) [OF assms(1)] by (simp add: unat_mod_numeral ring_put)
  have n: "unat (cons_e s + 1 - cons_w s) = Suc (unat (cons_e s - cons_w s))" using assms(2) by (intro ring_put_count [where cap = 128]) auto
  have j1: "ring_seg 128 ?d (cons_r s) (cons_w s) @ ring_seg 128 ?d (cons_w s) (cons_e s + 1) = ring_seg 128 ?d (cons_r s) (cons_e s + 1)"
    by (rule ring_join(1)) (use n assms(2) in simp)
  have j2: "ring_seg 128 (cons_buf s) (cons_r s) (cons_w s) @ ring_seg 128 (cons_buf s) (cons_w s) (cons_e s) = ring_seg 128 (cons_buf s) (cons_r s) (cons_e s)"
    by (rule ring_join(1)) (use assms(2) in simp)
  have "ring_seg 128 ?d (cons_r s) (cons_w s) = ring_seg 128 (cons_buf s) (cons_r s) (cons_w s)"
    using j1 unfolding ed all j2 [symmetric] by simp
  then show "cons_abs (cons_put c s) = (fst (cons_abs s), snd (cons_abs s) @ [c])" using ed by (simp add: cons_abs_def cons_put_def)
  show "length (cons_buf (cons_put c s)) = 128" using len by (simp add: cons_put_def)
qed

lemma cons_commit_abs:
  assumes "length (fst (cons_abs s)) + length (snd (cons_abs s)) \<le> 128"
  shows "cons_abs (s\<lparr>cons_w := cons_e s\<rparr>) = (fst (cons_abs s) @ snd (cons_abs s), [])"
  using ring_join(1) [of "cons_w s" "cons_r s" "cons_e s" 128 "cons_buf s"] assms
  by (simp add: cons_abs_def ring_empty)

lemma cons_back_abs:
  assumes "cons_e s \<noteq> cons_w s" shows "cons_abs (s\<lparr>cons_e := cons_e s - 1\<rparr>) = (fst (cons_abs s), butlast (snd (cons_abs s)))"
  using ring_snoc [of "cons_w s" "cons_e s" 128 "cons_buf s"] assms by (simp add: cons_abs_def)

lemma cons_inv_abs:
  "length (cons_buf t) = 128 \<Longrightarrow> cons_abs t = (l, e) \<Longrightarrow> length l + length e \<le> 128 \<Longrightarrow> newline \<notin> set e \<Longrightarrow> cons_inv t"
  by (simp add: cons_inv_def)

lemma cons_abs_cong:
  "cons_buf t = cons_buf s \<Longrightarrow> cons_r t = cons_r s \<Longrightarrow> cons_w t = cons_w s \<Longrightarrow> cons_e t = cons_e s \<Longrightarrow> cons_abs t = cons_abs s"
  by (simp add: cons_abs_def)

lemma store_char_ok:
  assumes "cons_inv s" "\<not> panicked s" "held s = [LkCons]" "length (fst (cons_abs s)) + length (snd (cons_abs s)) < 128"
  shows "\<exists>t. store_char d s = Ok () t \<and> held t = [LkCons] \<and> length (cons_buf t) = 128
     \<and> cons_abs t = (if d = newline \<or> d = ctrl CHR ''D'' \<or> Suc (length (fst (cons_abs s)) + length (snd (cons_abs s))) = INPUT_BUF
          then (fst (cons_abs s) @ snd (cons_abs s) @ [d], []) else (fst (cons_abs s), snd (cons_abs s) @ [d]))"
proof -
  let ?l = "fst (cons_abs s)" and ?ed = "snd (cons_abs s)"
  define u where "u = cons_put d (put_out [d] s)"
  have inv: "cons_inv (put_out [d] s)" using assms(1) by (simp add: cons_inv_def cons_abs_def)
  have abs: "cons_abs (put_out [d] s) = cons_abs s" by (rule cons_abs_cong) simp_all
  have lt: "unat (cons_w s - cons_r s) + unat (cons_e s - cons_w s) < 128" using assms(4) by (simp add: cons_abs_def)
  have u: "cons_abs u = (?l, ?ed @ [d])" "length (cons_buf u) = 128"
    unfolding u_def using cons_store_abs [OF inv, of d] lt abs by auto
  have uh: "held u = [LkCons]" "cons_r u = cons_r s" "cons_e u = cons_e s + 1" using assms(3) by (simp_all add: u_def cons_put_def)
  have "unat (cons_e s + 1 - cons_r s) = Suc (unat (cons_e s - cons_r s))"
    using lt cons_counts(2) [OF assms(1)] by (intro ring_put_count [where cap = 128]) auto
  then have "unat (cons_e u - cons_r u) = Suc (length ?l + length ?ed)"
    using cons_counts(2) [OF assms(1)] uh by (simp add: cons_abs_def)
  moreover have "cons_e u = cons_r u + 128 \<longleftrightarrow> unat (cons_e u - cons_r u) = 128"
    using ring_full [of 128 "cons_e u" "cons_r u"] calculation assms(4) by auto
  ultimately have full: "cons_e u = cons_r u + 128 \<longleftrightarrow> Suc (length ?l + length ?ed) = 128" by simp
  let ?c = "d = newline \<or> d = ctrl CHR ''D'' \<or> cons_e u = cons_r u + 128"
  let ?f = "seqK [modifyK (\<lambda>s. s\<lparr>cons_w := cons_e s\<rparr>), wakeup ChConsR]"
  have run: "store_char d s = (if ?c then ?f u else Ok () u)"
    using consputc_char [OF assms(2), of d] by (auto simp: store_char_def K_defs u_def split: outcome.splits)
  show ?thesis
  proof (cases ?c)
    case False
    then show ?thesis using run u uh full by auto
  next
    case True
    let ?t = "u\<lparr>cons_w := cons_e u\<rparr>"
    have "wakeup ChConsR ?t = Ok () (?t\<lparr>procs := wake_all ChConsR (curproc ?t) (procs ?t)\<rparr>)" by (rule wakeup_eq) (simp add: uh)
    then have r: "?f u = Ok () (?t\<lparr>procs := wake_all ChConsR (curproc ?t) (procs ?t)\<rparr>)" by (simp add: K_defs)
    have ct: "cons_abs ?t = (?l @ ?ed @ [d], [])" using cons_commit_abs [of u] u(1) assms(4) by simp
    have "cons_abs (?t\<lparr>procs := wake_all ChConsR (curproc ?t) (procs ?t)\<rparr>) = cons_abs ?t" by (rule cons_abs_cong) simp_all
    then show ?thesis using run r u uh full True ct by auto
  qed
qed

lemma line_edit_ok:
  assumes "cons_inv s" "length (cons_buf t) = 128" "cons_abs t = line_edit c (cons_abs s)" shows "cons_inv t"
proof -
  obtain l e where a: "cons_abs s = (l, e)" by fastforce
  have i: "length l + length e \<le> 128" "newline \<notin> set e" using assms(1) a by (simp_all add: cons_inv_def)
  obtain l' e' where b: "line_edit c (l, e) = (l', e')" by fastforce
  have "length l' + length e' \<le> 128 \<and> newline \<notin> set e'"
    using b i by (auto simp: line_edit_def Let_def dest: in_set_butlastD split: if_splits)
  then show ?thesis using cons_inv_abs [OF assms(2)] assms(3) a b by auto
qed

lemma intr_kill:
  assumes "cons_inv s" "\<not> panicked s" "cons_abs s = (l, e)"
  shows "\<exists>t. bindK (getK (\<lambda>s. unat (cons_e s - cons_w s))) (\<lambda>n. thenK (loopK [0..<Suc n] (\<lambda>_. kill_line_step)) (returnK ())) s = Ok () t
     \<and> held t = held s \<and> cons_buf t = cons_buf s \<and> cons_abs t = (l, [])"
proof -
  have "newline \<notin> set (ring_seg 128 (cons_buf s) (cons_w s) (cons_e s))" using assms(1) by (simp add: cons_inv_def cons_abs_def)
  from kill_line [OF assms(2) this order_refl] obtain cs r
    where r: "loopK [0..<Suc (unat (cons_e s - cons_w s))] (\<lambda>_. kill_line_step) s = Ok r (set_e (cons_w s) cs s)" by blast
  have "cons_abs (set_e (cons_w s) cs s) = (l, [])" using assms(3) by (simp add: cons_abs_def set_e_def ring_empty)
  then show ?thesis using r
    by (intro exI [of _ "set_e (cons_w s) cs s"]) (simp add: bindK_def thenK_def getK_def returnK_def set_e_def del: upt_Suc)
qed

lemma intr_back:
  assumes "\<not> panicked s" "cons_abs s = (l, e)"
  shows "\<exists>t. bindK (getK id) (\<lambda>s. whenK (cons_e s \<noteq> cons_w s) (seqK [modifyK (\<lambda>s. s\<lparr>cons_e := cons_e s - 1\<rparr>), consputc BACKSPACE])) s = Ok () t
     \<and> held t = held s \<and> cons_buf t = cons_buf s \<and> cons_abs t = (l, butlast e)"
proof (cases "cons_e s = cons_w s")
  case True
  then have "e = []" using assms(2) by (auto simp: cons_abs_def ring_empty)
  then show ?thesis using True assms(2) by (intro exI [of _ s]) (auto simp: K_defs)
next
  case False
  let ?t = "put_out [8, 32, 8] (s\<lparr>cons_e := cons_e s - 1\<rparr>)"
  have "cons_abs ?t = cons_abs (s\<lparr>cons_e := cons_e s - 1\<rparr>)" by (rule cons_abs_cong) simp_all
  then have "cons_abs ?t = (l, butlast e)" using cons_back_abs [OF False] assms(2) by simp
  then show ?thesis using False assms(1) consputc_back [of "s\<lparr>cons_e := cons_e s - 1\<rparr>"]
    by (intro exI [of _ ?t]) (auto simp: K_defs)
qed

lemma intr_char:
  assumes "cons_inv s" "\<not> panicked s" "held s = [LkCons]" "cons_abs s = (l, e)"
    and c: "c \<noteq> ctrl CHR ''P''" "c \<noteq> ctrl CHR ''U''" "\<not> (c = ctrl CHR ''H'' \<or> c = 0x7f)"
  shows "\<exists>t. bindK (getK id) (\<lambda>s. whenK (c \<noteq> 0 \<and> cons_e s - cons_r s < INPUT_BUF) (store_char (if c = 13 then newline else c))) s = Ok () t
     \<and> held t = [LkCons] \<and> length (cons_buf t) = 128 \<and> cons_abs t = line_edit c (l, e)"
proof -
  define d where "d = (if c = 13 then newline else c)"
  have n: "unat (cons_e s - cons_r s) = length l + length e" using cons_counts(2) [OF assms(1)] assms(4) by (auto simp: cons_abs_def)
  then have lt: "cons_e s - cons_r s < 128 \<longleftrightarrow> length l + length e < 128" by (simp add: word_less_nat_alt)
  show ?thesis
  proof (cases "c \<noteq> 0 \<and> length l + length e < 128")
    case True
    then have "line_edit c (l, e) = (if d = newline \<or> d = ctrl CHR ''D'' \<or> Suc (length l + length e) = INPUT_BUF
        then (l @ e @ [d], []) else (l, e @ [d]))"
      using c by (simp add: line_edit_def Let_def d_def not_le)
    moreover obtain t where "store_char d s = Ok () t" "held t = [LkCons]" "length (cons_buf t) = 128"
       "cons_abs t = (if d = newline \<or> d = ctrl CHR ''D'' \<or> Suc (length l + length e) = INPUT_BUF then (l @ e @ [d], []) else (l, e @ [d]))"
      using store_char_ok [OF assms(1-3), of d] assms(4) True by auto
    ultimately show ?thesis using True lt unfolding d_def [symmetric] by (simp add: K_defs)
  next
    case False
    then show ?thesis using lt assms c by (intro exI [of _ s]) (auto simp: line_edit_def K_defs cons_inv_def)
  qed
qed

lemma seqK_3: "f s = Ok () s1 \<Longrightarrow> g s1 = Ok () t \<Longrightarrow> seqK [f, g, h] s = h t"
  by (simp add: K_defs split: outcome.splits)

lemma consoleintr_ok:
  assumes "cons_inv s" "held s = []" "\<not> panicked s"
  shows "\<exists>t. consoleintr c s = Ok () t \<and> cons_inv t \<and> cons_abs t = line_edit c (cons_abs s) \<and> held t = []"
proof -
  define s1 where "s1 = s\<lparr>held := [LkCons]\<rparr>"
  have s1: "cons_inv s1" "\<not> panicked s1" "held s1 = [LkCons]" "cons_abs s1 = cons_abs s"
    using assms by (simp_all add: s1_def cons_inv_def cons_abs_def)
  obtain l e where a: "cons_abs s1 = (l, e)" by fastforce
  have len: "length (cons_buf s1) = 128" using s1(1) by (auto simp: cons_inv_def)
  obtain cs where pd: "procdump s1 = Ok () (put_out cs s1)" using procdump_run [OF s1(2)] s1(3) by auto
  have pa: "cons_abs (put_out cs s1) = cons_abs s1" by (rule cons_abs_cong) simp_all
  have acq: "acquire LkCons s = Ok () s1" using assms(2) by (simp add: s1_def)
  have "\<exists>t. consoleintr c s = release LkCons t \<and> held t = [LkCons] \<and> length (cons_buf t) = 128 \<and> cons_abs t = line_edit c (l, e)"
  proof -
    consider (P) "c = ctrl CHR ''P''" | (U) "c \<noteq> ctrl CHR ''P''" "c = ctrl CHR ''U''"
      | (H) "c \<noteq> ctrl CHR ''P''" "c \<noteq> ctrl CHR ''U''" "c = ctrl CHR ''H'' \<or> c = 0x7f"
      | (other) "c \<noteq> ctrl CHR ''P''" "c \<noteq> ctrl CHR ''U''" "\<not> (c = ctrl CHR ''H'' \<or> c = 0x7f)" by blast
    then show ?thesis
    proof cases
      case P
      then have "line_edit c (l, e) = (l, e)" by (simp add: line_edit_def)
      moreover have "consoleintr c s = release LkCons (put_out cs s1)"
        unfolding consoleintr_def if_P [OF P] by (rule seqK_3, rule acq, rule pd)
      ultimately show ?thesis using pa a s1(3) len by (intro exI [of _ "put_out cs s1"]) simp
    next
      case U
      then have le: "line_edit c (l, e) = (l, [])" by (simp add: line_edit_def)
      obtain t where t: "held t = held s1" "cons_buf t = cons_buf s1" "cons_abs t = (l, [])"
        "bindK (getK (\<lambda>s. unat (cons_e s - cons_w s))) (\<lambda>n. thenK (loopK [0..<Suc n] (\<lambda>_. kill_line_step)) (returnK ())) s1 = Ok () t"
        using intr_kill [OF s1(1,2) a] by blast
      have "consoleintr c s = release LkCons t" unfolding consoleintr_def if_not_P [OF U(1)] if_P [OF U(2)] by (rule seqK_3, rule acq, rule t(4))
      then show ?thesis using t(1-3) s1(3) len le by (intro exI [of _ t]) simp
    next
      case H
      then have le: "line_edit c (l, e) = (l, butlast e)" by (auto simp: line_edit_def)
      obtain t where t: "held t = held s1" "cons_buf t = cons_buf s1" "cons_abs t = (l, butlast e)"
        "bindK (getK id) (\<lambda>s. whenK (cons_e s \<noteq> cons_w s) (seqK [modifyK (\<lambda>s. s\<lparr>cons_e := cons_e s - 1\<rparr>), consputc BACKSPACE])) s1 = Ok () t"
        using intr_back [OF s1(2) a] by blast
      have "consoleintr c s = release LkCons t"
        unfolding consoleintr_def if_not_P [OF H(1)] if_not_P [OF H(2)] if_P [OF H(3)] by (rule seqK_3, rule acq, rule t(4))
      then show ?thesis using t(1-3) s1(3) len le by (intro exI [of _ t]) simp
    next
      case other
      obtain t where t: "held t = [LkCons]" "length (cons_buf t) = 128" "cons_abs t = line_edit c (l, e)"
        "bindK (getK id) (\<lambda>s. whenK (c \<noteq> 0 \<and> cons_e s - cons_r s < INPUT_BUF) (store_char (if c = 13 then newline else c))) s1 = Ok () t"
        using intr_char [OF s1(1,2,3) a other] by blast
      have "consoleintr c s = release LkCons t"
        unfolding consoleintr_def if_not_P [OF other(1)] if_not_P [OF other(2)] if_not_P [OF other(3)] by (rule seqK_3, rule acq, rule t(4))
      then show ?thesis using t by blast
    qed
  qed
  then obtain t where t: "consoleintr c s = release LkCons t" "held t = [LkCons]" "length (cons_buf t) = 128" "cons_abs t = line_edit c (cons_abs s)"
    using a s1(4) by auto
  then have "consoleintr c s = Ok () (t\<lparr>held := []\<rparr>)" by simp
  moreover have "cons_abs (t\<lparr>held := []\<rparr>) = cons_abs t" by (rule cons_abs_cong) simp_all
  moreover have "cons_inv t" by (rule line_edit_ok [OF assms(1) t(3,4)])
  ultimately show ?thesis using t(4) by (auto simp: cons_inv_def)
qed

section \<open>Transmission\<close>

lemma loopK_out:
  assumes "tx_ok s" "\<And>i. LkProc i \<notin> set (held s)" "unat (uart_tx_w s - uart_tx_r s) < length js"
  shows "\<exists>r t. loopK js (\<lambda>_. uartstart_step) s = Ok r t \<and> tx_ok t \<and> uart_out t @ tx_queue t = uart_out s @ tx_queue s
     \<and> length (tx_queue t) = length (tx_queue s) - uart_room s \<and> held t = held s"
  using assms
proof (induction js arbitrary: s)
  case (Cons j js)
  show ?case
  proof (cases "uart_tx_w s = uart_tx_r s \<or> uart_room s = 0")
    case True
    then have "uartstart_step s = Ok (Some ()) s" by (auto simp: uartstart_step_def K_defs)
    moreover have "length (tx_queue s) = length (tx_queue s) - uart_room s" using True by (auto simp: tx_queue_def)
    ultimately show ?thesis using Cons.prems(1) by (simp add: bindK_def returnK_def)
  next
    case False
    then have ne: "tx_queue s \<noteq> []" by (auto simp: tx_queue_def ring_empty)
    note g = txq.get_ok [OF Cons.prems(1) ne] txq.get_queue [OF Cons.prems(1) ne]
    let ?u = "snd (tx_get s)"
    define t where "t = ?u\<lparr>procs := wake_all ChUartTx (curproc ?u) (procs ?u), uart_out := uart_out s @ [fst (tx_get s)], uart_room := uart_room s - 1\<rparr>"
    have "wakeup ChUartTx ?u = Ok () (?u\<lparr>procs := wake_all ChUartTx (curproc ?u) (procs ?u)\<rparr>)"
      by (rule wakeup_eq) (use Cons.prems(2) in \<open>simp add: tx_get_def\<close>)
    then have st: "uartstart_step s = Ok None t"
      using False by (simp add: uartstart_step_def K_defs write_THR_def t_def tx_get_def)
    have t: "tx_ok t" "tx_queue t = tx_queue ?u" "uart_out t = uart_out s @ [fst (tx_get s)]" "uart_room t = uart_room s - 1" "held t = held s"
      using g(1) by (simp_all add: t_def tx_ok_def tx_queue_def tx_get_def)
    have "length (tx_queue s) = Suc (length (tx_queue t))" using g(2) t(2) by (metis length_Cons)
    then have "unat (uart_tx_w t - uart_tx_r t) < length js" using Cons.prems(3) by (simp add: tx_queue_def)
    then obtain r v where v: "loopK js (\<lambda>_. uartstart_step) t = Ok r v" "tx_ok v" "uart_out v @ tx_queue v = uart_out t @ tx_queue t"
       "length (tx_queue v) = length (tx_queue t) - uart_room t" "held v = held t"
      using Cons.IH [OF t(1)] Cons.prems(2) t(5) by auto
    have "length (tx_queue v) = length (tx_queue s) - uart_room s"
      using v(4) t(4) False \<open>length (tx_queue s) = Suc (length (tx_queue t))\<close> by simp
    moreover have "uart_out v @ tx_queue v = uart_out s @ tx_queue s" using v(3) t(2,3) g(2) by (metis append.assoc append_Cons append_Nil)
    ultimately show ?thesis using st v t(5) by (simp add: bindK_def)
  qed
qed simp

lemma uartstart_ok:
  assumes "tx_ok s" "\<And>i. LkProc i \<notin> set (held s)"
  shows "\<exists>t. uartstart s = Ok () t \<and> tx_ok t \<and> uart_out t @ tx_queue t = uart_out s @ tx_queue s
     \<and> length (tx_queue t) = length (tx_queue s) - uart_room s \<and> held t = held s"
  using loopK_out [OF assms, of "[0..<Suc (unat (uart_tx_w s - uart_tx_r s))]"]
  by (auto simp: uartstart_def bindK_def thenK_def getK_def returnK_def simp del: upt_Suc)

lemma tx_full: "tx_ok s \<Longrightarrow> uart_tx_w s = uart_tx_r s + UART_TX_BUF_SIZE \<longleftrightarrow> length (tx_queue s) = UART_TX_BUF_SIZE"
  using ring_full [of 32 "uart_tx_w s" "uart_tx_r s"] by (auto simp: tx_ok_def tx_queue_def)

lemma uartputc_ok:
  assumes "tx_ok s" "held s = []" "\<not> panicked s" "length (tx_queue s) < UART_TX_BUF_SIZE"
  shows "\<exists>t. uartputc c s = Ok () t \<and> tx_ok t \<and> held t = [] \<and> uart_out t @ tx_queue t = uart_out s @ tx_queue s @ [c]
     \<and> length (tx_queue t) = Suc (length (tx_queue s)) - uart_room s"
proof -
  let ?u = "tx_put c (s\<lparr>held := [LkUart]\<rparr>)"
  have s1: "tx_ok (s\<lparr>held := [LkUart]\<rparr>)" "tx_queue (s\<lparr>held := [LkUart]\<rparr>) = tx_queue s" using assms(1) by (simp_all add: tx_ok_def tx_queue_def)
  have u: "tx_ok ?u" "tx_queue ?u = tx_queue s @ [c]" using txq.put_ok [OF s1(1)] txq.put_queue [OF s1(1)] s1(2) assms(4) by simp_all
  have h: "held ?u = [LkUart]" "uart_out ?u = uart_out s" "uart_room ?u = uart_room s" by (simp_all add: tx_put_def)
  obtain v where v: "uartstart ?u = Ok () v" "tx_ok v" "uart_out v @ tx_queue v = uart_out ?u @ tx_queue ?u"
     "length (tx_queue v) = length (tx_queue ?u) - uart_room ?u" "held v = held ?u"
    using uartstart_ok [OF u(1)] h(1) by auto
  have nf: "uart_tx_w s \<noteq> uart_tx_r s + 32" using tx_full [OF assms(1)] assms(4) by simp
  have "uartputc c s = Ok () (v\<lparr>held := []\<rparr>)"
    using assms(2,3) nf v(1,5) h(1) by (simp add: uartputc_def K_defs)
  moreover have "tx_ok (v\<lparr>held := []\<rparr>)" "tx_queue (v\<lparr>held := []\<rparr>) = tx_queue v" using v(2) by (simp_all add: tx_ok_def tx_queue_def)
  ultimately show ?thesis using v(3,4) u(2) h(2,3) by (intro exI [of _ "v\<lparr>held := []\<rparr>"]) simp
qed

lemma uartputc_blocks:
  assumes "tx_ok s" "held s = []" "\<not> panicked s" "curproc s = Some p" "length (tx_queue s) = UART_TX_BUF_SIZE"
  shows "uartputc c s = Block ChUartTx (s\<lparr>procs := (procs s)(p := (procs s p)\<lparr>chan := Some ChUartTx, state := SLEEPING\<rparr>)\<rparr>)"
proof -
  have "uart_tx_w s = uart_tx_r s + 32" using tx_full [OF assms(1)] assms(5) by simp
  moreover have "sleep ChUartTx LkUart (s\<lparr>held := [LkUart]\<rparr>)
      = Block ChUartTx (s\<lparr>procs := (procs s)(p := (procs s p)\<lparr>chan := Some ChUartTx, state := SLEEPING\<rparr>)\<rparr>)"
    by (subst sleep_eq [where p = p]) (use assms(2,4) in simp_all)
  ultimately show ?thesis using assms(2,3) by (simp add: uartputc_def K_defs)
qed

section \<open>Properties\<close>

definition demo_cons :: file_state where
  "demo_cons = (boot_file 0x80021000 (\<lambda>_. []))\<lparr>curproc := Some 1\<rparr>"

lemma demo_cons_ok: "cons_inv demo_cons" "tx_ok demo_cons" "held demo_cons = []" "\<not> panicked demo_cons" "cons_abs demo_cons = ([], [])" "tx_queue demo_cons = []"
  by (simp_all add: demo_cons_def boot_file_def cons_inv_def cons_abs_def tx_ok_def tx_queue_def ring_seg_def)

text \<open>C25. Console input is a line editor: for every character, \<open>consoleintr\<close> does on the ring buffer and
  its three counters what the editor does on the finished lines and the line being typed.  Erasing
  never touches finished lines, input beyond the 128 bytes is dropped, and the invariant is kept.\<close>

theorem console_line_editor:
  assumes "cons_inv s" "held s = []" "\<not> panicked s"
  shows "\<exists>t. consoleintr c s = Ok () t \<and> cons_inv t \<and> cons_abs t = line_edit c (cons_abs s) \<and> held t = []"
  by (rule consoleintr_ok [OF assms])

theorem console_line_editor_witness:
  "\<exists>t. consoleintr 97 demo_cons = Ok () t \<and> cons_abs t = ([], [97])"
  using console_line_editor [OF demo_cons_ok(1,3,4), of 97] demo_cons_ok(5) by (auto simp: line_edit_def ctrl_def)

text \<open>C26. Characters leave the UART in the order they were written: \<open>uartputc\<close> extends the sequence of
  sent and buffered bytes by its argument at the end, and hands over to the device as many as it takes.\<close>

theorem uart_in_order:
  assumes "tx_ok s" "held s = []" "\<not> panicked s" "length (tx_queue s) < UART_TX_BUF_SIZE"
  shows "\<exists>t. uartputc c s = Ok () t \<and> tx_ok t \<and> held t = [] \<and> uart_out t @ tx_queue t = uart_out s @ tx_queue s @ [c]
     \<and> length (tx_queue t) = Suc (length (tx_queue s)) - uart_room s"
  by (rule uartputc_ok [OF assms])

theorem uart_in_order_witness:
  "\<exists>t. uartputc 65 demo_cons = Ok () t \<and> uart_out t @ tx_queue t = [65]"
  using uart_in_order [OF demo_cons_ok(2-4), of 65] demo_cons_ok(6) by (auto simp: demo_cons_def boot_file_def)



end
