(* ===== verification/FsTx.thy ===== *)
theory FsTx
  imports Fs LogSpec
begin

text \<open>
  Reading and writing blocks inside a transaction.  \<open>txn L s\<close>: an operation is under way and holds
  the locks of the buffers of the blocks in \<open>L\<close>; every block of the transaction is pinned by the log,
  and every other block is in the cache, if at all, as it is on disk.
\<close>

section \<open>Inside a transaction\<close>

definition txn :: "u32 set \<Rightarrow> 'z log_state_scheme \<Rightarrow> bool" where
  "txn L s \<longleftrightarrow> bio_ok s \<and> log_geom s \<and> finite L \<and> lockedb s = (\<lambda>b. b \<in> L)
     \<and> refs s = (\<lambda>b. of_bool (b \<in> logged s) + of_bool (b \<in> L))
     \<and> 0 < outstanding s \<and> lsize s = LOGSIZE \<and> (\<forall>b. b \<notin> logged s \<longrightarrow> cont s b = dsk s b)"

text \<open>What the operations on blocks leave alone.\<close>

definition tframe :: "'z log_state_scheme \<Rightarrow> 'z log_state_scheme \<Rightarrow> bool" where
  "tframe s t \<longleftrightarrow> held t = held s \<and> curproc t = curproc s \<and> mypid t = mypid s \<and> pmem t = pmem s
     \<and> kend t = kend s \<and> freelist t = freelist s \<and> (\<forall>i. slks t (SlInode i) = slks s (SlInode i))
     \<and> log_state.more t = log_state.more s \<and> dsk t = dsk s \<and> wtrace t = wtrace s
     \<and> lstart t = lstart s \<and> outstanding t = outstanding s \<and> committing t = committing s
     \<and> logged s \<subseteq> logged t \<and> ln s \<le> ln t"

text \<open>The caller keeps the buffers it has locked.\<close>

definition has_buf :: "'z log_state_scheme \<Rightarrow> nat \<Rightarrow> u32 \<Rightarrow> bool" where
  "has_buf s i b \<longleftrightarrow> caches s i b \<and> mine s i"

lemma tframe_refl [simp]: "tframe s s"
  by (simp add: tframe_def)

lemma tframe_trans: "tframe s t \<Longrightarrow> tframe t u \<Longrightarrow> tframe s u"
  by (auto simp: tframe_def)

lemma bframe_tframe: "bframe s t \<Longrightarrow> dsk t = dsk s \<Longrightarrow> wtrace t = wtrace s \<Longrightarrow> tframe s t"
  using bframe_mypid [of s t] by (cases s; cases t) (simp add: bframe_def tframe_def logged_def)

lemma logged_card: "log_geom s \<Longrightarrow> card (logged s) = nat (ln s)"
  by (simp add: logged_def log_geom_def distinct_card min_absorb2 nat_le_iff)

lemma txn_inuse: assumes "txn L s" shows "inuse s \<le> nat (ln s) + card L"
proof -
  have "{b. 0 < refs s b} = logged s \<union> L" using assms by (auto simp: txn_def)
  then show ?thesis using card_Un_le [of "logged s" L] logged_card [of s] assms by (simp add: inuse_def txn_def)
qed

lemma txn_refs: "txn L s \<Longrightarrow> refs s b + 1 < 2 ^ 32"
  by (simp add: txn_def of_bool_def)

lemma has_buf_in: "txn L s \<Longrightarrow> has_buf s j c \<Longrightarrow> c \<in> L"
  using mine_buf(5) [of s j c] by (simp add: has_buf_def txn_def)

lemma txn_len: "txn L s \<Longrightarrow> length (cont s b) = BSIZE"
  using cont_length [of s b] by (simp add: txn_def)

lemma txn_bread:
  fixes s :: "'z log_state_scheme"
  assumes x: "txn L s" and b: "b \<notin> L" and n: "nat (ln s) + card L < NBUF"
  shows "\<exists>i t. bread ROOTDEV b s = Ok i t \<and> txn (insert b L) t \<and> has_buf t i b \<and> cont t = cont s \<and> tframe s t
     \<and> ln t = ln s \<and> logged t = logged s \<and> (\<forall>j c. has_buf s j c \<longrightarrow> has_buf t j c)"
proof -
  have x': "bio_ok s" "log_geom s" "finite L" "lockedb s = (\<lambda>b. b \<in> L)" "refs s = (\<lambda>b. of_bool (b \<in> logged s) + of_bool (b \<in> L))"
     "0 < outstanding s" "lsize s = LOGSIZE" "\<And>b. b \<notin> logged s \<Longrightarrow> cont s b = dsk s b"
    using x by (auto simp: txn_def)
  obtain i t where t: "bread ROOTDEV b s = Ok i t" "bstep i s t" "caches t i b" "mine t i" "cont t = cont s"
     "refs t = (refs s)(b := refs s b + 1)" "lockedb t = (lockedb s)(b := True)" "dsk t = dsk s" "wtrace t = wtrace s"
    using bread_ok [OF x'(1), of b] x'(4) b n txn_inuse [OF x] txn_refs [OF x, of b] by auto
  note d = bstepD [OF t(2)]
  have lg: "same_log s t" by (rule bframe_log [OF d(2)])
  then have l: "logged t = logged s" "ln t = ln s" "log_geom t" using log_geom_same [OF lg] x'(2) by (simp_all add: logged_def same_log_def)
  have tx: "txn (insert b L) t"
    using d(1) l x' t lg b by (auto simp: txn_def same_log_def fun_eq_iff)
  have "has_buf t j c" if "has_buf s j c" for j c
  proof -
    have jc: "caches s j c" "mine s j" using that by (simp_all add: has_buf_def)
    have "c \<in> L" using mine_buf(5) [OF x'(1) jc] x'(4) by simp
    then have "c \<noteq> b" using b by blast
    have cj: "caches t j c" by (rule caches_keep [OF t(2) x'(1) jc])
    then have "j \<noteq> i" using caches_neq [OF t(3) cj] \<open>c \<noteq> b\<close> by blast
    then show ?thesis using cj d(4) jc(2) by (simp add: has_buf_def)
  qed
  then show ?thesis using t(1,3,4,5) tx l bframe_tframe [OF d(2) t(8,9)] by (auto simp: has_buf_def)
qed

lemma txn_write:
  fixes s :: "'z log_state_scheme"
  assumes x: "txn L s" and o: "has_buf s i b" and d: "length d = BSIZE" and n: "ln s < LOGSIZE - 1" and h: "home (lstart s) b"
  shows "\<exists>t. thenK (set_data i d) (log_write i) s = Ok () t \<and> txn L t \<and> has_buf t i b \<and> cont t = (cont s)(b := d) \<and> tframe s t
     \<and> ln t \<le> ln s + 1 \<and> logged t = insert b (logged s) \<and> (\<forall>j c. has_buf s j c \<longrightarrow> has_buf t j c)"
proof -
  have x': "bio_ok s" "log_geom s" "finite L" "lockedb s = (\<lambda>b. b \<in> L)" "refs s = (\<lambda>b. of_bool (b \<in> logged s) + of_bool (b \<in> L))"
     "0 < outstanding s" "lsize s = LOGSIZE" "\<And>b. b \<notin> logged s \<Longrightarrow> cont s b = dsk s b"
    using x by (auto simp: txn_def)
  have o': "caches s i b" "mine s i" using o by (simp_all add: has_buf_def)
  obtain u where u: "set_data i d s = Ok () u" "bstep i s u" "mine u i" "caches u i b" "cont u = (cont s)(b := d)"
     "refs u = refs s" "lockedb u = lockedb s" "dsk u = dsk s" "wtrace u = wtrace s"
    using set_data_ok [OF x'(1) o' d] by blast
  note du = bstepD [OF u(2)]
  have lu: "same_log s u" by (rule bframe_log [OF du(2)])
  have gu: "log_geom u" "logged u = logged s" using log_geom_same [OF lu] x'(2) lu by (simp_all add: logged_def same_log_def)
  have bL: "b \<in> L" using mine_buf(5) [OF x'(1) o'] x'(4) by simp
  obtain t where t: "log_write i u = Ok () t" "bio_ok t" "log_geom t" "logged t = insert b (logged u)" "ln t = ln u + (if b \<in> logged u then 0 else 1)"
     "cont t = cont u" "lockedb t = lockedb u" "refs t = (refs u)(b := refs u b + (if b \<in> logged u then 0 else 1))" "mine t i" "caches t i b"
     "dsk t = dsk u" "wtrace t = wtrace u" "lstart t = lstart u" "outstanding t = outstanding u" "committing t = committing u" "lsize t = lsize u"
    using log_write_ok [OF du(1) gu(1) u(4,3)] x'(6,7) n h lu txn_refs [OF x, of b] u(6) by (auto simp: same_log_def home_def)
  have bu: "blockno (bufs u i) = b" using u(4) by (simp add: caches_def)
  have ex: "t = (if b \<in> logged u then u else u\<lparr>bufs := (bufs u)(i := (bufs u i)\<lparr>refcnt := refcnt (bufs u i) + 1\<rparr>), ln := ln u + 1, lblock := (lblock u)[nat (ln u) := b]\<rparr>)"
    using log_write_run [of u i] t(1) bu du(1) lu x'(6,7) n gu(1) by (auto simp: bio_ok_def log_geom_def same_log_def)
  have fr: "tframe u t" using t(4,5) unfolding ex by (auto simp: tframe_def mypid_def split: option.splits if_splits)
  have tx: "txn L t"
    using t gu u x' lu bL by (auto simp: txn_def same_log_def fun_eq_iff)
  have "has_buf t j c" if "has_buf s j c" for j c
  proof (cases "j = i")
    case True
    then have "c = b" using that o by (auto simp: has_buf_def caches_def)
    then show ?thesis using True t(9,10) by (simp add: has_buf_def)
  next
    case False
    have jc: "caches s j c" "mine s j" using that by (simp_all add: has_buf_def)
    have "caches u j c" "mine u j" using caches_keep [OF u(2) x'(1) jc] du(4) [OF False jc(2)] by simp_all
    then show ?thesis using False unfolding ex by (auto simp: has_buf_def caches_def mine_def mypid_def split: option.splits)
  qed
  moreover have "thenK (set_data i d) (log_write i) s = Ok () t" using t(1) by (simp add: thenK_Ok [of "set_data i d", OF u(1)])
  moreover have "tframe s t" by (rule tframe_trans [OF bframe_tframe [OF du(2) u(8,9)] fr])
  ultimately show ?thesis using tx t(4-6,9,10) gu(2) u(5) lu by (auto simp: has_buf_def same_log_def)
qed

lemma txn_brelse:
  fixes s :: "'z log_state_scheme"
  assumes x: "txn L s" and o: "has_buf s i b"
  shows "\<exists>t. brelse i s = Ok () t \<and> txn (L - {b}) t \<and> cont t = cont s \<and> tframe s t \<and> ln t = ln s \<and> logged t = logged s
     \<and> (\<forall>j c. has_buf s j c \<longrightarrow> c \<noteq> b \<longrightarrow> has_buf t j c)"
proof -
  have x': "bio_ok s" "log_geom s" "finite L" "lockedb s = (\<lambda>b. b \<in> L)" "refs s = (\<lambda>b. of_bool (b \<in> logged s) + of_bool (b \<in> L))"
     "0 < outstanding s" "lsize s = LOGSIZE" "\<And>b. b \<notin> logged s \<Longrightarrow> cont s b = dsk s b"
    using x by (auto simp: txn_def)
  have o': "caches s i b" "mine s i" using o by (simp_all add: has_buf_def)
  have bL: "b \<in> L" using mine_buf(5) [OF x'(1) o'] x'(4) by simp
  have "cont s b = dsk s b" if "refs s b = 1" using that x'(5,8) bL by (cases "b \<in> logged s") auto
  then obtain t where t: "brelse i s = Ok () t" "bstep i s t" "cont t = cont s" "refs t = (refs s)(b := refs s b - 1)"
     "lockedb t = (lockedb s)(b := False)" "dsk t = dsk s" "wtrace t = wtrace s"
    using brelse_ok [OF x'(1) o'] by blast
  note d = bstepD [OF t(2)]
  have lg: "same_log s t" by (rule bframe_log [OF d(2)])
  then have l: "logged t = logged s" "ln t = ln s" "log_geom t" using log_geom_same [OF lg] x'(2) by (simp_all add: logged_def same_log_def)
  have tx: "txn (L - {b}) t" using d(1) l x' t lg bL by (auto simp: txn_def same_log_def fun_eq_iff)
  have "has_buf t j c" if jc: "has_buf s j c" and ne: "c \<noteq> b" for j c
  proof -
    have jc': "caches s j c" "mine s j" using jc by (simp_all add: has_buf_def)
    have "j \<noteq> i" using ne jc' o' by (auto simp: caches_def)
    then show ?thesis using caches_keep [OF t(2) x'(1) jc'] d(4) jc'(2) by (simp add: has_buf_def)
  qed
  then show ?thesis using t(1,3) tx l bframe_tframe [OF d(2) t(6,7)] by auto
qed

text \<open>Reading, changing and logging one block.\<close>

lemma txn_get_buf: "txn L s \<Longrightarrow> has_buf s i b \<Longrightarrow> data (bufs s i) = cont s b"
  using caches_data by (auto simp: txn_def has_buf_def)

lemma txn_open:
  fixes s :: "'z log_state_scheme"
  assumes x: "txn L s" and b: "b \<notin> L" and n: "nat (ln s) + card L < NBUF"
  shows "\<exists>i t. bindK (bread ROOTDEV b) F s = F i t \<and> data (bufs t i) = cont s b \<and> txn (insert b L) t \<and> has_buf t i b \<and> cont t = cont s \<and> tframe s t
     \<and> ln t = ln s \<and> logged t = logged s \<and> (\<forall>j c. has_buf s j c \<longrightarrow> has_buf t j c)"
proof -
  obtain i t where t: "bread ROOTDEV b s = Ok i t" "txn (insert b L) t" "has_buf t i b" "cont t = cont s" "tframe s t"
     "ln t = ln s" "logged t = logged s" "\<forall>j c. has_buf s j c \<longrightarrow> has_buf t j c"
    using txn_bread [OF x b n] by blast
  have "bindK (bread ROOTDEV b) F s = F i t" by (simp add: bindK_def t(1))
  moreover have "data (bufs t i) = cont s b" using txn_get_buf [OF t(2,3)] t(4) by simp
  ultimately show ?thesis using t by blast
qed

text \<open>Writing a locked block and releasing it.\<close>

lemma txn_finish:
  fixes s :: "'z log_state_scheme"
  assumes x: "txn (insert b L) s" and bL: "b \<notin> L" and o: "has_buf s i b" and d: "length d = BSIZE" and n: "ln s < LOGSIZE - 1" and h: "home (lstart s) b"
  shows "\<exists>t. seqK [set_data i d, log_write i, brelse i] s = Ok () t \<and> txn L t \<and> cont t = (cont s)(b := d) \<and> tframe s t
     \<and> ln t \<le> ln s + 1 \<and> logged t = insert b (logged s) \<and> (\<forall>j c. has_buf s j c \<longrightarrow> c \<noteq> b \<longrightarrow> has_buf t j c)"
proof -
  obtain u where u: "thenK (set_data i d) (log_write i) s = Ok () u" "txn (insert b L) u" "has_buf u i b" "cont u = (cont s)(b := d)" "tframe s u"
     "ln u \<le> ln s + 1" "logged u = insert b (logged s)" "\<forall>j c. has_buf s j c \<longrightarrow> has_buf u j c"
    using txn_write [OF x o d n h] by blast
  obtain t where t: "brelse i u = Ok () t" "txn (insert b L - {b}) t" "cont t = cont u" "tframe u t" "ln t = ln u" "logged t = logged u"
     "\<forall>j c. has_buf u j c \<longrightarrow> c \<noteq> b \<longrightarrow> has_buf t j c"
    using txn_brelse [OF u(2,3)] by blast
  have "insert b L - {b} = L" using bL by blast
  moreover have "seqK [set_data i d, log_write i, brelse i] s = Ok () t"
    by (simp add: thenK_thenK_Ok [OF u(1)] thenK_Ok [of "brelse i", OF t(1)] returnK_def)
  ultimately show ?thesis using t u tframe_trans [OF u(5) t(4)] by auto
qed

lemma txn_modify:
  fixes s :: "'z log_state_scheme"
  assumes x: "txn L s" and b: "b \<notin> L" and n: "ln s < LOGSIZE - 1" "nat (ln s) + card L < NBUF" and h: "home (lstart s) b"
    and f: "length (f (cont s b)) = BSIZE"
  shows "\<exists>t. bindK (bread ROOTDEV b) (\<lambda>bp. bindK (get_buf bp) (\<lambda>k. seqK [set_data bp (f (data k)), log_write bp, brelse bp])) s = Ok () t
     \<and> txn L t \<and> cont t = (cont s)(b := f (cont s b)) \<and> tframe s t
     \<and> ln t \<le> ln s + 1 \<and> logged t = insert b (logged s) \<and> (\<forall>j c. has_buf s j c \<longrightarrow> has_buf t j c)"
proof -
  let ?F = "\<lambda>bp. bindK (get_buf bp) (\<lambda>k. seqK [set_data bp (f (data k)), log_write bp, brelse bp])"
  obtain i u where u: "bindK (bread ROOTDEV b) ?F s = ?F i u" "data (bufs u i) = cont s b" "txn (insert b L) u" "has_buf u i b" "cont u = cont s"
     "tframe s u" "ln u = ln s" "logged u = logged s" "\<forall>j c. has_buf s j c \<longrightarrow> has_buf u j c"
    using txn_open [OF x b n(2), where F = ?F] by blast
  have h': "home (lstart u) b" "ln u < LOGSIZE - 1" using u(6,7) h n by (simp_all add: tframe_def)
  obtain t where t: "seqK [set_data i (f (cont s b)), log_write i, brelse i] u = Ok () t" "txn L t" "cont t = (cont u)(b := f (cont s b))" "tframe u t"
     "ln t \<le> ln u + 1" "logged t = insert b (logged u)" "\<forall>j c. has_buf u j c \<longrightarrow> c \<noteq> b \<longrightarrow> has_buf t j c"
    using txn_finish [OF u(3) b u(4) f h'(2,1)] by blast
  have "?F i u = Ok () t" using t(1) u(2) by (simp add: get_buf_def bindK_def getK_def del: seqK.simps)
  moreover have "has_buf t j c" if "has_buf s j c" for j c
  proof -
    have "c \<in> L" using has_buf_in [OF x that] .
    then show ?thesis using that u(9) t(7) b by blast
  qed
  ultimately show ?thesis using u t tframe_trans [OF u(6) t(4)] by auto
qed

section \<open>The bitmap\<close>

definition free_block :: "'z fs_state_scheme \<Rightarrow> u32 \<Rightarrow> bool" where
  "free_block s b \<longleftrightarrow> b < sb_size (sblk s) \<and> bit_free (cont s (BBLOCK b (sblk s))) (unat b mod BPB)"

text \<open>
  The geometry the superblock describes: the bitmap blocks are no log blocks, and a free block
  is neither a log block nor a bitmap block.
\<close>

definition bm_geom :: "'z fs_state_scheme \<Rightarrow> bool" where
  "bm_geom s \<longleftrightarrow> sb_size (sblk s) < 0x80000000 \<and> (\<forall>b. b < sb_size (sblk s) \<longrightarrow> home (lstart s) (BBLOCK b (sblk s)))
     \<and> (\<forall>b. free_block s b \<longrightarrow> home (lstart s) b \<and> (\<forall>c. c < sb_size (sblk s) \<longrightarrow> BBLOCK c (sblk s) \<noteq> b))"

lemma tframe_fs: "tframe s t \<Longrightarrow> sblk t = sblk s" "tframe s t \<Longrightarrow> itab t = itab s"
  by (cases s; cases t; simp add: tframe_def)+

lemma bzero_ok:
  fixes s :: "'z fs_state_scheme"
  assumes x: "txn L s" and b: "b \<notin> L" and n: "ln s < LOGSIZE - 1" "nat (ln s) + card L < NBUF" and h: "home (lstart s) b"
  shows "\<exists>t. bzero ROOTDEV b s = Ok () t
     \<and> txn L t \<and> cont t = (cont s)(b := replicate BSIZE 0) \<and> tframe s t
     \<and> ln t \<le> ln s + 1 \<and> logged t = insert b (logged s) \<and> (\<forall>j c. has_buf s j c \<longrightarrow> has_buf t j c)"
proof -
  have "bzero ROOTDEV b s = bindK (bread ROOTDEV b) (\<lambda>bp. bindK (get_buf bp) (\<lambda>k. seqK [set_data bp ((\<lambda>_. replicate BSIZE 0) (data k)), log_write bp, brelse bp])) s"
    by (simp add: bzero_def bindK_def get_buf_def getK_def)
  then show ?thesis using txn_modify [OF x b n h, of "\<lambda>_. replicate BSIZE 0"] by simp
qed

lemma free_bit_Some:
  "free_bit d lim = Some bi \<longleftrightarrow> bi < min BPB lim \<and> bit_free d bi \<and> (\<forall>j<bi. \<not> bit_free d j)"
  by (auto simp: free_bit_def find_Some_iff)

lemma free_bit_None: "free_bit d lim = None \<longleftrightarrow> (\<forall>j<min BPB lim. \<not> bit_free d j)"
  by (auto simp: free_bit_def find_None_iff)

lemma of_nat32: "n < 2 ^ 32 \<Longrightarrow> unat (of_nat n :: u32) = n"
  by (simp add: unat_of_nat)

lemma bitmap_index:
  assumes "k * BPB + bi < 2 ^ 32" "bi < BPB"
  shows "unat (of_nat (BPB * k + bi) :: u32) = BPB * k + bi" "BBLOCK (of_nat (BPB * k + bi)) sb = BBLOCK (of_nat (BPB * k)) sb"
    "unat (of_nat (BPB * k + bi) :: u32) mod BPB = bi"
proof -
  show u: "unat (of_nat (BPB * k + bi) :: u32) = BPB * k + bi" using assms(1) by (intro of_nat32) (simp add: mult.commute)
  show "unat (of_nat (BPB * k + bi) :: u32) mod BPB = bi" unfolding u using assms(2) by simp
  have v: "unat (of_nat (BPB * k) :: u32) = BPB * k" using assms(1) by (intro of_nat32) (simp add: mult.commute)
  have "(of_nat (BPB * k + bi) :: u32) div BPB = of_nat (BPB * k) div BPB"
    using assms(2) by (simp only: word_unat_eq_iff unat_div_distrib u v) simp
  then show "BBLOCK (of_nat (BPB * k + bi)) sb = BBLOCK (of_nat (BPB * k)) sb" by (simp add: BBLOCK_def)
qed

lemma set_bit_len [simp]: "length (set_bit_in d bi) = length d" "length (clear_bit_in d bi) = length d"
  by (simp_all add: set_bit_in_def clear_bit_in_def)

lemma txn_peek:
  fixes s :: "'z log_state_scheme"
  assumes x: "txn L s" and b: "b \<notin> L" and n: "nat (ln s) + card L < NBUF"
  shows "\<exists>i t u. bindK (bread ROOTDEV b) F s = F i t \<and> data (bufs t i) = cont s b \<and> brelse i t = Ok () u \<and> txn (insert b L) t
     \<and> txn L u \<and> cont u = cont s \<and> tframe s u \<and> ln u = ln s \<and> logged u = logged s \<and> (\<forall>j c. has_buf s j c \<longrightarrow> has_buf u j c)"
proof -
  obtain i t where t: "bindK (bread ROOTDEV b) F s = F i t" "data (bufs t i) = cont s b" "txn (insert b L) t" "has_buf t i b" "cont t = cont s"
     "tframe s t" "ln t = ln s" "logged t = logged s" "\<forall>j c. has_buf s j c \<longrightarrow> has_buf t j c"
    using txn_open [OF x b n, where F = F] by blast
  obtain u where u: "brelse i t = Ok () u" "txn (insert b L - {b}) u" "cont u = cont t" "tframe t u" "ln u = ln t" "logged u = logged t"
     "\<forall>j c. has_buf t j c \<longrightarrow> c \<noteq> b \<longrightarrow> has_buf u j c"
    using txn_brelse [OF t(3,4)] by blast
  have "insert b L - {b} = L" using b by blast
  moreover have "has_buf u j c" if "has_buf s j c" for j c
  proof -
    have "c \<in> L" using has_buf_in [OF x that] .
    then show ?thesis using that t(9) u(7) b by blast
  qed
  ultimately show ?thesis using t u tframe_trans [OF t(6) u(4)] by (intro exI [of _ i] exI [of _ t] exI [of _ u]) auto
qed

lemma seqK_after: "seqK ms s = Ok () t \<Longrightarrow> seqK (ms @ ns) s = seqK ns t"
  by (induction ms arbitrary: s) (auto simp: K_defs split: outcome.splits)

lemma balloc_scan_none:
  fixes s :: "'z fs_state_scheme"
  assumes x: "txn L s" and b: "BBLOCK (of_nat b) sb \<notin> L" and n: "nat (ln s) + card L < NBUF"
    and f: "free_bit (cont s (BBLOCK (of_nat b) sb)) (unat (sb_size sb) - b) = None"
  shows "\<exists>u. balloc_scan ROOTDEV sb b s = Ok None u \<and> txn L u \<and> cont u = cont s \<and> tframe s u \<and> ln u = ln s \<and> logged u = logged s \<and> (\<forall>j c. has_buf s j c \<longrightarrow> has_buf u j c)"
proof -
  let ?F = "\<lambda>bp. bindK (get_buf bp) (\<lambda>k.
       case free_bit (data k) (unat (sb_size sb) - b) of
         Some bi \<Rightarrow>
           thenK (seqK [set_data bp (set_bit_in (data k) bi), log_write bp, brelse bp, bzero ROOTDEV (of_nat (b + bi))])
                 (returnK (Some (of_nat (b + bi))))
       | None \<Rightarrow> thenK (brelse bp) (returnK None)) :: ('z fs_state_scheme, u32 option) K"
  obtain i t u where u: "bindK (bread ROOTDEV (BBLOCK (of_nat b) sb)) ?F s = ?F i t" "data (bufs t i) = cont s (BBLOCK (of_nat b) sb)"
     "brelse i t = Ok () u" "txn L u" "cont u = cont s" "tframe s u" "ln u = ln s" "logged u = logged s" "\<forall>j c. has_buf s j c \<longrightarrow> has_buf u j c"
    using txn_peek [OF x b n, where F = ?F] by blast
  have "?F i t = Ok None u" using f u(2,3) by (simp add: get_buf_def bindK_def thenK_def getK_def returnK_def)
  then show ?thesis using u by (auto simp: balloc_scan_def)
qed

lemma balloc_scan_some:
  fixes s :: "'z fs_state_scheme"
  assumes x: "txn L s" and b: "BBLOCK (of_nat b) sb \<notin> L" "of_nat (b + bi) \<notin> L" and n: "ln s + 1 < LOGSIZE - 1" "nat (ln s) + 1 + card L < NBUF"
    and f: "free_bit (cont s (BBLOCK (of_nat b) sb)) (unat (sb_size sb) - b) = Some bi"
    and h: "home (lstart s) (BBLOCK (of_nat b) sb)" "home (lstart s) (of_nat (b + bi))"
  shows "\<exists>u. balloc_scan ROOTDEV sb b s = Ok (Some (of_nat (b + bi))) u \<and> txn L u \<and> tframe s u \<and> ln u \<le> ln s + 2
     \<and> logged u = insert (of_nat (b + bi)) (insert (BBLOCK (of_nat b) sb) (logged s))
     \<and> cont u = (cont s)(BBLOCK (of_nat b) sb := set_bit_in (cont s (BBLOCK (of_nat b) sb)) bi, of_nat (b + bi) := replicate BSIZE 0)
     \<and> (\<forall>j c. has_buf s j c \<longrightarrow> has_buf u j c)"
proof -
  let ?bb = "BBLOCK (of_nat b) sb"
  let ?F = "\<lambda>bp. bindK (get_buf bp) (\<lambda>k.
       case free_bit (data k) (unat (sb_size sb) - b) of
         Some bi \<Rightarrow>
           thenK (seqK [set_data bp (set_bit_in (data k) bi), log_write bp, brelse bp, bzero ROOTDEV (of_nat (b + bi))])
                 (returnK (Some (of_nat (b + bi))))
       | None \<Rightarrow> thenK (brelse bp) (returnK None)) :: ('z fs_state_scheme, u32 option) K"
  have len: "length (set_bit_in (cont s ?bb) bi) = BSIZE" using txn_len [OF x] by simp
  obtain i v where v: "bindK (bread ROOTDEV ?bb) ?F s = ?F i v" "data (bufs v i) = cont s ?bb" "txn (insert ?bb L) v" "has_buf v i ?bb" "cont v = cont s"
     "tframe s v" "ln v = ln s" "\<forall>j c. has_buf s j c \<longrightarrow> has_buf v j c" "logged v = logged s"
    using txn_open [OF x b(1), where F = ?F] n(2) by auto
  have hv: "home (lstart v) ?bb" "ln v < LOGSIZE - 1" using v(6,7) h(1) n by (simp_all add: tframe_def)
  obtain t where t: "seqK [set_data i (set_bit_in (cont s ?bb) bi), log_write i, brelse i] v = Ok () t" "txn L t"
     "cont t = (cont v)(?bb := set_bit_in (cont s ?bb) bi)" "tframe v t" "ln t \<le> ln v + 1" "\<forall>j c. has_buf v j c \<longrightarrow> c \<noteq> ?bb \<longrightarrow> has_buf t j c" "logged t = insert ?bb (logged v)"
    using txn_finish [OF v(3) b(1) v(4) len hv(2,1)] by blast
  have own: "has_buf t j c" if "has_buf s j c" for j c
  proof -
    have "c \<in> L" using has_buf_in [OF x that] .
    then show ?thesis using that v(8) t(6) b(1) by blast
  qed
  have m: "ln t < LOGSIZE - 1" "nat (ln t) + card L < NBUF" "home (lstart t) (of_nat (b + bi))" using v(6,7) t(4,5) n h(2) by (auto simp: tframe_def)
  obtain u where u: "bzero ROOTDEV (of_nat (b + bi)) t = Ok () u" "txn L u" "cont u = (cont t)(of_nat (b + bi) := replicate BSIZE 0)" "tframe t u"
     "ln u \<le> ln t + 1" "\<forall>j c. has_buf t j c \<longrightarrow> has_buf u j c" "logged u = insert (of_nat (b + bi)) (logged t)"
    using bzero_ok [OF t(2) b(2) m(1-3)] by blast
  have "seqK [set_data i (set_bit_in (cont s ?bb) bi), log_write i, brelse i, bzero ROOTDEV (of_nat (b + bi))] v = Ok () u"
    using seqK_after [OF t(1), of "[bzero ROOTDEV (of_nat (b + bi))]"] u(1) by (simp add: K_defs)
  then have "?F i v = Ok (Some (of_nat (b + bi))) u"
    using f v(2) by (simp add: get_buf_def bindK_def thenK_def getK_def returnK_def del: seqK.simps)
  then have "balloc_scan ROOTDEV sb b s = Ok (Some (of_nat (b + bi))) u" using v(1) by (simp add: balloc_scan_def)
  moreover have "tframe s u" using tframe_trans [OF v(6) tframe_trans [OF t(4) u(4)]] .
  ultimately show ?thesis using t u v own by auto
qed

definition bm_scan :: "'z fs_state_scheme \<Rightarrow> nat \<Rightarrow> nat option" where
  "bm_scan s k = free_bit (cont s (BBLOCK (of_nat (BPB * k)) (sblk s))) (unat (sb_size (sblk s)) - BPB * k)"

lemma balloc_loop:
  fixes s :: "'z fs_state_scheme"
  assumes x: "txn L s" and n: "ln s + 1 < LOGSIZE - 1" "nat (ln s) + 1 + card L < NBUF"
    and g: "\<And>k. k \<in> set ks \<Longrightarrow> BBLOCK (of_nat (BPB * k)) (sblk s) \<notin> L \<and> home (lstart s) (BBLOCK (of_nat (BPB * k)) (sblk s))"
      "\<And>k bi. k \<in> set ks \<Longrightarrow> bm_scan s k = Some bi \<Longrightarrow> of_nat (BPB * k + bi) \<notin> L \<and> home (lstart s) (of_nat (BPB * k + bi))"
  shows "\<exists>u. txn L u \<and> tframe s u \<and> (\<forall>j c. has_buf s j c \<longrightarrow> has_buf u j c) \<and>
     (case find (\<lambda>k. bm_scan s k \<noteq> None) ks of
        None \<Rightarrow> loopK (map (\<lambda>k. BPB * k) ks) (balloc_scan ROOTDEV (sblk s)) s = Ok None u \<and> cont u = cont s \<and> ln u = ln s \<and> logged u = logged s
      | Some k \<Rightarrow> \<exists>bi. bm_scan s k = Some bi \<and> loopK (map (\<lambda>k. BPB * k) ks) (balloc_scan ROOTDEV (sblk s)) s = Ok (Some (of_nat (BPB * k + bi))) u
          \<and> ln u \<le> ln s + 2 \<and> logged u = insert (of_nat (BPB * k + bi)) (insert (BBLOCK (of_nat (BPB * k)) (sblk s)) (logged s)) \<and> cont u = (cont s)(BBLOCK (of_nat (BPB * k)) (sblk s) := set_bit_in (cont s (BBLOCK (of_nat (BPB * k)) (sblk s))) bi,
               of_nat (BPB * k + bi) := replicate BSIZE 0))"
  using x n g
proof (induction ks arbitrary: s)
  case Nil
  then show ?case by (auto simp: K_defs)
next
  case (Cons k ks)
  let ?sb = "sblk s" and ?bb = "BBLOCK (of_nat (BPB * k)) (sblk s)"
  have gk: "?bb \<notin> L" "home (lstart s) ?bb" using Cons.prems(4) by simp_all
  show ?case
  proof (cases "bm_scan s k")
    case None
    obtain v where v: "balloc_scan ROOTDEV ?sb (BPB * k) s = Ok None v" "txn L v" "cont v = cont s" "tframe s v" "ln v = ln s"
       "\<forall>j c. has_buf s j c \<longrightarrow> has_buf v j c" "logged v = logged s"
      using balloc_scan_none [OF Cons.prems(1) gk(1)] Cons.prems(3) None by (auto simp: bm_scan_def)
    have sv: "sblk v = ?sb" "lstart v = lstart s" using v(4) tframe_fs by (auto simp: tframe_def)
    have sc: "bm_scan v = bm_scan s" by (simp add: bm_scan_def v(3) sv fun_eq_iff)
    have f: "find (\<lambda>k. bm_scan s k \<noteq> None) (k # ks) = find (\<lambda>k. bm_scan v k \<noteq> None) ks" using None by (simp add: sc)
    have run: "loopK (map (\<lambda>k. BPB * k) (k # ks)) (balloc_scan ROOTDEV ?sb) s = loopK (map (\<lambda>k. BPB * k) ks) (balloc_scan ROOTDEV (sblk v)) v"
      using v(1) by (simp add: bindK_def sv)
    have "\<exists>u. txn L u \<and> tframe v u \<and> (\<forall>j c. has_buf v j c \<longrightarrow> has_buf u j c) \<and>
     (case find (\<lambda>k. bm_scan v k \<noteq> None) ks of
        None \<Rightarrow> loopK (map (\<lambda>k. BPB * k) ks) (balloc_scan ROOTDEV (sblk v)) v = Ok None u \<and> cont u = cont v \<and> ln u = ln v \<and> logged u = logged v
      | Some k \<Rightarrow> \<exists>bi. bm_scan v k = Some bi \<and> loopK (map (\<lambda>k. BPB * k) ks) (balloc_scan ROOTDEV (sblk v)) v = Ok (Some (of_nat (BPB * k + bi))) u
          \<and> ln u \<le> ln v + 2 \<and> logged u = insert (of_nat (BPB * k + bi)) (insert (BBLOCK (of_nat (BPB * k)) (sblk v)) (logged v)) \<and> cont u = (cont v)(BBLOCK (of_nat (BPB * k)) (sblk v) := set_bit_in (cont v (BBLOCK (of_nat (BPB * k)) (sblk v))) bi,
               of_nat (BPB * k + bi) := replicate BSIZE 0))"
      by (rule Cons.IH [OF v(2)]) (use Cons.prems v(5) sv sc in auto)
    then obtain u where u: "txn L u" "tframe v u" "\<forall>j c. has_buf v j c \<longrightarrow> has_buf u j c"
     "case find (\<lambda>k. bm_scan v k \<noteq> None) ks of
        None \<Rightarrow> loopK (map (\<lambda>k. BPB * k) ks) (balloc_scan ROOTDEV (sblk v)) v = Ok None u \<and> cont u = cont v \<and> ln u = ln v \<and> logged u = logged v
      | Some k \<Rightarrow> \<exists>bi. bm_scan v k = Some bi \<and> loopK (map (\<lambda>k. BPB * k) ks) (balloc_scan ROOTDEV (sblk v)) v = Ok (Some (of_nat (BPB * k + bi))) u
          \<and> ln u \<le> ln v + 2 \<and> logged u = insert (of_nat (BPB * k + bi)) (insert (BBLOCK (of_nat (BPB * k)) (sblk v)) (logged v)) \<and> cont u = (cont v)(BBLOCK (of_nat (BPB * k)) (sblk v) := set_bit_in (cont v (BBLOCK (of_nat (BPB * k)) (sblk v))) bi,
               of_nat (BPB * k + bi) := replicate BSIZE 0)" by blast
    show ?thesis unfolding f run using u v(3,5,6,7) sv sc tframe_trans [OF v(4) u(2)]
      by (intro exI [of _ u]) (auto split: option.splits)
  next
    case (Some bi)
    have gb: "of_nat (BPB * k + bi) \<notin> L" "home (lstart s) (of_nat (BPB * k + bi))" using Cons.prems(5) [OF _ Some] by simp_all
    obtain u where u: "balloc_scan ROOTDEV ?sb (BPB * k) s = Ok (Some (of_nat (BPB * k + bi))) u" "txn L u" "tframe s u" "ln u \<le> ln s + 2"
       "cont u = (cont s)(?bb := set_bit_in (cont s ?bb) bi, of_nat (BPB * k + bi) := replicate BSIZE 0)" "\<forall>j c. has_buf s j c \<longrightarrow> has_buf u j c"
       "logged u = insert (of_nat (BPB * k + bi)) (insert ?bb (logged s))"
      using balloc_scan_some [OF Cons.prems(1) gk(1) gb(1) Cons.prems(2,3) _ gk(2) gb(2)] Some unfolding bm_scan_def by blast
    then show ?thesis using Some by (intro exI [of _ u]) (simp add: bindK_def returnK_def)
  qed
qed

text \<open>The scan in terms of block numbers.\<close>

lemma bm_rounds: "k \<in> set [0..<(n + (BPB - 1)) div BPB] \<longleftrightarrow> BPB * k < (n :: nat)"
proof -
  have "k < (n + (BPB - 1)) div BPB \<longleftrightarrow> Suc k * BPB \<le> n + (BPB - 1)"
    by (subst Suc_le_eq [symmetric]) (rule less_eq_div_iff_mult_less_eq, simp)
  then show ?thesis by auto
qed

lemma find_upt_least: "find P [0..<n] = Some k \<Longrightarrow> P j \<Longrightarrow> j < n \<Longrightarrow> k \<le> (j :: nat)"
  by (rule ccontr) (auto simp: find_Some_iff)

lemma bm_scan_Some:
  assumes "sb_size (sblk s) < 0x80000000" "bm_scan s k = Some bi"
  shows "free_block s (of_nat (BPB * k + bi))" "unat (of_nat (BPB * k + bi) :: u32) = BPB * k + bi" "bi < BPB"
    "BBLOCK (of_nat (BPB * k + bi)) (sblk s) = BBLOCK (of_nat (BPB * k)) (sblk s)"
proof -
  have b: "bi < BPB" "BPB * k + bi < unat (sb_size (sblk s))" "bit_free (cont s (BBLOCK (of_nat (BPB * k)) (sblk s))) bi"
    using assms(2) by (auto simp: bm_scan_def free_bit_Some)
  have lt: "k * BPB + bi < 2 ^ 32" using b(2) assms(1) by (simp add: word_less_nat_alt mult.commute)
  note i = bitmap_index [OF lt b(1)]
  show "free_block s (of_nat (BPB * k + bi))" "unat (of_nat (BPB * k + bi) :: u32) = BPB * k + bi" "bi < BPB"
    "BBLOCK (of_nat (BPB * k + bi)) (sblk s) = BBLOCK (of_nat (BPB * k)) (sblk s)"
    using b i(1,3) i(2) [of "sblk s"] by (simp_all add: free_block_def word_less_nat_alt)
qed

lemma bm_scan_free:
  assumes z: "sb_size (sblk s) < 0x80000000" and f: "free_block s c"
  shows "\<exists>bi. bm_scan s (unat c div BPB) = Some bi \<and> bi \<le> unat c mod BPB" "BPB * (unat c div BPB) < unat (sb_size (sblk s))"
proof -
  let ?k = "unat c div BPB" and ?bi = "unat c mod BPB"
  have c: "BPB * ?k + ?bi = unat c" by simp
  have lt: "unat c < unat (sb_size (sblk s))" using f by (simp add: free_block_def word_less_nat_alt)
  have "unat (sb_size (sblk s)) < 2 ^ 31" using z by (simp add: word_less_nat_alt)
  then have "?k * BPB + ?bi < 2 ^ 32" using lt by simp
  note i = bitmap_index(2) [OF this, unfolded c]
  have "(of_nat (unat c) :: u32) = c" by simp
  then have bb: "BBLOCK c (sblk s) = BBLOCK (of_nat (BPB * ?k)) (sblk s)" using i [of "sblk s"] by simp
  have free: "bit_free (cont s (BBLOCK (of_nat (BPB * ?k)) (sblk s))) ?bi" using f bb by (simp add: free_block_def)
  have "?bi < unat (sb_size (sblk s)) - BPB * ?k" using lt c by linarith
  then have m: "?bi < min BPB (unat (sb_size (sblk s)) - BPB * ?k)" by simp
  then have "bm_scan s ?k \<noteq> None" unfolding bm_scan_def free_bit_None using free by blast
  then obtain bi where bi: "bm_scan s ?k = Some bi" by blast
  then have "\<forall>j<bi. \<not> bit_free (cont s (BBLOCK (of_nat (BPB * ?k)) (sblk s))) j" by (simp add: bm_scan_def free_bit_Some)
  then have "bi \<le> ?bi" using free not_le by blast
  then show "\<exists>bi. bm_scan s ?k = Some bi \<and> bi \<le> ?bi" using bi by blast
  show "BPB * ?k < unat (sb_size (sblk s))" using lt c by linarith
qed

lemma balloc_ok:
  fixes s :: "'z fs_state_scheme"
  assumes x: "txn L s" and g: "bm_geom s" and n: "ln s + 1 < LOGSIZE - 1" "nat (ln s) + 1 + card L < NBUF"
    and L: "\<And>b. b < sb_size (sblk s) \<Longrightarrow> BBLOCK b (sblk s) \<notin> L" "\<And>b. free_block s b \<Longrightarrow> b \<notin> L"
    and c: "free_block s c"
  shows "\<exists>b u. balloc ROOTDEV s = Ok b u \<and> free_block s b \<and> b \<le> c \<and> txn L u \<and> tframe s u \<and> ln u \<le> ln s + 2
     \<and> logged u = insert b (insert (BBLOCK b (sblk s)) (logged s))
     \<and> cont u = (cont s)(BBLOCK b (sblk s) := set_bit_in (cont s (BBLOCK b (sblk s))) (unat b mod BPB), b := replicate BSIZE 0)
     \<and> (\<forall>j c. has_buf s j c \<longrightarrow> has_buf u j c)"
proof -
  let ?sz = "unat (sb_size (sblk s))"
  let ?ks = "[0..<(?sz + (BPB - 1)) div BPB]"
  have z: "sb_size (sblk s) < 0x80000000" using g by (simp add: bm_geom_def)
  have zn: "?sz < 2 ^ 31" using z by (simp add: word_less_nat_alt)
  have bb: "of_nat (BPB * k) < sb_size (sblk s)" if "k \<in> set ?ks" for k
    using that zn unfolding bm_rounds by (simp add: word_less_nat_alt of_nat32 del: of_nat_mult)
  have g1: "BBLOCK (of_nat (BPB * k)) (sblk s) \<notin> L \<and> home (lstart s) (BBLOCK (of_nat (BPB * k)) (sblk s))" if "k \<in> set ?ks" for k
    using L(1) bb [OF that] g by (simp add: bm_geom_def)
  have g2: "of_nat (BPB * k + bi) \<notin> L \<and> home (lstart s) (of_nat (BPB * k + bi))" if "bm_scan s k = Some bi" for k bi
    using L(2) bm_scan_Some(1) [OF z that] g by (auto simp: bm_geom_def)
  obtain bi0 where k0: "bm_scan s (unat c div BPB) = Some bi0" "bi0 \<le> unat c mod BPB" "unat c div BPB \<in> set ?ks"
    using bm_scan_free [OF z c] unfolding bm_rounds by auto
  then have "find (\<lambda>k. bm_scan s k \<noteq> None) ?ks \<noteq> None" unfolding find_None_iff by blast
  then obtain k where k: "find (\<lambda>k. bm_scan s k \<noteq> None) ?ks = Some k" by blast
  obtain u bi where u: "txn L u" "tframe s u" "\<forall>j c. has_buf s j c \<longrightarrow> has_buf u j c" "bm_scan s k = Some bi"
     "loopK (map (\<lambda>k. BPB * k) ?ks) (balloc_scan ROOTDEV (sblk s)) s = Ok (Some (of_nat (BPB * k + bi))) u" "ln u \<le> ln s + 2"
     "logged u = insert (of_nat (BPB * k + bi)) (insert (BBLOCK (of_nat (BPB * k)) (sblk s)) (logged s))"
     "cont u = (cont s)(BBLOCK (of_nat (BPB * k)) (sblk s) := set_bit_in (cont s (BBLOCK (of_nat (BPB * k)) (sblk s))) bi,
               of_nat (BPB * k + bi) := replicate BSIZE 0)"
    using balloc_loop [of L s ?ks, OF x n g1 g2] unfolding k option.case by blast
  note b = bm_scan_Some [OF z u(4)]
  let ?b = "of_nat (BPB * k + bi) :: u32"
  have run: "balloc ROOTDEV s = Ok ?b u" using u(5) by (simp add: balloc_def bindK_def getK_def returnK_def)
  have "k \<le> unat c div BPB"
    using find_upt_least [OF k, of "unat c div BPB"] k0(1,3) by simp
  moreover have "bi \<le> unat c mod BPB" if "k = unat c div BPB" using that k0(1,2) u(4) by simp
  moreover have c: "BPB * (unat c div BPB) + unat c mod BPB = unat c" by simp
  ultimately have "BPB * k + bi \<le> unat c" using b(3) by (cases "k = unat c div BPB") (linarith, linarith)
  then have "?b \<le> c" using b(2) by (simp add: word_le_nat_alt del: of_nat_add of_nat_mult)
  moreover have "unat ?b mod BPB = bi" unfolding b(2) using b(3) by simp
  ultimately show ?thesis using run b(1,4) u by (intro exI [of _ ?b] exI [of _ u]) (simp del: of_nat_add of_nat_mult)
qed

lemma balloc_full:
  fixes s :: "'z fs_state_scheme"
  assumes x: "txn L s" and g: "bm_geom s" and n: "ln s + 1 < LOGSIZE - 1" "nat (ln s) + 1 + card L < NBUF"
    and L: "\<And>b. b < sb_size (sblk s) \<Longrightarrow> BBLOCK b (sblk s) \<notin> L" and c: "\<And>c. \<not> free_block s c"
  shows "balloc ROOTDEV s = Panic ''balloc: out of blocks''"
proof -
  let ?sz = "unat (sb_size (sblk s))"
  let ?ks = "[0..<(?sz + (BPB - 1)) div BPB]"
  have z: "sb_size (sblk s) < 0x80000000" using g by (simp add: bm_geom_def)
  have zn: "?sz < 2 ^ 31" using z by (simp add: word_less_nat_alt)
  have bb: "of_nat (BPB * k) < sb_size (sblk s)" if "k \<in> set ?ks" for k
    using that zn unfolding bm_rounds by (simp add: word_less_nat_alt of_nat32 del: of_nat_mult)
  have g1: "BBLOCK (of_nat (BPB * k)) (sblk s) \<notin> L \<and> home (lstart s) (BBLOCK (of_nat (BPB * k)) (sblk s))" if "k \<in> set ?ks" for k
    using L bb [OF that] g by (simp add: bm_geom_def)
  have none: "bm_scan s k = None" for k using bm_scan_Some(1) [OF z] c by fastforce
  then have k: "find (\<lambda>k. bm_scan s k \<noteq> None) ?ks = None" unfolding find_None_iff by simp
  have g2: "of_nat (BPB * k + bi) \<notin> L \<and> home (lstart s) (of_nat (BPB * k + bi))" if "bm_scan s k = Some bi" for k bi
    using that none by simp
  obtain u where "loopK (map (\<lambda>k. BPB * k) ?ks) (balloc_scan ROOTDEV (sblk s)) s = Ok None u"
    using balloc_loop [of L s ?ks, OF x n g1 g2] unfolding k option.case by blast
  then show ?thesis by (simp add: balloc_def bindK_def getK_def panicK_def)
qed

lemma and_bit: "(w :: u8) AND push_bit n 1 = 0 \<longleftrightarrow> \<not> bit w n"
  by (simp add: and_exp_eq_0_iff_not_bit)

lemma bit_set: "n < 8 \<Longrightarrow> bit ((w :: u8) OR push_bit k 1) n \<longleftrightarrow> bit w n \<or> n = k"
  by (simp add: bit_or_iff bit_exp_iff)

lemma bit_clear: "n < 8 \<Longrightarrow> bit ((w :: u8) AND NOT (push_bit k 1)) n \<longleftrightarrow> bit w n \<and> n \<noteq> k"
  by (simp add: bit_and_iff bit_not_iff bit_exp_iff)

lemma bit_free_set:
  assumes "bi div 8 < length d"
  shows "bit_free (set_bit_in d bi) j \<longleftrightarrow> bit_free d j \<and> j \<noteq> bi" "bit_free (clear_bit_in d bi) j \<longleftrightarrow> bit_free d j \<or> j = bi"
proof -
  have e: "j = bi \<longleftrightarrow> j div 8 = bi div 8 \<and> j mod 8 = bi mod 8" by (metis div_mult_mod_eq)
  show "bit_free (set_bit_in d bi) j \<longleftrightarrow> bit_free d j \<and> j \<noteq> bi"
    using assms unfolding bit_free_def set_bit_in_def e and_bit
    by (cases "j div 8 = bi div 8") (simp_all add: bit_set del: push_bit_of_1)
  show "bit_free (clear_bit_in d bi) j \<longleftrightarrow> bit_free d j \<or> j = bi"
    using assms unfolding bit_free_def clear_bit_in_def e and_bit
    by (cases "j div 8 = bi div 8") (simp_all add: bit_clear del: push_bit_of_1)
qed

lemma clear_set_bit: 
  assumes a: "bi div 8 < length d" "bit_free d bi" shows "clear_bit_in (set_bit_in d bi) bi = d"
proof -
  let ?w = "d ! (bi div 8)"
  have "(?w OR push_bit (bi mod 8) 1) AND NOT (push_bit (bi mod 8) 1) = ?w"
  proof (rule bit_word_eqI)
    fix n assume "n < LENGTH(8)"
    moreover have "\<not> bit ?w (bi mod 8)" using a(2) unfolding bit_free_def and_bit by simp
    ultimately show "bit ((?w OR push_bit (bi mod 8) 1) AND NOT (push_bit (bi mod 8) 1)) n \<longleftrightarrow> bit ?w n"
      by (auto simp: bit_set bit_clear simp del: push_bit_of_1)
  qed
  then show ?thesis using a(1) by (simp add: clear_bit_in_def set_bit_in_def del: push_bit_of_1)
qed

lemma bitmap_pos:
  assumes "BBLOCK b sb = BBLOCK c sb" "unat b mod BPB = unat c mod BPB" shows "b = c"
proof -
  have "b div BPB = c div BPB" using assms(1) by (simp add: BBLOCK_def)
  then have "unat b div BPB = unat c div BPB" using unat_div [of b BPB] unat_div [of c BPB] by simp
  then have "unat b = unat c" using assms(2) by (metis div_mult_mod_eq)
  then show ?thesis by (simp add: word_unat_eq_iff)
qed

lemma bitmap_byte: "unat b mod BPB div 8 < BSIZE"
  by simp

lemma free_after_set:
  assumes x: "txn L s" "txn L' u" and sb: "sblk u = sblk s" and b: "b < sb_size (sblk s)"
    and c: "\<And>c. c < sb_size (sblk s) \<Longrightarrow> cont u (BBLOCK c (sblk s)) = (if BBLOCK c (sblk s) = BBLOCK b (sblk s) then f (cont s (BBLOCK b (sblk s))) (unat b mod BPB) else cont s (BBLOCK c (sblk s)))"
  shows "f = set_bit_in \<Longrightarrow> free_block u c \<longleftrightarrow> free_block s c \<and> c \<noteq> b" "f = clear_bit_in \<Longrightarrow> free_block u c \<longleftrightarrow> free_block s c \<or> c = b"
proof -
  note len = txn_len [OF x(1), of "BBLOCK b (sblk s)"]
  have p: "unat b mod BPB div 8 < length (cont s (BBLOCK b (sblk s)))" unfolding len by (rule bitmap_byte)
  show "free_block u c \<longleftrightarrow> free_block s c \<and> c \<noteq> b" if "f = set_bit_in"
    using c [of c] b bit_free_set(1) [OF p, of "unat c mod BPB"] bitmap_pos [of c "sblk s" b] that
    by (auto simp: free_block_def sb split: if_splits)
  show "free_block u c \<longleftrightarrow> free_block s c \<or> c = b" if "f = clear_bit_in"
    using c [of c] b bit_free_set(2) [OF p, of "unat c mod BPB"] bitmap_pos [of c "sblk s" b] that
    by (auto simp: free_block_def sb split: if_splits)
qed

lemma bfree_ok:
  fixes s :: "'z fs_state_scheme"
  assumes x: "txn L s" and g: "bm_geom s" and n: "ln s < LOGSIZE - 1" "nat (ln s) + card L < NBUF"
    and b: "b < sb_size (sblk s)" "BBLOCK b (sblk s) \<notin> L" "\<not> free_block s b"
  shows "\<exists>u. bfree ROOTDEV b s = Ok () u \<and> txn L u \<and> tframe s u \<and> ln u \<le> ln s + 1 \<and> logged u = insert (BBLOCK b (sblk s)) (logged s)
     \<and> cont u = (cont s)(BBLOCK b (sblk s) := clear_bit_in (cont s (BBLOCK b (sblk s))) (unat b mod BPB))
     \<and> (\<forall>j c. has_buf s j c \<longrightarrow> has_buf u j c)"
proof -
  let ?bb = "BBLOCK b (sblk s)" and ?bi = "unat b mod BPB"
  let ?F = "\<lambda>bp. bindK (get_buf bp) (\<lambda>k. seqK [panic_if (bit_free (data k) ?bi) ''freeing free block'',
           set_data bp (clear_bit_in (data k) ?bi), log_write bp, brelse bp]) :: ('z fs_state_scheme, unit) K"
  have h: "home (lstart s) ?bb" using g b(1) by (simp add: bm_geom_def)
  have used: "\<not> bit_free (cont s ?bb) ?bi" using b(1,3) by (simp add: free_block_def)
  obtain i v where v: "bindK (bread ROOTDEV ?bb) ?F s = ?F i v" "data (bufs v i) = cont s ?bb" "txn (insert ?bb L) v" "has_buf v i ?bb" "cont v = cont s"
     "tframe s v" "ln v = ln s" "\<forall>j c. has_buf s j c \<longrightarrow> has_buf v j c" "logged v = logged s"
    using txn_open [OF x b(2) n(2), where F = ?F] by auto
  have hv: "home (lstart v) ?bb" "ln v < LOGSIZE - 1" using v(6,7) h n by (simp_all add: tframe_def)
  have len: "length (clear_bit_in (cont s ?bb) ?bi) = BSIZE" using txn_len [OF x] by simp
  obtain u where u: "seqK [set_data i (clear_bit_in (cont s ?bb) ?bi), log_write i, brelse i] v = Ok () u" "txn L u"
     "cont u = (cont v)(?bb := clear_bit_in (cont s ?bb) ?bi)" "tframe v u" "ln u \<le> ln v + 1" "\<forall>j c. has_buf v j c \<longrightarrow> c \<noteq> ?bb \<longrightarrow> has_buf u j c" "logged u = insert ?bb (logged v)"
    using txn_finish [OF v(3) b(2) v(4) len hv(2,1)] by blast
  have "?F i v = seqK [set_data i (clear_bit_in (cont s ?bb) ?bi), log_write i, brelse i] v"
    using v(2) used by (simp add: get_buf_def bindK_def getK_def) (simp add: thenK_def bindK_def panic_if_def returnK_def)
  then have "bfree ROOTDEV b s = Ok () u"
    unfolding bfree_def bindK_getK Let_def v(1) u(1) .
  moreover have "has_buf u j c" if "has_buf s j c" for j c using has_buf_in [OF x that] that v(8) u(6) b(2) by blast
  ultimately show ?thesis using u v tframe_trans [OF v(6) u(4)] by auto
qed

end
