(* ===== verification/FsAlloc.thy ===== *)
theory FsAlloc
  imports FsTx
begin

text \<open>
  The block allocator of \<^verbatim>\<open>kernel/fs.c\<close> as a set of free blocks: \<open>balloc\<close> takes the least free block
  and clears it, \<open>bfree\<close> puts a block back, and neither touches any block but the bitmap and its own.
\<close>

section \<open>The set of free blocks\<close>

definition free_blocks :: "'z fs_state_scheme \<Rightarrow> u32 set" where
  "free_blocks s = {b. free_block s b}"

definition bitmap_blocks :: "superblock \<Rightarrow> u32 set" where
  "bitmap_blocks sb = (\<lambda>b. BBLOCK b sb) ` {b. b < sb_size sb}"

lemma bitmap_in [simp]: "b < sb_size sb \<Longrightarrow> BBLOCK b sb \<in> bitmap_blocks sb"
  by (simp add: bitmap_blocks_def)

lemma free_in: "b \<in> free_blocks s \<longleftrightarrow> free_block s b"
  by (simp add: free_blocks_def)

lemma free_lt: "b \<in> free_blocks s \<Longrightarrow> b < sb_size (sblk s)"
  by (simp add: free_blocks_def free_block_def)

lemma bm_geom_free: "bm_geom s \<Longrightarrow> b \<in> free_blocks s \<Longrightarrow> b \<notin> bitmap_blocks (sblk s) \<and> home (lstart s) b"
  by (auto simp: bm_geom_def bitmap_blocks_def free_in)

text \<open>The geometry depends on the bitmap only through the set of free blocks.\<close>

lemma bm_geom_step:
  assumes "bm_geom s" "sblk u = sblk s" "lstart u = lstart s"
    and "\<And>b. b \<in> free_blocks u \<Longrightarrow> b \<in> free_blocks s \<or> home (lstart s) b \<and> b \<notin> bitmap_blocks (sblk s)"
  shows "bm_geom u"
  using assms by (fastforce simp: bm_geom_def free_blocks_def bitmap_blocks_def)

lemma least_free:
  assumes "free_blocks s \<noteq> {}" obtains c where "c \<in> free_blocks s" "\<forall>d\<in>free_blocks s. c \<le> d"
  using assms finite [of "free_blocks s"] by (metis Min_in Min_le)

lemma balloc_set:
  fixes s :: "'z fs_state_scheme"
  assumes x: "txn L s" and g: "bm_geom s" and n: "ln s + 1 < LOGSIZE - 1" "nat (ln s) + 1 + card L < NBUF"
    and L: "L \<inter> (bitmap_blocks (sblk s) \<union> free_blocks s) = {}" and c: "free_blocks s \<noteq> {}"
  shows "\<exists>b u. balloc ROOTDEV s = Ok b u \<and> b \<in> free_blocks s \<and> (\<forall>c\<in>free_blocks s. b \<le> c) \<and> txn L u \<and> tframe s u \<and> bm_geom u
     \<and> free_blocks u = free_blocks s - {b} \<and> cont u b = replicate BSIZE 0
     \<and> (\<forall>c. c \<notin> bitmap_blocks (sblk s) \<longrightarrow> c \<noteq> b \<longrightarrow> cont u c = cont s c) \<and> ln u \<le> ln s + 2
     \<and> logged u = insert b (insert (BBLOCK b (sblk s)) (logged s)) \<and> (\<forall>j c. has_buf s j c \<longrightarrow> has_buf u j c)
     \<and> cont u = (cont s)(BBLOCK b (sblk s) := set_bit_in (cont s (BBLOCK b (sblk s))) (unat b mod BPB), b := replicate BSIZE 0)"
proof -
  obtain c where c: "c \<in> free_blocks s" "\<forall>d\<in>free_blocks s. c \<le> d" using least_free [OF assms(6)] by blast
  have L': "BBLOCK b (sblk s) \<notin> L" if "b < sb_size (sblk s)" for b using L bitmap_in [OF that] by blast
  have L2: "b \<notin> L" if "free_block s b" for b using L that by (auto simp: free_in)
  obtain b u where u: "balloc ROOTDEV s = Ok b u" "free_block s b" "b \<le> c" "txn L u" "tframe s u" "ln u \<le> ln s + 2"
     "logged u = insert b (insert (BBLOCK b (sblk s)) (logged s))"
     "cont u = (cont s)(BBLOCK b (sblk s) := set_bit_in (cont s (BBLOCK b (sblk s))) (unat b mod BPB), b := replicate BSIZE 0)"
     "\<forall>j c. has_buf s j c \<longrightarrow> has_buf u j c"
    using balloc_ok [OF x g n L' L2, of c] c(1) by (auto simp: free_in)
  have b: "b \<in> free_blocks s" "b < sb_size (sblk s)" using u(2) by (simp_all add: free_in free_block_def)
  have nb: "BBLOCK c (sblk s) \<noteq> b" if "c < sb_size (sblk s)" for c using bm_geom_free [OF g b(1)] bitmap_in [OF that] by metis
  have sb: "sblk u = sblk s" "lstart u = lstart s" using u(5) tframe_fs by (auto simp: tframe_def)
  have "free_block u c \<longleftrightarrow> free_block s c \<and> c \<noteq> b" for c
    using nb b(2) by (intro free_after_set(1) [OF x u(4) sb(1)]) (auto simp: u(8))
  then have f: "free_blocks u = free_blocks s - {b}" by (auto simp: free_blocks_def)
  have "bm_geom u" by (rule bm_geom_step [OF g sb]) (simp add: f)
  moreover have "b = c" using u(3) c(2) b(1) by force
  moreover have "cont u d = cont s d" if "d \<notin> bitmap_blocks (sblk s)" "d \<noteq> b" for d using that b(2) by (auto simp: u(8))
  moreover have "cont u b = replicate BSIZE 0" by (simp add: u(8))
  ultimately show ?thesis using u b(1) f c(2) by blast
qed

lemma bfree_set:
  fixes s :: "'z fs_state_scheme"
  assumes x: "txn L s" and g: "bm_geom s" and n: "ln s < LOGSIZE - 1" "nat (ln s) + card L < NBUF"
    and L: "L \<inter> bitmap_blocks (sblk s) = {}" and b: "b < sb_size (sblk s)" "b \<notin> free_blocks s" "home (lstart s) b" "b \<notin> bitmap_blocks (sblk s)"
  shows "\<exists>u. bfree ROOTDEV b s = Ok () u \<and> txn L u \<and> tframe s u \<and> bm_geom u \<and> free_blocks u = insert b (free_blocks s)
     \<and> (\<forall>c. c \<notin> bitmap_blocks (sblk s) \<longrightarrow> cont u c = cont s c) \<and> ln u \<le> ln s + 1 \<and> logged u = insert (BBLOCK b (sblk s)) (logged s)
     \<and> (\<forall>j c. has_buf s j c \<longrightarrow> has_buf u j c)
     \<and> cont u = (cont s)(BBLOCK b (sblk s) := clear_bit_in (cont s (BBLOCK b (sblk s))) (unat b mod BPB))"
proof -
  have bb: "BBLOCK b (sblk s) \<notin> L" "\<not> free_block s b" using L bitmap_in [OF b(1)] b(2) by (auto simp: free_in)
  obtain u where u: "bfree ROOTDEV b s = Ok () u" "txn L u" "tframe s u" "ln u \<le> ln s + 1" "logged u = insert (BBLOCK b (sblk s)) (logged s)"
     "cont u = (cont s)(BBLOCK b (sblk s) := clear_bit_in (cont s (BBLOCK b (sblk s))) (unat b mod BPB))" "\<forall>j c. has_buf s j c \<longrightarrow> has_buf u j c"
    using bfree_ok [OF x g n b(1) bb] by blast
  have sb: "sblk u = sblk s" "lstart u = lstart s" using u(3) tframe_fs by (auto simp: tframe_def)
  have "free_block u c \<longleftrightarrow> free_block s c \<or> c = b" for c
    using b(1) by (intro free_after_set(2) [OF x u(2) sb(1)]) (auto simp: u(6))
  then have f: "free_blocks u = insert b (free_blocks s)" by (auto simp: free_blocks_def)
  have "bm_geom u" by (rule bm_geom_step [OF g sb]) (use b(3,4) f in auto)
  moreover have "cont u d = cont s d" if "d \<notin> bitmap_blocks (sblk s)" for d using that b(1) by (auto simp: u(6))
  ultimately show ?thesis using u f by blast
qed

section \<open>A file system\<close>

text \<open>
  The geometry \<^verbatim>\<open>mkfs/mkfs.c\<close> gives its image: 2000 blocks, of which 46 hold the boot block, the
  superblock, the log, the inodes and the bitmap.  One operation is under way.
\<close>

definition demo_sb :: superblock where
  "demo_sb = \<lparr>sb_magic = FSMAGIC, sb_size = 2000, sb_nblocks = 1954, sb_ninodes = 200, sb_nlog = 30, sb_logstart = 2,
     sb_inodestart = 32, sb_bmapstart = 45\<rparr>"

definition demo_bitmap :: bytes where
  "demo_bitmap = replicate 5 255 @ [63] @ replicate 1018 0"

definition demo_disk :: "u32 \<Rightarrow> bytes" where
  "demo_disk b = (if b = 45 then demo_bitmap else replicate BSIZE 0)"

definition demo_fs :: "(u32 \<Rightarrow> bytes) \<Rightarrow> (nat \<Rightarrow> inode) \<Rightarrow> fs_state" where
  "demo_fs d tab = \<lparr>pmem = (\<lambda>_. 0), procs = (\<lambda>_. zero_proc), curproc = Some 0, held = [],
     kend = 0x80021000, freelist = 0, slks = (\<lambda>_. \<lparr>slocked = 0, spid = 0\<rparr>),
     bufs = (\<lambda>_. \<lparr>valid = False, dev = 0, blockno = 0, refcnt = 0, bprev = 0, bnext = 0, data = replicate BSIZE 0\<rparr>),
     dsk = d, wtrace = [], lstart = 2, lsize = 30, outstanding = 1, committing = False, ldev = 1, ln = 0, lblock = replicate LOGSIZE 0,
     sblk = demo_sb, itab = tab\<rparr>"

lemma demo_txn:
  assumes "full_blocks d"
  shows "\<exists>s. binit (demo_fs d tab) = Ok () s \<and> txn {} s \<and> cont s = d \<and> sblk s = demo_sb \<and> itab s = tab \<and> lstart s = 2
     \<and> ln s = 0 \<and> logged s = {}"
proof -
  have "fresh_bufs (demo_fs d tab)" using assms by (simp add: fresh_bufs_def demo_fs_def full_blocks_def)
  from binit_ok [OF this] obtain s where s: "binit (demo_fs d tab) = Ok () s" "fresh_bufs s" "lru_ring (bufs s) (rev [0..<NBUF])"
     "bframe (demo_fs d tab) s" "dsk s = d" by (auto simp: demo_fs_def)
  have q: "quiet s" using s(4) by (simp add: bframe_def quiet_def demo_fs_def)
  note f = fresh_bufs_ok [OF s(2,3) q]
  have lg: "lstart s = 2" "lsize s = 30" "outstanding s = 1" "ldev s = 1" "ln s = 0" "lblock s = replicate LOGSIZE 0"
    using bframe_log [OF s(4)] by (simp_all add: same_log_def demo_fs_def)
  have fs: "sblk s = demo_sb" "itab s = tab" using s(4) by (cases s, simp add: bframe_def demo_fs_def)+
  have "logged s = {}" using lg(5) by (simp add: logged_def)
  then have "txn {} s" using f lg s(5) by (auto simp: txn_def log_geom_def)
  then show ?thesis using s(1,5) f(2) lg fs \<open>logged s = {}\<close> by auto
qed

lemma demo_bitmap_free: "j < 2000 \<Longrightarrow> bit_free demo_bitmap j \<longleftrightarrow> 46 \<le> j"
proof -
  assume j: "j < 2000"
  have m: "bit (255 :: u8) (j mod 8)" using bit_mask_iff [where 'a = u8, of 8 "j mod 8"] by (simp add: mask_numeral)
  have m6: "bit (63 :: u8) (j mod 8) \<longleftrightarrow> j mod 8 < 6" using bit_mask_iff [where 'a = u8, of 6 "j mod 8"] by (simp add: mask_numeral)
  consider "j div 8 < 5" | "j div 8 = 5" | "5 < j div 8" by linarith
  then show ?thesis
  proof cases
    case 1
    then have "j < 40" by simp
    then show ?thesis using m 1 by (simp add: bit_free_def and_bit demo_bitmap_def nth_append del: push_bit_of_1)
  next
    case 2
    then have "46 \<le> j \<longleftrightarrow> \<not> j mod 8 < 6" using div_mult_mod_eq [of j 8] by linarith
    then show ?thesis using m6 2 by (simp add: bit_free_def and_bit demo_bitmap_def nth_append del: push_bit_of_1)
  next
    case 3
    then have "48 \<le> j" by linarith
    then show ?thesis using j 3 by (simp add: bit_free_def and_bit demo_bitmap_def nth_append nth_Cons' del: push_bit_of_1)
  qed
qed

lemma demo_home: "home 2 b \<longleftrightarrow> b < 2 \<or> 32 \<le> b"
proof -
  have "b = lblk 2 k \<longleftrightarrow> unat b = 2 + k" if "k < LOGSIZE" for k
  proof -
    have "lblk 2 k = of_nat (2 + k)" by (simp add: lblk_def)
    then show ?thesis using of_nat32 [of "2 + k"] that by (simp add: word_unat_eq_iff del: of_nat_add)
  qed
  then have "home 2 b \<longleftrightarrow> (\<forall>k<LOGSIZE. unat b \<noteq> 2 + k)" by (simp add: home_def)
  also have "\<dots> \<longleftrightarrow> unat b < 2 \<or> 32 \<le> unat b" by (auto dest: spec [of _ "unat b - 2"])
  finally show ?thesis by (simp add: word_less_nat_alt word_le_nat_alt)
qed

lemma demo_geom:
  fixes s :: "'z fs_state_scheme"
  assumes "sblk s = demo_sb" "lstart s = 2" "cont s 45 = demo_bitmap"
  shows "free_blocks s = {46..<2000}" "bitmap_blocks (sblk s) = {45}" "bm_geom s"
proof -
  have bb: "BBLOCK b demo_sb = 45" if "b < 2000" for b
  proof -
    have "unat (b div 8192) = 0" using that by (simp add: unat_div word_less_nat_alt)
    then show ?thesis by (simp add: BBLOCK_def demo_sb_def unat_eq_0)
  qed
  have sz: "sb_size demo_sb = 2000" by (simp add: demo_sb_def)
  have "free_block s b \<longleftrightarrow> b < 2000 \<and> 46 \<le> b" for b
    using assms bb demo_bitmap_free [of "unat b"] sz by (auto simp: free_block_def word_less_nat_alt word_le_nat_alt)
  then show f: "free_blocks s = {46..<2000}" by (intro set_eqI) (simp add: free_blocks_def conj_commute)
  show bm: "bitmap_blocks (sblk s) = {45}" using bb sz assms(1) by (auto simp: bitmap_blocks_def intro: image_eqI [of _ _ 0])
  show "bm_geom s" unfolding bm_geom_def assms sz
  proof (intro conjI allI impI)
    fix b assume b: "b < (2000 :: u32)"
    show "home 2 (BBLOCK b demo_sb)" using bb [OF b] by (simp add: demo_home)
  next
    fix b assume "free_block s b"
    then have "46 \<le> b" "b < 2000" using f free_in by (metis atLeastLessThan_iff)+
    then show "home 2 b" "c < 2000 \<Longrightarrow> BBLOCK c demo_sb \<noteq> b" for c using bb [of c] by (auto simp: demo_home word_le_nat_alt)
  qed simp
qed

definition zero_inode :: inode where
  "zero_inode = \<lparr>i_dev = 0, i_num = 0, i_ref = 0, i_valid = False, i_type = 0, i_major = 0, i_minor = 0, i_nlink = 0, i_size = 0,
     i_addrs = replicate 13 0\<rparr>"

lemma demo_start:
  "\<exists>s. binit (demo_fs demo_disk tab) = Ok () s \<and> txn {} s \<and> cont s = demo_disk \<and> sblk s = demo_sb \<and> itab s = tab \<and> lstart s = 2
     \<and> ln s = 0 \<and> logged s = {} \<and> free_blocks s = {46..<2000} \<and> bitmap_blocks (sblk s) = {45} \<and> bm_geom s"
proof -
  have "full_blocks demo_disk" by (simp add: full_blocks_def demo_disk_def demo_bitmap_def)
  from demo_txn [OF this, of tab] obtain s where s: "binit (demo_fs demo_disk tab) = Ok () s" "txn {} s" "cont s = demo_disk" "sblk s = demo_sb"
     "itab s = tab" "lstart s = 2" "ln s = 0" "logged s = {}" by blast
  have "cont s 45 = demo_bitmap" by (simp add: s(3) demo_disk_def)
  from demo_geom [OF s(4,6) this] s show ?thesis by blast
qed

section \<open>Properties\<close>

text \<open>C20. \<open>balloc\<close> implements taking an element of the set of free blocks: it returns the least free
  block, filled with zeros, marks exactly that block used, and changes no other block but the
  bitmap.\<close>

theorem balloc_takes_least:
  fixes s :: "'z fs_state_scheme"
  assumes "txn L s" "bm_geom s" "ln s + 1 < LOGSIZE - 1" "nat (ln s) + 1 + card L < NBUF"
    and "L \<inter> (bitmap_blocks (sblk s) \<union> free_blocks s) = {}" "free_blocks s \<noteq> {}"
  shows "\<exists>u. balloc ROOTDEV s = Ok (Min (free_blocks s)) u \<and> free_blocks u = free_blocks s - {Min (free_blocks s)} \<and> txn L u \<and> bm_geom u
     \<and> cont u (Min (free_blocks s)) = replicate BSIZE 0
     \<and> (\<forall>c. c \<notin> bitmap_blocks (sblk s) \<longrightarrow> c \<noteq> Min (free_blocks s) \<longrightarrow> cont u c = cont s c)"
proof -
  obtain b u where u: "balloc ROOTDEV s = Ok b u" "b \<in> free_blocks s" "\<forall>c\<in>free_blocks s. b \<le> c" "txn L u" "bm_geom u"
     "free_blocks u = free_blocks s - {b}" "cont u b = replicate BSIZE 0"
     "\<forall>c. c \<notin> bitmap_blocks (sblk s) \<longrightarrow> c \<noteq> b \<longrightarrow> cont u c = cont s c"
    using balloc_set [OF assms] by blast
  moreover have "Min (free_blocks s) = b" using u(2,3) by (intro Min_eqI) auto
  ultimately show ?thesis by metis
qed

theorem balloc_takes_least_witness:
  "\<exists>s u. binit (demo_fs demo_disk (\<lambda>_. zero_inode)) = Ok () s \<and> balloc ROOTDEV s = Ok 46 u \<and> free_blocks u = {46..<2000} - {46}"
proof -
  obtain s where s: "binit (demo_fs demo_disk (\<lambda>_. zero_inode)) = Ok () s" "txn {} s" "ln s = 0" and g: "free_blocks s = {46..<2000}" "bm_geom s"
    using demo_start by blast
  have f: "46 \<in> free_blocks s" "Min (free_blocks s) = 46"
    unfolding g(1) by (simp, rule Min_eqI) auto
  then show ?thesis using balloc_takes_least [OF s(2) g(2)] s(1,3) g(1) by auto
qed

text \<open>C21. A block that \<open>balloc\<close> took goes back with \<open>bfree\<close>: the free blocks are the ones there were
  before, and every block but the one freed, the bitmap included, has its old contents.\<close>

theorem balloc_bfree:
  fixes s :: "'z fs_state_scheme"
  assumes x: "txn L s" and g: "bm_geom s" and n: "ln s + 2 < LOGSIZE - 1" "nat (ln s) + 2 + card L < NBUF"
    and L: "L \<inter> (bitmap_blocks (sblk s) \<union> free_blocks s) = {}" and c: "free_blocks s \<noteq> {}"
  shows "\<exists>b t u. balloc ROOTDEV s = Ok b t \<and> bfree ROOTDEV b t = Ok () u \<and> free_blocks u = free_blocks s \<and> txn L u
     \<and> (\<forall>c. c \<noteq> b \<longrightarrow> cont u c = cont s c)"
proof -
  have n': "ln s + 1 < LOGSIZE - 1" "nat (ln s) + 1 + card L < NBUF" using n by simp_all
  obtain b t where t: "balloc ROOTDEV s = Ok b t" "b \<in> free_blocks s" "txn L t" "tframe s t" "bm_geom t"
     "free_blocks t = free_blocks s - {b}" "ln t \<le> ln s + 2"
     "cont t = (cont s)(BBLOCK b (sblk s) := set_bit_in (cont s (BBLOCK b (sblk s))) (unat b mod BPB), b := replicate BSIZE 0)"
    using balloc_set [OF x g n' L c] by blast
  have fs: "sblk t = sblk s" "lstart t = lstart s" "0 \<le> ln s" using t(4) x tframe_fs by (auto simp: tframe_def txn_def log_geom_def)
  note b = free_lt [OF t(2)] and hb = bm_geom_free [OF g t(2)]
  have bb: "BBLOCK b (sblk s) \<noteq> b" using hb bitmap_in [OF b] by metis
  have free: "bit_free (cont s (BBLOCK b (sblk s))) (unat b mod BPB)" using t(2) by (simp add: free_in free_block_def)
  have byte: "unat b mod BPB div 8 < length (cont s (BBLOCK b (sblk s)))" unfolding txn_len [OF x] by (rule bitmap_byte)
  have disj: "L \<inter> bitmap_blocks (sblk s) = {}" using L by blast
  have pre: "ln t < LOGSIZE - 1" "nat (ln t) + card L < NBUF" using t(7) n fs(3) by auto
  obtain u where u: "bfree ROOTDEV b t = Ok () u" "txn L u" "free_blocks u = insert b (free_blocks t)"
     "cont u = (cont t)(BBLOCK b (sblk s) := clear_bit_in (cont t (BBLOCK b (sblk s))) (unat b mod BPB))"
    using bfree_set [OF t(3,5) pre _ _ _ _, of b] disj b hb t(6) unfolding fs by blast
  have "cont u c = cont s c" if "c \<noteq> b" for c using that bb clear_set_bit [OF byte free] by (simp add: u(4) t(8))
  then show ?thesis using t u by (intro exI [of _ b] exI [of _ t] exI [of _ u]) auto
qed

theorem balloc_bfree_witness:
  "\<exists>s b t u. binit (demo_fs demo_disk (\<lambda>_. zero_inode)) = Ok () s \<and> balloc ROOTDEV s = Ok b t \<and> bfree ROOTDEV b t = Ok () u
     \<and> free_blocks u = {46..<2000}"
proof -
  obtain s where s: "binit (demo_fs demo_disk (\<lambda>_. zero_inode)) = Ok () s" "txn {} s" "ln s = 0" and g: "free_blocks s = {46..<2000}" "bm_geom s"
    using demo_start by blast
  have "46 \<in> free_blocks s" unfolding g(1) by simp
  then have "free_blocks s \<noteq> {}" by blast
  then obtain b t u where "balloc ROOTDEV s = Ok b t" "bfree ROOTDEV b t = Ok () u" "free_blocks u = free_blocks s"
    using balloc_bfree [OF s(2) g(2)] s(3) by auto
  then show ?thesis using s(1) g(1) by blast
qed

end
