(* ===== verification/FsFile.thy ===== *)
theory FsFile
  imports FsAlloc
begin

text \<open>
  The contents of a file.  \<open>baddr\<close> is the address the direct and indirect pointers give a block of the
  file, zero for a hole; \<open>fbyte\<close> is the byte at an offset, zero in a hole.  \<open>bmap\<close> fills a hole
  without changing what the file holds, \<open>readi\<close> returns the bytes of the range it is given and
  \<open>writei\<close> replaces them.
\<close>

section \<open>The blocks of a file\<close>

definition ind_addr :: "'z fs_state_scheme \<Rightarrow> nat \<Rightarrow> u32" where
  "ind_addr s ip = i_addrs (itab s ip) ! NDIRECT"

definition baddr :: "'z fs_state_scheme \<Rightarrow> nat \<Rightarrow> nat \<Rightarrow> u32" where
  "baddr s ip k =
     (if k < NDIRECT then i_addrs (itab s ip) ! k
      else if ind_addr s ip = 0 then 0 else get32 (cont s (ind_addr s ip)) (4 * (k - NDIRECT)))"

definition fblock :: "'z fs_state_scheme \<Rightarrow> nat \<Rightarrow> nat \<Rightarrow> bytes" where
  "fblock s ip k = (if baddr s ip k = 0 then replicate BSIZE 0 else cont s (baddr s ip k))"

definition fbyte :: "'z fs_state_scheme \<Rightarrow> nat \<Rightarrow> nat \<Rightarrow> u8" where
  "fbyte s ip p = fblock s ip (p div BSIZE) ! (p mod BSIZE)"

text \<open>The pointers of a file: those to its blocks, and at \<open>MAXFILE\<close> the one to the indirect block.\<close>

definition fptr :: "'z fs_state_scheme \<Rightarrow> nat \<Rightarrow> nat \<Rightarrow> u32" where
  "fptr s ip i = (if i = MAXFILE then ind_addr s ip else baddr s ip i)"

definition file_blocks :: "'z fs_state_scheme \<Rightarrow> nat \<Rightarrow> u32 set" where
  "file_blocks s ip = fptr s ip ` {..MAXFILE} - {0}"

text \<open>No two pointers of the file name the same block, and the blocks they name are allocated.\<close>

definition file_ok :: "'z fs_state_scheme \<Rightarrow> nat \<Rightarrow> bool" where
  "file_ok s ip \<longleftrightarrow> i_dev (itab s ip) = ROOTDEV \<and> length (i_addrs (itab s ip)) = 13 \<and> 0 \<notin> free_blocks s
     \<and> (\<forall>i\<le>MAXFILE. \<forall>j\<le>MAXFILE. fptr s ip i = fptr s ip j \<longrightarrow> fptr s ip i \<noteq> 0 \<longrightarrow> i = j)
     \<and> (\<forall>a\<in>file_blocks s ip. a < sb_size (sblk s) \<and> a \<notin> free_blocks s \<and> home (lstart s) a \<and> a \<notin> bitmap_blocks (sblk s))"

lemma fptr_baddr: "k < MAXFILE \<Longrightarrow> fptr s ip k = baddr s ip k" "fptr s ip MAXFILE = ind_addr s ip"
  by (simp_all add: fptr_def)

lemma in_file: "i \<le> MAXFILE \<Longrightarrow> fptr s ip i \<noteq> 0 \<Longrightarrow> fptr s ip i \<in> file_blocks s ip"
  by (auto simp: file_blocks_def)

lemma file_okD:
  assumes "file_ok s ip"
  shows "i_dev (itab s ip) = ROOTDEV" "length (i_addrs (itab s ip)) = 13" "0 \<notin> free_blocks s"
    "i \<le> MAXFILE \<Longrightarrow> j \<le> MAXFILE \<Longrightarrow> fptr s ip i = fptr s ip j \<Longrightarrow> fptr s ip i \<noteq> 0 \<Longrightarrow> i = j"
    "a \<in> file_blocks s ip \<Longrightarrow> a < sb_size (sblk s) \<and> a \<notin> free_blocks s \<and> home (lstart s) a \<and> a \<notin> bitmap_blocks (sblk s)"
  using assms unfolding file_ok_def by blast+

text \<open>A free block becomes the block of an empty pointer: the file holds what it held.\<close>

lemma alloc_slot:
  assumes f: "file_ok s ip" and a: "a \<in> free_blocks s" and g: "bm_geom s"
    and u: "free_blocks u = free_blocks s - {a}" "sblk u = sblk s" "lstart u = lstart s" "i_dev (itab u ip) = ROOTDEV" "length (i_addrs (itab u ip)) = 13"
    and sl: "\<And>j. j \<le> MAXFILE \<Longrightarrow> fptr u ip j = (if j = i then a else fptr s ip j)" and i: "i \<le> MAXFILE" "fptr s ip i = 0"
    and c: "cont u a = replicate BSIZE 0" "\<And>c. c \<notin> bitmap_blocks (sblk s) \<Longrightarrow> c \<noteq> a \<Longrightarrow> c \<noteq> ind_addr s ip \<Longrightarrow> cont u c = cont s c"
  shows "file_ok u ip" "file_blocks u ip = insert a (file_blocks s ip)" "k < MAXFILE \<Longrightarrow> fblock u ip k = fblock s ip k"
proof -
  note fd = file_okD [OF f]
  have a0: "a \<noteq> 0" "a \<notin> file_blocks s ip" "a < sb_size (sblk s)" using a fd(3,5) free_lt [OF a] by auto
  have na: "fptr s ip j \<noteq> a" if "j \<le> MAXFILE" for j using in_file [OF that, of s ip] a0 by metis
  show fb: "file_blocks u ip = insert a (file_blocks s ip)"
  proof -
    have "fptr u ip ` {..MAXFILE} = insert a (fptr s ip ` ({..MAXFILE} - {i}))" using sl i(1) by (auto simp: image_iff)
    then show ?thesis using i(2) a0(1) by (auto simp: file_blocks_def)
  qed
  have "j = j'" if "j \<le> MAXFILE" "j' \<le> MAXFILE" "fptr u ip j = fptr u ip j'" "fptr u ip j \<noteq> 0" for j j'
    using that fd(4) [of j j'] na [of j] na [of j'] by (auto simp: sl split: if_splits)
  then show "file_ok u ip" unfolding file_ok_def fb u using bm_geom_free [OF g a] a0 fd(3,5) u(4,5) by auto
  show "fblock u ip k = fblock s ip k" if k: "k < MAXFILE"
  proof (cases "k = i")
    case True
    then have "baddr u ip k = a" "baddr s ip k = 0" using sl [of k] k i(2) by (simp_all add: fptr_baddr)
    then show ?thesis using c(1) a0(1) by (simp add: fblock_def)
  next
    case False
    then have e: "baddr u ip k = baddr s ip k" using sl [of k] k by (simp add: fptr_baddr)
    have "cont u (baddr s ip k) = cont s (baddr s ip k)" if nz: "baddr s ip k \<noteq> 0"
    proof (rule c(2))
      have s: "fptr s ip k \<noteq> 0" "fptr s ip k = baddr s ip k" using nz k by (simp_all add: fptr_baddr)
      then show "baddr s ip k \<notin> bitmap_blocks (sblk s)" "baddr s ip k \<noteq> a" using fd(5) [OF in_file [of k s ip]] na [of k] k by auto
      show "baddr s ip k \<noteq> ind_addr s ip" using fd(4) [of k MAXFILE] s k by (auto simp: fptr_baddr)
    qed
    then show ?thesis by (simp add: fblock_def e)
  qed
qed

section \<open>Steps on a file\<close>

text \<open>What the operations on the contents of an inode leave alone, apart from the inode itself.\<close>

definition fframe :: "'z fs_state_scheme \<Rightarrow> 'z fs_state_scheme \<Rightarrow> bool" where
  "fframe s u \<longleftrightarrow> tframe (s\<lparr>itab := itab u\<rparr>) u"

definition fstep :: "nat \<Rightarrow> 'z fs_state_scheme \<Rightarrow> 'z fs_state_scheme \<Rightarrow> bool" where
  "fstep ip s u \<longleftrightarrow> txn {} u \<and> bm_geom u \<and> file_ok u ip \<and> fframe s u
     \<and> itab u = (itab s)(ip := (itab s ip)\<lparr>i_addrs := i_addrs (itab u ip)\<rparr>)
     \<and> free_blocks u \<subseteq> free_blocks s \<and> file_blocks u ip \<subseteq> file_blocks s ip \<union> free_blocks s
     \<and> (\<forall>c. c \<notin> bitmap_blocks (sblk s) \<union> free_blocks s \<union> file_blocks s ip \<longrightarrow> cont u c = cont s c)
     \<and> (\<forall>k<MAXFILE. baddr s ip k \<noteq> 0 \<longrightarrow> baddr u ip k = baddr s ip k)"

lemma itab_bio: "same_bio s (s\<lparr>itab := f\<rparr>)"
  by (simp add: same_bio_def)

lemmas itab_view = same_bio_view [OF itab_bio]

lemma itab_upd [simp]:
  "cont (s\<lparr>itab := f\<rparr>) = cont s" "has_buf (s\<lparr>itab := f\<rparr>) i b = has_buf s i b" "logged (s\<lparr>itab := f\<rparr>) = logged s"
  "txn L (s\<lparr>itab := f\<rparr>) = txn L s" "free_blocks (s\<lparr>itab := f\<rparr>) = free_blocks s" "bm_geom (s\<lparr>itab := f\<rparr>) = bm_geom s"
  by (simp_all add: itab_view has_buf_def logged_def txn_def log_geom_def free_blocks_def free_block_def bm_geom_def)

lemma tframe_itab: "tframe s u \<Longrightarrow> tframe (s\<lparr>itab := f\<rparr>) (u\<lparr>itab := f\<rparr>)"
  by (cases s; cases u) (auto simp: tframe_def mypid_def logged_def split: option.splits)

lemma tframe_fframe: "tframe s u \<Longrightarrow> fframe s u"
  using tframe_fs(2) [of s u] by (simp add: fframe_def)

lemma fframe_refl [simp]: "fframe s s"
  by (simp add: fframe_def)

lemma fframe_itab [simp]: "fframe s (s\<lparr>itab := f\<rparr>)"
  by (simp add: fframe_def)

lemma fframe_trans: assumes "fframe s t" "fframe t u" shows "fframe s u"
proof -
  have "tframe (s\<lparr>itab := itab u\<rparr>) (t\<lparr>itab := itab u\<rparr>)" using tframe_itab [of "s\<lparr>itab := itab t\<rparr>" t "itab u"] assms(1) by (simp add: fframe_def)
  then show ?thesis using tframe_trans assms(2) by (simp add: fframe_def) blast
qed

lemma fframeD:
  assumes "fframe s u"
  shows "held u = held s" "curproc u = curproc s" "pmem u = pmem s" "sblk u = sblk s" "lstart u = lstart s" "dsk u = dsk s"
    "outstanding u = outstanding s" "logged s \<subseteq> logged u" "ln s \<le> ln u" "slks u (SlInode i) = slks s (SlInode i)"
  using assms tframe_fs(1) [of "s\<lparr>itab := itab u\<rparr>" u] by (auto simp: fframe_def tframe_def)

lemma fstepD:
  assumes "fstep ip s u"
  shows "txn {} u" "bm_geom u" "file_ok u ip" "fframe s u" "itab u = (itab s)(ip := (itab s ip)\<lparr>i_addrs := i_addrs (itab u ip)\<rparr>)"
    "free_blocks u \<subseteq> free_blocks s" "file_blocks u ip \<subseteq> file_blocks s ip \<union> free_blocks s"
    "c \<notin> bitmap_blocks (sblk s) \<union> free_blocks s \<union> file_blocks s ip \<Longrightarrow> cont u c = cont s c"
    "k < MAXFILE \<Longrightarrow> baddr s ip k \<noteq> 0 \<Longrightarrow> baddr u ip k = baddr s ip k"
  using assms unfolding fstep_def by blast+

lemma fstep_refl: "txn {} s \<Longrightarrow> bm_geom s \<Longrightarrow> file_ok s ip \<Longrightarrow> fstep ip s s"
  by (simp add: fstep_def)

lemma fstep_trans:
  assumes "fstep ip s t" "fstep ip t u" shows "fstep ip s u"
proof -
  note a = fstepD [OF assms(1)] and b = fstepD [OF assms(2)]
  have sb: "sblk t = sblk s" using fframeD(4) [OF a(4)] .
  have "itab u = (itab s)(ip := (itab s ip)\<lparr>i_addrs := i_addrs (itab u ip)\<rparr>)"
    by (subst b(5), subst a(5), subst (2) a(5)) simp
  moreover have "cont u c = cont s c" if "c \<notin> bitmap_blocks (sblk s) \<union> free_blocks s \<union> file_blocks s ip" for c
    using that a(6,7) a(8) [of c] b(8) [of c] sb by auto
  moreover have "baddr u ip k = baddr s ip k" if "k < MAXFILE" "baddr s ip k \<noteq> 0" for k using a(9) [OF that] b(9) [OF that(1)] that(2) by simp
  ultimately show ?thesis unfolding fstep_def using a b fframe_trans [OF a(4) b(4)] by blast
qed

section \<open>Allocating the blocks of a file\<close>

lemma get32_zeros: "get32 (replicate n 0) off = 0"
proof -
  have "le_nat (replicate k 0) = 0" for k by (induction k) simp_all
  then show ?thesis by (simp add: get32_def get_le_def)
qed

lemma ind_cont:
  assumes "file_ok s ip" "a \<in> free_blocks s" "\<forall>c. c \<notin> bitmap_blocks (sblk s) \<longrightarrow> c \<noteq> a \<longrightarrow> cont u c = cont s c" "ind_addr s ip \<noteq> 0"
  shows "cont u (ind_addr s ip) = cont s (ind_addr s ip)"
proof -
  have "ind_addr s ip \<in> file_blocks s ip" using in_file [of MAXFILE s ip] assms(4) by (simp add: fptr_baddr)
  from file_okD(5) [OF assms(1) this] assms(2,3) show ?thesis by auto
qed

lemma addr_alloc_slots:
  assumes f: "file_ok s ip" and a: "a \<in> free_blocks s" and i: "i \<le> NDIRECT" "i_addrs (itab s ip) ! i = 0"
    and t: "itab u ip = (itab s ip)\<lparr>i_addrs := (i_addrs (itab s ip))[i := a]\<rparr>" "cont u a = replicate BSIZE 0"
      "\<forall>c. c \<notin> bitmap_blocks (sblk s) \<longrightarrow> c \<noteq> a \<longrightarrow> cont u c = cont s c" and j: "j \<le> MAXFILE"
  defines "n \<equiv> if i = NDIRECT then MAXFILE else i"
  shows "fptr u ip j = (if j = n then a else fptr s ip j)" "fptr s ip n = 0"
proof -
  have len: "length (i_addrs (itab s ip)) = 13" by (rule file_okD(2) [OF f])
  show "fptr s ip n = 0" using i by (auto simp: n_def fptr_def ind_addr_def baddr_def)
  have ad: "i_addrs (itab u ip) ! k = (if k = i then a else i_addrs (itab s ip) ! k)" if "k \<le> NDIRECT" for k
    using that len i(1) by (auto simp: t(1) nth_list_update)
  show "fptr u ip j = (if j = n then a else fptr s ip j)"
  proof (cases "i = NDIRECT")
    case True
    then have "ind_addr u ip = a" "ind_addr s ip = 0" using ad [of NDIRECT] i by (simp_all add: ind_addr_def)
    then show ?thesis using True ad [of j] t(2) by (auto simp: fptr_def baddr_def n_def get32_zeros)
  next
    case False
    then have "ind_addr u ip = ind_addr s ip" using ad [of NDIRECT] by (simp add: ind_addr_def)
    then show ?thesis using False i(1) ad [of j] ind_cont [OF f a t(3)] by (auto simp: fptr_def baddr_def n_def)
  qed
qed

lemma addr_or_alloc_ok:
  fixes s :: "'z fs_state_scheme"
  assumes x: "txn {} s" and g: "bm_geom s" and f: "file_ok s ip" and n: "ln s + 1 < LOGSIZE - 1" and c: "free_blocks s \<noteq> {}" and i: "i \<le> NDIRECT"
  shows "\<exists>a u. addr_or_alloc ip i s = Ok a u \<and> fstep ip s u \<and> i_addrs (itab u ip) ! i = a \<and> a \<noteq> 0 \<and> ln u \<le> ln s + 2
     \<and> (\<forall>k<MAXFILE. fblock u ip k = fblock s ip k) \<and> card (free_blocks s) \<le> card (free_blocks u) + 1
     \<and> logged u \<subseteq> logged s \<union> bitmap_blocks (sblk s) \<union> {a} \<and> (i_addrs (itab s ip) ! i = 0 \<longrightarrow> a \<in> logged u)
     \<and> (\<forall>j. j \<noteq> i \<longrightarrow> i_addrs (itab u ip) ! j = i_addrs (itab s ip) ! j) \<and> (i_addrs (itab s ip) ! i \<noteq> 0 \<longrightarrow> u = s)
     \<and> (\<forall>j<MAXFILE. i = NDIRECT \<or> j \<noteq> i \<longrightarrow> baddr u ip j = baddr s ip j)"
proof (cases "i_addrs (itab s ip) ! i = 0")
  case False
  then show ?thesis using fstep_refl [OF x g f]
    by (intro exI [of _ "i_addrs (itab s ip) ! i"] exI [of _ s]) (auto simp: addr_or_alloc_def get_inode_def run_simps returnK_def)
next
  case True
  have n2: "nat (ln s) + 1 + card ({} :: u32 set) < NBUF" using n by simp
  obtain a t where t: "balloc ROOTDEV s = Ok a t" "a \<in> free_blocks s" "txn {} t" "tframe s t" "bm_geom t" "free_blocks t = free_blocks s - {a}"
     "cont t a = replicate BSIZE 0" "\<forall>c. c \<notin> bitmap_blocks (sblk s) \<longrightarrow> c \<noteq> a \<longrightarrow> cont t c = cont s c" "ln t \<le> ln s + 2"
     "logged t = insert a (insert (BBLOCK a (sblk s)) (logged s))"
    using balloc_set [OF x g n n2 _ c] by (auto simp: inf_commute)
  note fd = file_okD [OF f] and fs = tframe_fs [OF t(4)]
  define u where "u = t\<lparr>itab := (itab s)(ip := (itab s ip)\<lparr>i_addrs := (i_addrs (itab s ip))[i := a]\<rparr>)\<rparr>"
  have run: "addr_or_alloc ip i s = Ok a u"
    using True t(1) fd(1) by (simp add: addr_or_alloc_def get_inode_def set_addr_def upd_inode_def K_defs u_def fs)
  have ut: "itab u ip = (itab s ip)\<lparr>i_addrs := (i_addrs (itab s ip))[i := a]\<rparr>" "cont u = cont t" "free_blocks u = free_blocks s - {a}"
     "sblk u = sblk s" "lstart u = lstart s" "txn {} u" "bm_geom u" "logged u = logged t" "ln u = ln t"
    using t(3-6) fs by (simp_all add: u_def tframe_def)
  let ?n = "if i = NDIRECT then MAXFILE else i"
  have sl: "fptr u ip j = (if j = ?n then a else fptr s ip j)" if "j \<le> MAXFILE" for j
    using addr_alloc_slots(1) [OF f t(2) i True ut(1) _ _ that] t(7,8) by (simp add: ut(2))
  have s0: "fptr s ip ?n = 0"
    using addr_alloc_slots(2) [OF f t(2) i True ut(1), of 0] t(7,8) by (simp add: ut(2))
  have "?n \<le> MAXFILE" "i_dev (itab u ip) = ROOTDEV" "length (i_addrs (itab u ip)) = 13" using i fd(1,2) ut(1) by simp_all
  note al = alloc_slot [OF f t(2) g ut(3-5) this(2,3) sl this(1) s0]
  have ok: "file_ok u ip" "file_blocks u ip = insert a (file_blocks s ip)" "\<And>k. k < MAXFILE \<Longrightarrow> fblock u ip k = fblock s ip k"
    using al t(7,8) by (simp_all add: ut(2))
  have a: "a \<noteq> 0" "BBLOCK a (sblk s) \<in> bitmap_blocks (sblk s)" using t(2) fd(3) free_lt [OF t(2)] by auto
  have "baddr u ip k = baddr s ip k" if "k < MAXFILE" "baddr s ip k \<noteq> 0" for k using sl [of k] s0 that by (auto simp: fptr_baddr split: if_splits)
  moreover have "fframe s u" by (rule fframe_trans [OF tframe_fframe [OF t(4)]]) (simp add: u_def)
  moreover have "itab u = (itab s)(ip := (itab s ip)\<lparr>i_addrs := i_addrs (itab u ip)\<rparr>)" by (simp add: u_def)
  ultimately have "fstep ip s u" unfolding fstep_def using ut ok t(2,8) by auto
  moreover have "i_addrs (itab u ip) ! i = a" "\<forall>j. j \<noteq> i \<longrightarrow> i_addrs (itab u ip) ! j = i_addrs (itab s ip) ! j" using ut(1) fd(2) i by simp_all
  moreover have "card (free_blocks s) \<le> card (free_blocks u) + 1" using t(2) by (simp add: ut(3) card_Diff_singleton)
  moreover have "baddr u ip j = baddr s ip j" if "j < MAXFILE" "i = NDIRECT \<or> j \<noteq> i" for j using sl [of j] that by (auto simp: fptr_baddr)
  ultimately show ?thesis using run ok(3) a t(9,10) ut(8,9) True by (intro exI [of _ a] exI [of _ u]) auto
qed

lemma tframe_eq:
  assumes "tframe s u" shows "sblk u = sblk s" "itab u = itab s" "lstart u = lstart s"
  using assms tframe_fs [OF assms] by (simp_all add: tframe_def)

lemma fstep_same:
  assumes "txn {} u" "tframe s u" "cont u = cont s" "bm_geom s" "file_ok s ip"
  shows "fstep ip s u" "baddr u ip = baddr s ip" "fblock u ip = fblock s ip" "free_blocks u = free_blocks s"
proof -
  have fs: "sblk u = sblk s" "itab u = itab s" "lstart u = lstart s" by (rule tframe_eq [OF assms(2)])+
  have fr: "free_block u = free_block s" by (simp add: fun_eq_iff free_block_def fs assms(3))
  show b: "baddr u ip = baddr s ip" "fblock u ip = fblock s ip" "free_blocks u = free_blocks s"
    by (simp_all add: fun_eq_iff baddr_def fblock_def ind_addr_def fs assms(3) free_blocks_def fr)
  have sl: "fptr u ip = fptr s ip" by (simp add: fun_eq_iff fptr_def b ind_addr_def fs)
  have "file_ok u ip" using assms(5) by (simp add: file_ok_def fs b(3) file_blocks_def sl)
  then show "fstep ip s u" unfolding fstep_def using assms b tframe_fframe [OF assms(2)]
    by (simp add: fs fr bm_geom_def file_blocks_def sl)
qed

lemma put_entry_slots:
  assumes f: "file_ok s ip" and i: "ind_addr s ip \<noteq> 0" and k: "NDIRECT \<le> k" "k < MAXFILE" and len: "length (cont s (ind_addr s ip)) = BSIZE"
    and u: "itab u = itab s" "cont u (ind_addr s ip) = put32 (cont s (ind_addr s ip)) (4 * (k - NDIRECT)) a" and j: "j \<le> MAXFILE"
  shows "fptr u ip j = (if j = k then a else fptr s ip j)"
proof -
  have "ind_addr u ip = ind_addr s ip" by (simp add: ind_addr_def u)
  moreover have "get32 (put32 (cont s (ind_addr s ip)) (4 * (k - NDIRECT)) a) (4 * (j - NDIRECT)) = (if j = k then a else get32 (cont s (ind_addr s ip)) (4 * (j - NDIRECT)))"
    if "NDIRECT \<le> j"
  proof (cases "j = k")
    case False
    then have "4 * (j - NDIRECT) + 4 \<le> 4 * (k - NDIRECT) \<or> 4 * (k - NDIRECT) + 4 \<le> 4 * (j - NDIRECT)" using k(1) that by linarith
    then show ?thesis using False get32_put32_other [of "4 * (k - NDIRECT)" "cont s (ind_addr s ip)"] len k by simp
  qed (use k len in simp)
  ultimately show ?thesis using i k j by (auto simp: fptr_def baddr_def u)
qed

text \<open>The part of \<open>bmap\<close> that reads an entry of the indirect block, and fills it when it is empty.\<close>

definition bmap_entry :: "nat \<Rightarrow> nat \<Rightarrow> ('z fs_state_scheme, u32) K" where
  "bmap_entry n bp = bindK (get_buf bp) (\<lambda>b. if get32 (data b) n \<noteq> 0 then thenK (brelse bp) (returnK (get32 (data b) n))
         else bindK (balloc ROOTDEV) (\<lambda>a.
              thenK (seqK [upd_buf bp (\<lambda>b. b\<lparr>data := put32 (data b) n a\<rparr>), log_write bp, brelse bp])
              (returnK a)))"

lemma bmap_indirect:
  assumes k: "NDIRECT \<le> k" "k < MAXFILE" and a: "addr_or_alloc ip NDIRECT s = Ok d t" and dv: "i_dev (itab t ip) = ROOTDEV"
  shows "bmap ip (of_nat k) s = bindK (bread ROOTDEV d) (bmap_entry (4 * (k - NDIRECT))) t"
proof -
  have u: "unat (of_nat k :: u32) = k" using k by (simp add: of_nat32)
  have l: "\<not> (of_nat k :: u32) < NDIRECT" using k u by (simp add: word_less_nat_alt)
  then have m: "unat (of_nat k - NDIRECT :: u32) = k - NDIRECT" using u k(1) by (simp add: unat_sub_if')
  then have "(of_nat k - NDIRECT :: u32) < NINDIRECT" using k by (simp add: word_less_nat_alt)
  then show ?thesis using l m dv unfolding bmap_def bmap_entry_def
    by (simp add: bindK_Ok [of "addr_or_alloc ip NDIRECT", OF a] get_inode_def run_simps Let_def cong: if_cong)
qed

lemma bmap_entry_ok:
  fixes s :: "'z fs_state_scheme"
  assumes x: "txn {} s" and g: "bm_geom s" and f: "file_ok s ip" and n: "ln s + 2 < LOGSIZE - 1" and c: "free_blocks s \<noteq> {}"
    and i: "ind_addr s ip \<noteq> 0" and k: "NDIRECT \<le> k" "k < MAXFILE" "baddr s ip k = 0"
  shows "\<exists>a u. bindK (bread ROOTDEV (ind_addr s ip)) (bmap_entry (4 * (k - NDIRECT))) s = Ok a u \<and> fstep ip s u \<and> baddr u ip k = a \<and> a \<noteq> 0 \<and> ln u \<le> ln s + 3
     \<and> (\<forall>k<MAXFILE. fblock u ip k = fblock s ip k) \<and> card (free_blocks s) \<le> card (free_blocks u) + 1
     \<and> logged u \<subseteq> logged s \<union> bitmap_blocks (sblk s) \<union> {a, ind_addr s ip} \<and> a \<in> logged u \<and> ind_addr u ip = ind_addr s ip"
proof -
  let ?ind = "ind_addr s ip" and ?n = "4 * (k - NDIRECT)" and ?F = "bmap_entry (4 * (k - NDIRECT))"
  note fd = file_okD [OF f]
  have ib: "?ind \<in> file_blocks s ip" using in_file [of MAXFILE s ip] i by (simp add: fptr_baddr)
  note iok = fd(5) [OF ib]
  have nn: "nat (ln s) + card ({} :: u32 set) < NBUF" "nat (ln s) + 1 + card {?ind} < NBUF" using n by auto
  obtain bp v where v: "bindK (bread ROOTDEV ?ind) ?F s = ?F bp v" "data (bufs v bp) = cont s ?ind" "txn (insert ?ind {}) v" "has_buf v bp ?ind" "cont v = cont s"
     "tframe s v" "ln v = ln s" "logged v = logged s"
    using txn_open [OF x _ nn(1), where F = ?F and b = ?ind] by auto
  have vs: "sblk v = sblk s" "itab v = itab s" "lstart v = lstart s" "free_blocks v = free_blocks s" "bm_geom v"
  proof -
    show e: "sblk v = sblk s" "itab v = itab s" "lstart v = lstart s" by (rule tframe_eq [OF v(6)])+
    show fr: "free_blocks v = free_blocks s" by (simp add: free_blocks_def free_block_def e v(5))
    show "bm_geom v" by (rule bm_geom_step [OF g e(1,3)]) (simp add: fr)
  qed
  obtain a w where w: "balloc ROOTDEV v = Ok a w" "a \<in> free_blocks s" "txn {?ind} w" "tframe v w" "bm_geom w" "free_blocks w = free_blocks s - {a}"
     "cont w a = replicate BSIZE 0" "\<forall>c. c \<notin> bitmap_blocks (sblk s) \<longrightarrow> c \<noteq> a \<longrightarrow> cont w c = cont s c" "ln w \<le> ln s + 2"
     "logged w = insert a (insert (BBLOCK a (sblk s)) (logged s))" "has_buf w bp ?ind"
    using balloc_set [OF v(3) vs(5)] n nn(2) c v(4) iok unfolding vs v(5,7,8) by auto
  have ws: "sblk w = sblk s" "itab w = itab s" "lstart w = lstart s" using tframe_eq [OF w(4)] vs by simp_all
  have wi: "cont w ?ind = cont s ?ind" "data (bufs w bp) = cont s ?ind"
    using ind_cont [OF f w(2,8) i] txn_get_buf [OF w(3,11)] by simp_all
  have len: "length (cont s ?ind) = BSIZE" by (rule txn_len [OF x])
  have plen: "length (put32 (cont s ?ind) ?n a) = BSIZE" using len k by simp
  have hw: "ln w < LOGSIZE - 1" "home (lstart w) ?ind" using w(9) n iok by (simp_all add: ws)
  obtain u where u: "seqK [set_data bp (put32 (cont s ?ind) ?n a), log_write bp, brelse bp] w = Ok () u" "txn {} u"
     "cont u = (cont w)(?ind := put32 (cont s ?ind) ?n a)" "tframe w u" "ln u \<le> ln w + 1" "logged u = insert ?ind (logged w)"
    using txn_finish [OF w(3) _ w(11) plen hw] by auto
  have us: "sblk u = sblk s" "itab u = itab s" "lstart u = lstart s" using tframe_eq [OF u(4)] ws by simp_all
  have ia: "?ind \<noteq> a" "a \<noteq> 0" using iok w(2) fd(3) by auto
  have "seqK [upd_buf bp (\<lambda>b. b\<lparr>data := put32 (data b) ?n a\<rparr>), log_write bp, brelse bp] w
      = seqK [set_data bp (put32 (cont s ?ind) ?n a), log_write bp, brelse bp] w"
    by (simp add: set_data_def upd_buf_def K_defs wi(2))
  then have run: "bindK (bread ROOTDEV ?ind) ?F s = Ok a u"
    using v(1,2) k i w(1) u(1) unfolding bmap_entry_def baddr_def by (simp add: get_buf_def bindK_def getK_def thenK_def returnK_def del: seqK.simps)
  have fr: "free_blocks u = free_blocks s - {a}"
  proof -
    have "cont u (BBLOCK b (sblk s)) = cont w (BBLOCK b (sblk s))" if "b < sb_size (sblk s)" for b
      using iok bitmap_in [OF that] by (auto simp: u(3))
    then have "free_block u b = free_block w b" for b by (auto simp: free_block_def us ws)
    then show ?thesis using w(6) by (simp add: free_blocks_def)
  qed
  have gu: "bm_geom u" by (rule bm_geom_step [OF g us(1,3)]) (simp add: fr)
  have sl: "fptr u ip j = (if j = k then a else fptr s ip j)" if "j \<le> MAXFILE" for j
    by (rule put_entry_slots [OF f i k(1,2) len us(2) _ that]) (simp add: u(3))
  have s0: "fptr s ip k = 0" using k by (simp add: fptr_baddr)
  have dv: "i_dev (itab u ip) = ROOTDEV" "length (i_addrs (itab u ip)) = 13" using fd by (simp_all add: us)
  note al = alloc_slot [OF f w(2) g fr us(1,3) dv sl _ s0]
  have ok: "file_ok u ip" "file_blocks u ip = insert a (file_blocks s ip)" "\<And>k. k < MAXFILE \<Longrightarrow> fblock u ip k = fblock s ip k"
    using al k(2) w(7,8) ia by (simp_all add: u(3))
  have "baddr u ip j = baddr s ip j" if "j < MAXFILE" "baddr s ip j \<noteq> 0" for j using sl [of j] that s0 by (auto simp: fptr_baddr split: if_splits)
  moreover have "fframe s u" by (rule tframe_fframe [OF tframe_trans [OF v(6) tframe_trans [OF w(4) u(4)]]])
  ultimately have "fstep ip s u" unfolding fstep_def using u(2,3) gu ok fr us w(2,8) ib by auto
  moreover have "baddr u ip k = a" using sl [of k] k by (simp add: fptr_baddr)
  moreover have "card (free_blocks s) \<le> card (free_blocks u) + 1" using w(2) by (simp add: fr card_Diff_singleton)
  moreover have "ind_addr u ip = ind_addr s ip" by (simp add: ind_addr_def us)
  moreover have "BBLOCK a (sblk s) \<in> bitmap_blocks (sblk s)" by (rule bitmap_in [OF free_lt [OF w(2)]])
  ultimately show ?thesis using run ok(3) ia(2) u(5,6) w(9,10) by (intro exI [of _ a] exI [of _ u]) auto
qed

text \<open>\<open>bmap\<close> as a whole: the block it returns is the block of the file at that index, allocated if need be.\<close>

definition mapped :: "nat \<Rightarrow> nat \<Rightarrow> u32 \<Rightarrow> 'z fs_state_scheme \<Rightarrow> 'z fs_state_scheme \<Rightarrow> bool" where
  "mapped ip k a s u \<longleftrightarrow> fstep ip s u \<and> baddr u ip k = a \<and> a \<noteq> 0 \<and> ln u \<le> ln s + 5
     \<and> (\<forall>k<MAXFILE. fblock u ip k = fblock s ip k) \<and> card (free_blocks s) \<le> card (free_blocks u) + 2
     \<and> logged u \<subseteq> logged s \<union> bitmap_blocks (sblk s) \<union> {a} \<union> ({ind_addr u ip} - {0}) \<and> (baddr s ip k \<noteq> 0 \<longrightarrow> tframe s u \<and> cont u = cont s \<and> ln u = ln s \<and> logged u = logged s)
     \<and> (ind_addr s ip \<noteq> 0 \<longrightarrow> ind_addr u ip = ind_addr s ip)"

lemma bmap_ok:
  fixes s :: "'z fs_state_scheme"
  assumes x: "txn {} s" and g: "bm_geom s" and f: "file_ok s ip" and k: "k < MAXFILE"
    and n: "ln s + 4 < LOGSIZE - 1 \<and> 2 \<le> card (free_blocks s) \<or> baddr s ip k \<noteq> 0"
  shows "\<exists>a u. bmap ip (of_nat k) s = Ok a u \<and> mapped ip k a s u"
proof -
  have uk: "unat (of_nat k :: u32) = k" "(of_nat k :: u32) < NDIRECT \<longleftrightarrow> k < NDIRECT" using k by (simp_all add: of_nat32 word_less_nat_alt)
  have dv: "i_dev (itab s ip) = ROOTDEV" by (rule file_okD(1) [OF f])
  have ne: "free_blocks s \<noteq> {}" if "2 \<le> card (free_blocks s)" using that by auto
  consider (direct) "k < NDIRECT" | (ind) "NDIRECT \<le> k" "ind_addr s ip \<noteq> 0 \<and> baddr s ip k \<noteq> 0"
    | (new) "NDIRECT \<le> k" "baddr s ip k = 0" by (cases "k < NDIRECT"; cases "ind_addr s ip = 0") (auto simp: baddr_def)
  then show ?thesis
  proof cases
    case direct
    then have bk: "baddr v ip k = i_addrs (itab v ip) ! k" for v :: "'z fs_state_scheme" by (simp add: baddr_def)
    have run: "bmap ip (of_nat k) s = addr_or_alloc ip k s" using direct uk by (simp add: bmap_def)
    show ?thesis
    proof (cases "baddr s ip k = 0")
      case True
      then have n': "ln s + 1 < LOGSIZE - 1" "free_blocks s \<noteq> {}" using n ne by auto
      obtain a u where u: "addr_or_alloc ip k s = Ok a u" "fstep ip s u" "i_addrs (itab u ip) ! k = a" "a \<noteq> 0" "ln u \<le> ln s + 2"
         "\<forall>k<MAXFILE. fblock u ip k = fblock s ip k" "card (free_blocks s) \<le> card (free_blocks u) + 1" "logged u \<subseteq> logged s \<union> bitmap_blocks (sblk s) \<union> {a}"
         "\<forall>j. j \<noteq> k \<longrightarrow> i_addrs (itab u ip) ! j = i_addrs (itab s ip) ! j"
        using addr_or_alloc_ok [OF x g f n', of k] direct by auto
      then have "mapped ip k a s u" using True direct unfolding mapped_def bk by (auto simp: ind_addr_def)
      then show ?thesis using run u(1) by auto
    next
      case False
      then show ?thesis using run bk [of s] fstep_refl [OF x g f]
        by (auto simp: mapped_def addr_or_alloc_def get_inode_def run_simps returnK_def)
    qed
  next
    case ind
    let ?ind = "ind_addr s ip"
    have nn: "nat (ln s) + card ({} :: u32 set) < NBUF" using x by (auto simp: txn_def log_geom_def)
    obtain bp v u where u: "bindK (bread ROOTDEV ?ind) (bmap_entry (4 * (k - NDIRECT))) s = bmap_entry (4 * (k - NDIRECT)) bp v" "data (bufs v bp) = cont s ?ind" "brelse bp v = Ok () u"
       "txn {} u" "cont u = cont s" "tframe s u" "ln u = ln s" "logged u = logged s"
      using txn_peek [OF x _ nn, where F = "bmap_entry (4 * (k - NDIRECT))" and b = ?ind] by auto
    have e: "get32 (cont s ?ind) (4 * (k - NDIRECT)) = baddr s ip k" "baddr s ip k \<noteq> 0" using ind by (auto simp: baddr_def)
    have "bmap_entry (4 * (k - NDIRECT)) bp v = Ok (baddr s ip k) u"
      using e u(2,3) by (simp add: bmap_entry_def get_buf_def bindK_def getK_def thenK_def returnK_def)
    moreover have "addr_or_alloc ip NDIRECT s = Ok ?ind s" using ind by (simp add: addr_or_alloc_def get_inode_def run_simps returnK_def ind_addr_def)
    ultimately have "bmap ip (of_nat k) s = Ok (baddr s ip k) u" using bmap_indirect [OF ind(1) k _ dv] u(1) by simp
    moreover have "mapped ip k (baddr s ip k) s u"
      using fstep_same [OF u(4,6,5) g f] ind u(6,7,8) tframe_eq [OF u(6)] by (auto simp: mapped_def ind_addr_def u(5))
    ultimately show ?thesis by blast
  next
    case new
    then have n': "ln s + 1 < LOGSIZE - 1" "free_blocks s \<noteq> {}" "ln s + 4 < LOGSIZE - 1" "2 \<le> card (free_blocks s)" using n ne by auto
    obtain d t where t: "addr_or_alloc ip NDIRECT s = Ok d t" "fstep ip s t" "i_addrs (itab t ip) ! NDIRECT = d" "d \<noteq> 0" "ln t \<le> ln s + 2"
       "\<forall>k<MAXFILE. fblock t ip k = fblock s ip k" "card (free_blocks s) \<le> card (free_blocks t) + 1" "logged t \<subseteq> logged s \<union> bitmap_blocks (sblk s) \<union> {d}"
       "\<forall>j<MAXFILE. baddr t ip j = baddr s ip j" "i_addrs (itab s ip) ! NDIRECT \<noteq> 0 \<longrightarrow> t = s"
      using addr_or_alloc_ok [OF x g f n'(1,2), of NDIRECT] by auto
    note td = fstepD [OF t(2)]
    have p: "ln t + 2 < LOGSIZE - 1" "free_blocks t \<noteq> {}" "ind_addr t ip \<noteq> 0" "baddr t ip k = 0" "sblk t = sblk s" "ind_addr t ip = d"
      using t(3-5,7,9) n'(3,4) new k fframeD(4) [OF td(4)] by (auto simp: ind_addr_def)
    obtain a u where u: "bindK (bread ROOTDEV (ind_addr t ip)) (bmap_entry (4 * (k - NDIRECT))) t = Ok a u" "fstep ip t u" "baddr u ip k = a" "a \<noteq> 0" "ln u \<le> ln t + 3"
       "\<forall>k<MAXFILE. fblock u ip k = fblock t ip k" "card (free_blocks t) \<le> card (free_blocks u) + 1"
       "logged u \<subseteq> logged t \<union> bitmap_blocks (sblk t) \<union> {a, ind_addr t ip}" "ind_addr u ip = ind_addr t ip"
      using bmap_entry_ok [OF td(1-3) p(1-3) new(1) k p(4)] by blast
    have "bmap ip (of_nat k) s = Ok a u" using bmap_indirect [OF new(1) k t(1) file_okD(1) [OF td(3)]] u(1) p(6) by simp
    moreover have "logged u \<subseteq> logged s \<union> bitmap_blocks (sblk s) \<union> {a, d}" using u(8) t(8) p(5,6) by auto
    then have "mapped ip k a s u"
      unfolding mapped_def using fstep_trans [OF t(2) u(2)] u t new p by (auto simp: ind_addr_def)
    ultimately show ?thesis by blast
  qed
qed

section \<open>Reading\<close>

lemma fblock_length: "txn L s \<Longrightarrow> length (fblock s ip k) = BSIZE"
  by (simp add: fblock_def txn_len)

lemma same_block:
  assumes "(p :: nat) mod BSIZE + i < BSIZE" shows "(p + i) div BSIZE = p div BSIZE" "(p + i) mod BSIZE = p mod BSIZE + i"
proof -
  have "p + i = (p mod BSIZE + i) + (p div BSIZE) * BSIZE" by simp
  then show "(p + i) div BSIZE = p div BSIZE" "(p + i) mod BSIZE = p mod BSIZE + i"
    using assms div_mult_self1 [of BSIZE "p mod BSIZE + i" "p div BSIZE"] mod_mult_self1 [of "p mod BSIZE + i" "p div BSIZE" BSIZE] by simp_all
qed

lemma block_bytes:
  assumes "length (fblock s ip (p div BSIZE)) = BSIZE" "m \<le> BSIZE - p mod BSIZE"
  shows "take m (drop (p mod BSIZE) (fblock s ip (p div BSIZE))) = map (fbyte s ip) [p..<p + m]"
proof (rule nth_equalityI)
  show "length (take m (drop (p mod BSIZE) (fblock s ip (p div BSIZE)))) = length (map (fbyte s ip) [p..<p + m])" using assms by simp
  fix i assume "i < length (take m (drop (p mod BSIZE) (fblock s ip (p div BSIZE))))"
  then have i: "i < m" "p mod BSIZE + i < BSIZE" using assms by auto
  show "take m (drop (p mod BSIZE) (fblock s ip (p div BSIZE))) ! i = map (fbyte s ip) [p..<p + m] ! i"
    using i assms same_block [OF i(2)] by (simp add: fbyte_def)
qed

lemma off_block:
  assumes "unat off + k \<le> MAXFILE * BSIZE" "0 < k"
  shows "(off :: u32) div BSIZE = of_nat (unat off div BSIZE)" "unat off div BSIZE < MAXFILE"
    "m \<le> k \<Longrightarrow> unat (off + of_nat m) = unat off + m"
proof -
  have "unat off div BSIZE < 2 ^ 32" using unat32_bound [of off] by simp
  from of_nat32 [OF this] show "off div BSIZE = of_nat (unat off div BSIZE)" by (simp add: word_unat_eq_iff unat_div)
  show "unat off div BSIZE < MAXFILE" using assms by (simp add: less_mult_imp_div_less)
  show "unat (off + of_nat m) = unat off + m" if "m \<le> k"
  proof -
    have "unat (of_nat m :: u32) = m" using that assms by (intro of_nat32) simp
    then show ?thesis using that assms by (simp add: unat_plus_if')
  qed
qed

lemma copyout_var: "bio_ok s \<Longrightarrow> either_copyout (VarA ds) bs s = Ok 0 s"
  by (auto simp: either_copyout_def myproc_def bio_ok_def quiet_def K_defs)

text \<open>No block of the range is a hole.\<close>

definition no_holes :: "'z fs_state_scheme \<Rightarrow> nat \<Rightarrow> nat \<Rightarrow> nat \<Rightarrow> bool" where
  "no_holes s ip p n \<longleftrightarrow> (\<forall>q. p \<le> q \<longrightarrow> q < p + n \<longrightarrow> baddr s ip (q div BSIZE) \<noteq> 0)"

lemma readi_loop_ok:
  fixes s :: "'z fs_state_scheme"
  assumes "txn {} s" "bm_geom s" "file_ok s ip" "unat off + k \<le> MAXFILE * BSIZE" "no_holes s ip (unat off) k"
  shows "\<exists>u. readi_loop ip (VarA ds) off k s = Ok (True, map (fbyte s ip) [unat off..<unat off + k]) u \<and> txn {} u \<and> tframe s u
     \<and> cont u = cont s \<and> ln u = ln s \<and> logged u = logged s"
  using assms
proof (induction k arbitrary: s off ds rule: less_induct)
  case (less k)
  show ?case
  proof (cases "k = 0")
    case True
    then show ?thesis using less.prems(1) by (simp add: readi_loop.simps returnK_def)
  next
    case False
    then have kp: "0 < k" by simp
    let ?m = "span off k" and ?b = "unat off div BSIZE" and ?o = "unat off mod BSIZE"
    note sp = span_bounds(1) [of off k] span_bounds(2) [OF kp, of off]
    note ob = off_block [OF less.prems(4) kp]
    have nz: "baddr s ip ?b \<noteq> 0" using less.prems(5) kp by (auto simp: no_holes_def dest: spec [of _ "unat off"])
    obtain a t where t: "bmap ip (of_nat ?b) s = Ok a t" "mapped ip ?b a s t" using bmap_ok [OF less.prems(1-3) ob(2)] nz by blast
    have tm: "a = baddr s ip ?b" "tframe s t" "cont t = cont s" "ln t = ln s" "logged t = logged s" "txn {} t"
      using t(2) nz fstepD [of ip s t] by (auto simp: mapped_def ob(2))
    let ?rest = "\<lambda>bp :: nat. \<lambda>b :: buf. \<lambda>r :: int. (if r = - 1 then thenK (brelse bp) (returnK (False, []))
        else thenK (brelse bp) (bindK (readi_loop ip (VarA (drop ?m ds)) (off + of_nat ?m) (k - ?m)) (\<lambda>(ok, rest).
           returnK (ok, take ?m (drop ?o (data b)) @ rest)))) :: ('z fs_state_scheme, bool \<times> bytes) K"
    let ?F = "\<lambda>bp. bindK (get_buf bp) (\<lambda>b. bindK (either_copyout (VarA ds) (take ?m (drop ?o (data b)))) (?rest bp b))"
    have nn: "nat (ln t) + card ({} :: u32 set) < NBUF" using tm(6) by (auto simp: txn_def log_geom_def)
    obtain bp v w where w: "bindK (bread ROOTDEV a) ?F t = ?F bp v" "data (bufs v bp) = cont t a" "brelse bp v = Ok () w" "txn {} w" "cont w = cont t"
       "tframe t w" "ln w = ln t" "logged w = logged t" "txn {a} v"
      using txn_peek [OF tm(6) _ nn, where F = ?F and b = a] by auto
    have "bio_ok v" using w(9) by (simp add: txn_def)
    note cp = copyout_var [OF this]
    note fw = fstep_same [OF w(4) tframe_trans [OF tm(2) w(6)], of ip] 
    have we: "cont w = cont s" "ln w = ln s" "logged w = logged s" using w tm by simp_all
    note fw = fw [OF we(1) less.prems(2,3)]
    have fb: "fbyte w ip = fbyte s ip" by (simp add: fun_eq_iff fbyte_def fw(3))
    have "unat (off + of_nat ?m) + (k - ?m) \<le> MAXFILE * BSIZE" "no_holes w ip (unat (off + of_nat ?m)) (k - ?m)" "k - ?m < k"
      using ob(3) [OF sp(1)] less.prems(4,5) sp kp by (auto simp: no_holes_def fw(2))
    from less.IH [OF this(3) w(4) _ _ this(1,2), of "drop ?m ds"] fstepD(2,3) [OF fw(1)]
    obtain u where u: "readi_loop ip (VarA (drop ?m ds)) (off + of_nat ?m) (k - ?m) w = Ok (True, map (fbyte s ip) [unat off + ?m..<unat off + k]) u"
       "txn {} u" "tframe w u" "cont u = cont w" "ln u = ln w" "logged u = logged w"
      using ob(3) [OF sp(1)] sp(1) by (auto simp: fb)
    have bs: "take ?m (drop ?o (cont s a)) = map (fbyte s ip) [unat off..<unat off + ?m]"
      using block_bytes [of s ip "unat off" ?m] fblock_length [OF less.prems(1), of ip ?b] nz by (simp add: fblock_def tm(1) span_def)
    have "readi_loop ip (VarA ds) off k s = Ok (True, map (fbyte s ip) [unat off..<unat off + ?m] @ map (fbyte s ip) [unat off + ?m..<unat off + k]) u"
    proof -
      have "readi_loop ip (VarA ds) off k s = bindK (bread ROOTDEV a) ?F t"
        using False by (subst readi_loop.simps) (simp add: Let_def get_inode_def run_simps ob(1) bindK_Ok [of "bmap ip _", OF t(1)] file_okD(1) [OF less.prems(3)] cong: if_cong)
      also have "\<dots> = ?F bp v" by (rule w(1))
      also have "\<dots> = bindK (readi_loop ip (VarA (drop ?m ds)) (off + of_nat ?m) (k - ?m)) (\<lambda>(ok, rest). returnK (ok, take ?m (drop ?o (cont s a)) @ rest)) w"
        using w(2,3) cp by (simp add: get_buf_def run_simps bindK_Ok [of "either_copyout _ _", OF cp] thenK_Ok [of "brelse bp", OF w(3)] tm(3))
      also have "\<dots> = Ok (True, take ?m (drop ?o (cont s a)) @ map (fbyte s ip) [unat off + ?m..<unat off + k]) u"
        by (simp add: bindK_Ok [of "readi_loop _ _ _ _", OF u(1)] returnK_def)
      finally show ?thesis unfolding bs .
    qed
    moreover have "map (fbyte s ip) [unat off..<unat off + ?m] @ map (fbyte s ip) [unat off + ?m..<unat off + k] = map (fbyte s ip) [unat off..<unat off + k]"
      using upt_add_eq_append [of "unat off" "unat off + ?m" "k - ?m"] sp(1) by simp
    moreover have "tframe s u" by (rule tframe_trans [OF tm(2) tframe_trans [OF w(6) u(3)]])
    ultimately show ?thesis using u we by auto
  qed
qed

section \<open>Writing\<close>

text \<open>Writing the block of the file at an index.\<close>

lemma fstep_data:
  fixes s :: "'z fs_state_scheme"
  assumes x: "txn {} u" "tframe s u" and c: "cont u = (cont s)(a := d)" and a: "a = baddr s ip k" "a \<noteq> 0" "k < MAXFILE"
    and g: "bm_geom s" and f: "file_ok s ip"
  shows "fstep ip s u" "baddr u ip = baddr s ip" "j < MAXFILE \<Longrightarrow> fblock u ip j = (if j = k then d else fblock s ip j)"
    "free_blocks u = free_blocks s" "ind_addr u ip = ind_addr s ip"
proof -
  note fs = tframe_eq [OF x(2)] and fd = file_okD [OF f]
  have af: "fptr s ip k = a" "a \<in> file_blocks s ip" using in_file [of k s ip] a by (simp_all add: fptr_baddr)
  note aok = fd(5) [OF af(2)]
  show i: "ind_addr u ip = ind_addr s ip" by (simp add: ind_addr_def fs)
  have ai: "ind_addr s ip \<noteq> a" using fd(4) [of k MAXFILE] af(1) a by (auto simp: fptr_baddr)
  show b: "baddr u ip = baddr s ip" by (simp add: fun_eq_iff baddr_def i fs c ai)
  show "fblock u ip j = (if j = k then d else fblock s ip j)" if "j < MAXFILE"
    using fd(4) [of j k] that a by (auto simp: fblock_def b c fptr_baddr)
  have "cont u (BBLOCK b (sblk s)) = cont s (BBLOCK b (sblk s))" if "b < sb_size (sblk s)" for b using aok bitmap_in [OF that] by (auto simp: c)
  then have "free_block u b = free_block s b" for b by (auto simp: free_block_def fs)
  then show fr: "free_blocks u = free_blocks s" by (simp add: free_blocks_def)
  have sl: "fptr u ip = fptr s ip" by (simp add: fun_eq_iff fptr_def b i)
  then have fb: "file_blocks u ip = file_blocks s ip" by (simp add: file_blocks_def)
  have "file_ok u ip" using f by (simp add: file_ok_def fs fr fb sl)
  moreover have "bm_geom u" by (rule bm_geom_step [OF g fs(1,3)]) (simp add: fr)
  ultimately show "fstep ip s u" unfolding fstep_def using x(1) tframe_fframe [OF x(2)] b fr fb af(2) by (auto simp: fs c)
qed

lemma copyin_var: "bio_ok s \<Longrightarrow> either_copyin (VarA bs) m s = Ok (0, take m bs) s"
  by (auto simp: either_copyin_def myproc_def bio_ok_def quiet_def K_defs)

text \<open>The number of blocks a range touches.\<close>

definition blocks_of :: "nat \<Rightarrow> nat \<Rightarrow> nat" where
  "blocks_of p n = (if n = 0 then 0 else (p + n - 1) div BSIZE - p div BSIZE + 1)"

lemma blocks_of_step:
  assumes "0 < n" shows "blocks_of p n = blocks_of (p + min n (BSIZE - p mod BSIZE)) (n - min n (BSIZE - p mod BSIZE)) + 1"
proof (cases "n \<le> BSIZE - p mod BSIZE")
  case True
  have "p mod BSIZE + (n - 1) < BSIZE" using True assms mod_less_divisor [of BSIZE p] by simp
  then have "(p + n - 1) div BSIZE = p div BSIZE" using same_block(1) [of p "n - 1"] assms by simp
  then show ?thesis using True assms by (simp add: blocks_of_def min_def)
next
  case False
  define d where "d = BSIZE - p mod BSIZE"
  have "p' + (BSIZE - r) = (x + 1) * BSIZE" if "r < BSIZE" "x * BSIZE + r = p'" for x r p' :: nat using that by simp
  from this [OF _ div_mult_mod_eq [of p BSIZE]] have "p + d = (p div BSIZE + 1) * BSIZE" by (simp add: d_def)
  then have q: "(p + d) div BSIZE = p div BSIZE + 1" by simp
  have d: "d < n" using False by (simp add: d_def)
  then have e: "(p + d) div BSIZE \<le> (p + n - 1) div BSIZE" "p + d + (n - d) - 1 = p + n - 1" by (auto intro: div_le_mono)
  have "blocks_of (p + d) (n - d) = (p + n - 1) div BSIZE - (p div BSIZE + 1) + 1" using d unfolding blocks_of_def e(2) q by simp
  also have "\<dots> + 1 = blocks_of p n" using e(1) d unfolding blocks_of_def q by (simp add: Suc_diff_Suc Suc_le_eq)
  finally show ?thesis using d unfolding d_def [symmetric] by simp
qed

lemma put_block_bytes:
  assumes "length b = BSIZE" "p mod BSIZE + length bs \<le> BSIZE" "q div BSIZE = p div BSIZE"
  shows "put_bytes b (p mod BSIZE) bs ! (q mod BSIZE) = (if p \<le> q \<and> q < p + length bs then bs ! (q - p) else b ! (q mod BSIZE))"
proof -
  have e: "q - p = q mod BSIZE - p mod BSIZE" "p \<le> q \<longleftrightarrow> p mod BSIZE \<le> q mod BSIZE" "q < p + length bs \<longleftrightarrow> q mod BSIZE < p mod BSIZE + length bs"
    using assms(3) div_mult_mod_eq [of p BSIZE] div_mult_mod_eq [of q BSIZE] by linarith+
  have "q mod BSIZE < length b" using assms(1) by simp
  then show ?thesis using nth_put_bytes [of "p mod BSIZE" bs b "q mod BSIZE"] assms(1,2) by (simp add: e)
qed

lemma ln_le: assumes "txn L s" "logged s \<subseteq> G" "finite G" shows "ln s \<le> int (card G)"
proof -
  have g: "log_geom s" using assms(1) by (simp add: txn_def)
  then have "0 \<le> ln s" by (simp add: log_geom_def)
  moreover have "nat (ln s) \<le> card G" using logged_card [OF g] card_mono [OF assms(3,2)] by simp
  ultimately show ?thesis by simp
qed

text \<open>One round of \<open>writei\<close> after \<open>bmap\<close>: the bytes are in the block and the block is in the log.\<close>

lemma write_round:
  fixes s :: "'z fs_state_scheme" and K :: "('z fs_state_scheme, nat) K"
  assumes x: "txn {} s" and f: "file_ok s ip" and n: "ln s < LOGSIZE - 1"
    and a: "a \<in> file_blocks s ip" and m: "o' + m \<le> BSIZE" "m \<le> length bs"
  shows "\<exists>u. bindK (bread ROOTDEV a) (\<lambda>bp. bindK (either_copyin (VarA bs) m) (\<lambda>(r, xs).
        thenK (upd_buf bp (\<lambda>b. b\<lparr>data := put_bytes (data b) o' xs\<rparr>))
        (if r = - 1 then thenK (brelse bp) (returnK 0) else thenK (seqK [log_write bp, brelse bp]) K))) s = K u
     \<and> txn {} u \<and> tframe s u \<and> cont u = (cont s)(a := put_bytes (cont s a) o' (take m bs)) \<and> logged u = insert a (logged s)"
proof -
  let ?F = "\<lambda>bp. bindK (either_copyin (VarA bs) m) (\<lambda>(r, xs). thenK (upd_buf bp (\<lambda>b. b\<lparr>data := put_bytes (data b) o' xs\<rparr>))
        (if r = - 1 then thenK (brelse bp) (returnK 0) else thenK (seqK [log_write bp, brelse bp]) K))"
  let ?d = "put_bytes (cont s a) o' (take m bs)"
  have nn: "nat (ln s) + card ({} :: u32 set) < NBUF" using n by auto
  obtain bp v where v: "bindK (bread ROOTDEV a) ?F s = ?F bp v" "data (bufs v bp) = cont s a" "txn {a} v" "has_buf v bp a" "cont v = cont s"
     "tframe s v" "ln v = ln s" "logged v = logged s"
    using txn_open [OF x _ nn, where F = ?F and b = a] by auto
  have ok: "bio_ok v" using v(3) by (simp add: txn_def)
  have pre: "length ?d = BSIZE" "ln v < LOGSIZE - 1" "home (lstart v) a"
    using m txn_len [OF x] n v(7) file_okD(5) [OF f a] tframe_eq(3) [OF v(6)] by simp_all
  obtain u where u: "seqK [set_data bp ?d, log_write bp, brelse bp] v = Ok () u" "txn {} u" "cont u = (cont v)(a := ?d)" "tframe v u" "logged u = insert a (logged v)"
    using txn_finish [OF v(3) _ v(4) pre] by auto
  have "?F bp v = thenK (seqK [set_data bp ?d, log_write bp, brelse bp]) K v"
    by (simp add: bindK_Ok [of "either_copyin _ _", OF copyin_var [OF ok]]) (simp add: thenK_def bindK_def upd_buf_def set_data_def modifyK_def v(2))
  also have "\<dots> = K u" by (rule thenK_Ok [of "seqK _", OF u(1)])
  finally show ?thesis using v u tframe_trans [OF v(6) u(4)] by auto
qed

text \<open>
  The loop of \<open>writei\<close>: it replaces the bytes of the range and keeps the others.  \<open>G\<close> bounds the
  blocks already in the log; each block written adds itself, and the indirect block is added once.
\<close>

lemma writei_loop_ok:
  fixes s :: "'z fs_state_scheme"
  assumes "txn {} s" "bm_geom s" "file_ok s ip" "unat off + k \<le> MAXFILE * BSIZE" "length bs = k"
    and "logged s \<subseteq> G \<union> ({ind_addr s ip} - {0})" "bitmap_blocks (sblk s) \<subseteq> G" "finite G" "card G + blocks_of (unat off) k + 5 < LOGSIZE - 1"
    and "2 * blocks_of (unat off) k \<le> card (free_blocks s)"
  shows "\<exists>u. writei_loop ip (VarA bs) off k s = Ok k u \<and> fstep ip s u \<and> no_holes u ip (unat off) k
     \<and> (\<forall>q<MAXFILE * BSIZE. fbyte u ip q = (if unat off \<le> q \<and> q < unat off + k then bs ! (q - unat off) else fbyte s ip q))
     \<and> (\<exists>X. finite X \<and> card X \<le> blocks_of (unat off) k \<and> logged u \<subseteq> G \<union> X \<union> ({ind_addr u ip} - {0}))"
  using assms
proof (induction k arbitrary: s off bs G rule: less_induct)
  case (less k)
  show ?case
  proof (cases "k = 0")
    case True
    then show ?thesis using less.prems(6) fstep_refl [OF less.prems(1-3)]
      by (intro exI [of _ s]) (auto simp: writei_loop.simps returnK_def no_holes_def intro: exI [of _ "{}"])
  next
    case False
    then have kp: "0 < k" by simp
    let ?m = "span off k" and ?b = "unat off div BSIZE" and ?o = "unat off mod BSIZE"
    note sp = span_bounds(1) [of off k] span_bounds(2) [OF kp, of off]
    note ob = off_block [OF less.prems(4) kp]
    have bl: "blocks_of (unat off) k = blocks_of (unat off + ?m) (k - ?m) + 1" unfolding span_def by (rule blocks_of_step [OF kp])
    have lns: "ln s + 4 < LOGSIZE - 1"
      using ln_le [OF less.prems(1,6)] less.prems(8,9) card_Un_le [of G "{ind_addr s ip} - {0}"] card_Diff1_le [of "{ind_addr s ip}" 0] by simp
    obtain a t where t: "bmap ip (of_nat ?b) s = Ok a t" "mapped ip ?b a s t"
      using bmap_ok [OF less.prems(1-3) ob(2)] lns less.prems(10) bl by auto
    have st: "fstep ip s t" "baddr t ip ?b = a" "a \<noteq> 0" "\<And>k. k < MAXFILE \<Longrightarrow> fblock t ip k = fblock s ip k" "card (free_blocks s) \<le> card (free_blocks t) + 2"
       "logged t \<subseteq> logged s \<union> bitmap_blocks (sblk s) \<union> {a} \<union> ({ind_addr t ip} - {0})" "ind_addr s ip \<noteq> 0 \<longrightarrow> ind_addr t ip = ind_addr s ip" "ln t \<le> ln s + 5"
      using t(2) unfolding mapped_def by blast+
    note td = fstepD [OF st(1)]
    let ?K = "bindK (writei_loop ip (VarA (drop ?m bs)) (off + of_nat ?m) (k - ?m)) (\<lambda>tot. returnK (?m + tot)) :: ('z fs_state_scheme, nat) K"
    have lt: "logged t \<subseteq> insert a G \<union> ({ind_addr t ip} - {0})"
    proof -
      have "ind_addr t ip \<noteq> 0" if "ind_addr s ip \<noteq> 0" using st(7) that by simp
      then have "logged s \<subseteq> G \<union> ({ind_addr t ip} - {0})" using less.prems(6) st(7) by auto
      then show ?thesis using st(6) less.prems(7) by blast
    qed
    have cg: "card (insert a G) + blocks_of (unat off + ?m) (k - ?m) + 5 < LOGSIZE - 1" "card (insert a G \<union> ({ind_addr t ip} - {0})) \<le> card G + 2"
      using less.prems(8,9) bl card_insert_le_m1 [of "card G + 1" G a] card_Un_le [of "insert a G" "{ind_addr t ip} - {0}"] card_Diff1_le [of "{ind_addr t ip}" 0]
        card_insert_if [of G a] by (auto split: if_splits)
    have "?o < BSIZE" "?m \<le> BSIZE - ?o" by (simp_all add: span_def)
    then have om: "?o + ?m \<le> BSIZE" by linarith
    have ab: "a \<in> file_blocks t ip" "?o + ?m \<le> BSIZE" "?m \<le> length bs" "ln t < LOGSIZE - 1"
      using in_file [of ?b t ip] st(2,3) ob(2) sp(1) less.prems(5,8,9) ln_le [OF td(1) lt] cg(2) bl om by (auto simp: fptr_baddr)
    obtain w where w: "bindK (bread ROOTDEV a) (\<lambda>bp. bindK (either_copyin (VarA bs) ?m) (\<lambda>(r, xs).
        thenK (upd_buf bp (\<lambda>b. b\<lparr>data := put_bytes (data b) ?o xs\<rparr>))
        (if r = - 1 then thenK (brelse bp) (returnK 0) else thenK (seqK [log_write bp, brelse bp]) ?K))) t = ?K w"
       "txn {} w" "tframe t w" "cont w = (cont t)(a := put_bytes (cont t a) ?o (take ?m bs))" "logged w = insert a (logged t)"
      using write_round [OF td(1,3) ab(4,1,2,3), of ?K] by blast
    note dw = fstep_data [OF w(2-4) st(2) [symmetric] st(3) ob(2) td(2,3)]
    note wd = fstepD [OF dw(1)]
    have uo: "unat (off + of_nat ?m) = unat off + ?m" by (rule ob(3) [OF sp(1)])
    have "\<exists>u. writei_loop ip (VarA (drop ?m bs)) (off + of_nat ?m) (k - ?m) w = Ok (k - ?m) u \<and> fstep ip w u \<and> no_holes u ip (unat (off + of_nat ?m)) (k - ?m)
     \<and> (\<forall>q<MAXFILE * BSIZE. fbyte u ip q = (if unat (off + of_nat ?m) \<le> q \<and> q < unat (off + of_nat ?m) + (k - ?m) then drop ?m bs ! (q - unat (off + of_nat ?m)) else fbyte w ip q))
     \<and> (\<exists>X. finite X \<and> card X \<le> blocks_of (unat (off + of_nat ?m)) (k - ?m) \<and> logged u \<subseteq> insert a G \<union> X \<union> ({ind_addr u ip} - {0}))"
      by (rule less.IH)
        (use wd(1-3) sp kp less.prems(4,5,7,8,10) lt w(5) dw(4,5) cg(1) bl st(5) fframeD(4) [OF td(4)] fframeD(4) [OF wd(4)] in \<open>auto simp: uo\<close>)
    then obtain u X where u: "writei_loop ip (VarA (drop ?m bs)) (off + of_nat ?m) (k - ?m) w = Ok (k - ?m) u" "fstep ip w u" "no_holes u ip (unat off + ?m) (k - ?m)"
       "\<And>q. q < MAXFILE * BSIZE \<Longrightarrow> fbyte u ip q = (if unat off + ?m \<le> q \<and> q < unat off + ?m + (k - ?m) then drop ?m bs ! (q - (unat off + ?m)) else fbyte w ip q)"
       "finite X" "card X \<le> blocks_of (unat off + ?m) (k - ?m)" "logged u \<subseteq> insert a G \<union> X \<union> ({ind_addr u ip} - {0})"
      unfolding uo by blast
    have run: "writei_loop ip (VarA bs) off k s = Ok k u"
    proof -
      have "writei_loop ip (VarA bs) off k s = ?K w"
        using False w(1) by (subst writei_loop.simps) (simp add: Let_def get_inode_def run_simps ob(1) bindK_Ok [of "bmap ip _", OF t(1)] file_okD(1) [OF less.prems(3)] cong: if_cong)
      also have "\<dots> = Ok k u" using sp(1) by (simp add: bindK_Ok [of "writei_loop _ _ _ _", OF u(1)] returnK_def)
      finally show ?thesis .
    qed
    have fw: "fbyte w ip q = (if unat off \<le> q \<and> q < unat off + ?m then bs ! (q - unat off) else fbyte s ip q)" if "q < MAXFILE * BSIZE" for q
    proof (cases "q div BSIZE = ?b")
      case True
      have "fblock t ip ?b = cont t a" using st(2,3) by (simp add: fblock_def)
      then have "length (cont t a) = BSIZE" "fblock s ip ?b = cont t a" using st(4) [OF ob(2)] txn_len [OF td(1)] by simp_all
      then show ?thesis using put_block_bytes [of "cont t a" "unat off" "take ?m bs" q] True om ab(3) dw(3) [OF ob(2)] by (auto simp: fbyte_def min_absorb2)
    next
      case False
      have "q div BSIZE = ?b" if "unat off \<le> q" "q < unat off + ?m" using same_block(1) [of "unat off" "q - unat off"] om that by simp
      then have "\<not> (unat off \<le> q \<and> q < unat off + ?m)" using False by blast
      moreover have "q div BSIZE < MAXFILE" using that by (simp add: less_mult_imp_div_less)
      ultimately show ?thesis using False dw(3) [of "q div BSIZE"] st(4) [of "q div BSIZE"] by (auto simp: fbyte_def)
    qed
    have "fbyte u ip q = (if unat off \<le> q \<and> q < unat off + k then bs ! (q - unat off) else fbyte s ip q)" if "q < MAXFILE * BSIZE" for q
      using u(4) [OF that] fw [OF that] sp(1) ab(3) by auto
    moreover have "no_holes u ip (unat off) k" unfolding no_holes_def
    proof (intro allI impI)
      fix q assume q: "unat off \<le> q" "q < unat off + k"
      show "baddr u ip (q div BSIZE) \<noteq> 0"
      proof (cases "q < unat off + ?m")
        case True
        then have "q div BSIZE = ?b" using same_block(1) [of "unat off" "q - unat off"] om q by simp
        then show ?thesis using fstepD(9) [OF u(2) ob(2)] dw(2) st(2,3) by simp
      qed (use u(3) q sp(1) in \<open>auto simp: no_holes_def\<close>)
    qed
    moreover have "finite (insert a X) \<and> card (insert a X) \<le> blocks_of (unat off) k \<and> logged u \<subseteq> G \<union> insert a X \<union> ({ind_addr u ip} - {0})"
      using u(5-7) bl card_insert_if [of X a] by (auto split: if_splits)
    ultimately show ?thesis using run fstep_trans [OF fstep_trans [OF st(1) dw(1)] u(2)] by blast
  qed
qed

end
