(* ===== verification/FsRw.thy ===== *)
theory FsRw
  imports FsFile File
begin

text \<open>
  \<open>readi\<close>, \<open>writei\<close> and \<open>iupdate\<close> on a file as a list of bytes: reading returns a slice of the list,
  writing splices bytes into it, and the inode on disk is the one in memory.
\<close>

section \<open>The contents of a file as a list of bytes\<close>

definition contents :: "'z fs_state_scheme \<Rightarrow> nat \<Rightarrow> bytes" where
  "contents s ip = map (fbyte s ip) [0..<unat (i_size (itab s ip))]"

text \<open>A file without holes whose inode lies in none of its blocks.\<close>

definition regular :: "'z fs_state_scheme \<Rightarrow> nat \<Rightarrow> bool" where
  "regular s ip \<longleftrightarrow> bm_geom s \<and> file_ok s ip \<and> unat (i_size (itab s ip)) \<le> MAXFILE * BSIZE \<and> no_holes s ip 0 (unat (i_size (itab s ip)))
     \<and> home (lstart s) (IBLOCK (i_num (itab s ip)) (sblk s))
     \<and> IBLOCK (i_num (itab s ip)) (sblk s) \<notin> bitmap_blocks (sblk s) \<union> free_blocks s \<union> file_blocks s ip"

lemma length_contents [simp]: "length (contents s ip) = unat (i_size (itab s ip))"
  by (simp add: contents_def)

lemma sint_small: "unat (w :: u32) \<le> MAXFILE * BSIZE \<Longrightarrow> sint w = int (unat w)"
proof -
  have "signed_take_bit 31 (int n) = int n" if "n \<le> MAXFILE * BSIZE" for n using that by (simp add: signed_take_bit_int_eq_self)
  moreover assume "unat w \<le> MAXFILE * BSIZE"
  ultimately have "signed_take_bit 31 (int (unat w)) = int (unat w)" by blast
  then show ?thesis by (simp only: sint_uint uint_nat) simp
qed

lemma readi_ok:
  fixes s :: "'z fs_state_scheme"
  assumes x: "txn {} s" and r: "regular s ip"
  shows "\<exists>u. readi ip (VarA ds) off n s =
       Ok (int (length (take (unat n) (drop (unat off) (contents s ip)))) * of_bool (off \<le> off + n),
           if off \<le> off + n then take (unat n) (drop (unat off) (contents s ip)) else []) u
     \<and> txn {} u \<and> tframe s u \<and> cont u = cont s \<and> ln u = ln s \<and> logged u = logged s"
proof -
  let ?z = "i_size (itab s ip)"
  have f: "bm_geom s" "file_ok s ip" "unat ?z \<le> MAXFILE * BSIZE" "no_holes s ip 0 (unat ?z)" using r by (simp_all add: regular_def)
  show ?thesis
  proof (cases "?z < off \<or> off + n < off")
    case True
    then have "take (unat n) (drop (unat off) (contents s ip)) = [] \<or> \<not> off \<le> off + n" by (auto simp: word_less_nat_alt word_le_nat_alt)
    then show ?thesis using True x by (intro exI [of _ s]) (auto simp: readi_def get_inode_def run_simps returnK_def not_le)
  next
    case False
    define n' where "n' = (if ?z < off + n then ?z - off else n)"
    have wr: "unat (off + n) = unat off + unat n"
    proof -
      have "\<not> unat (off + n) < unat off" using False by (simp add: word_less_nat_alt)
      then show ?thesis using unat32_bound [of n] by (auto simp: unat_plus_if' split: if_splits)
    qed
    have n: "unat off + unat n' \<le> unat ?z" "unat n' = min (unat n) (unat ?z - unat off)"
      using False wr by (auto simp: n'_def unat_sub word_less_nat_alt word_le_nat_alt not_less)
    have h: "no_holes s ip (unat off) (unat n')" using f(4) n(1) by (auto simp: no_holes_def)
    have m: "unat off + unat n' \<le> MAXFILE * BSIZE" using n(1) f(3) by linarith
    obtain u where u: "readi_loop ip (VarA ds) off (unat n') s = Ok (True, map (fbyte s ip) [unat off..<unat off + unat n']) u" "txn {} u" "tframe s u"
       "cont u = cont s" "ln u = ln s" "logged u = logged s"
      using readi_loop_ok [OF x f(1,2) m h] by blast
    have bs: "map (fbyte s ip) [unat off..<unat off + unat n'] = take (unat n) (drop (unat off) (contents s ip))"
      using n by (intro nth_equalityI) (auto simp: contents_def)
    have "unat n' \<le> MAXFILE * BSIZE" using m by linarith
    then have "sint n' = int (length (take (unat n) (drop (unat off) (contents s ip))))" using n(2) by (simp add: sint_small min.commute)
    moreover have "off \<le> off + n" using False by auto
    ultimately have "readi ip (VarA ds) off n s = Ok (int (length (take (unat n) (drop (unat off) (contents s ip)))), take (unat n) (drop (unat off) (contents s ip))) u"
      using False u(1) unfolding bs by (simp add: readi_def get_inode_def run_simps Let_def n'_def [symmetric] bindK_Ok [of "readi_loop _ _ _ _", OF u(1), unfolded bs] returnK_def)
    then show ?thesis using u \<open>off \<le> off + n\<close> by auto
  qed
qed

section \<open>Inodes on disk\<close>

lemma put_addrs_upto:
  assumes "off + 4 * n \<le> length d"
  shows "length (fold (\<lambda>i d. put32 d (off + 4 * i) (as ! i)) [0..<n] d) = length d"
    "i < n \<Longrightarrow> get32 (fold (\<lambda>i d. put32 d (off + 4 * i) (as ! i)) [0..<n] d) (off + 4 * i) = as ! i"
    "o' + w \<le> off \<or> off + 4 * n \<le> o' \<Longrightarrow> get_le w (fold (\<lambda>i d. put32 d (off + 4 * i) (as ! i)) [0..<n] d) o' = get_le w d o'"
  using assms
proof (induction n)
  case (Suc n)
  { case 1 then show ?case using Suc.IH(1) by simp }
  { case 2 then show ?case using Suc.IH(1,2) by (cases "i = n") (auto simp: get32_put32_other) }
  { case 3 then show ?case using Suc.IH(1,3) by (auto simp: put32_def get_put_le_other) }
qed simp_all

lemmas put_addrs_facts = put_addrs_upto [of _ "NDIRECT + 1", folded put_addrs_def]

lemma get_le_other:
  assumes "off + 4 \<le> length d" "o' + w \<le> off \<or> off + 4 \<le> o'"
  shows "get_le w (put32 d off v) o' = get_le w d o'"
  using assms by (simp add: put32_def get_put_le_other)

lemma get_le_other16:
  assumes "off + 2 \<le> length d" "o' + w \<le> off \<or> off + 2 \<le> o'"
  shows "get_le w (put16 d off v) o' = get_le w d o'"
  using assms by (simp add: put16_def get_put_le_other)

lemma put_dinode_length [simp]: "off + 64 \<le> length d \<Longrightarrow> length (put_dinode d off ip) = length d"
  by (simp add: put_dinode_def put_addrs_facts)

text \<open>The inode put at an offset is the one read there, and the inodes at other offsets stay.\<close>

lemma get_put_dinode:
  assumes "off + 64 \<le> length d" "length (i_addrs ip) = 13"
  shows "get_dinode (put_dinode d off ip) off jp = jp\<lparr>i_type := i_type ip, i_major := i_major ip, i_minor := i_minor ip, i_nlink := i_nlink ip,
       i_size := i_size ip, i_addrs := i_addrs ip\<rparr>"
proof -
  let ?e = "put32 (put16 (put16 (put16 (put16 d off (i_type ip)) (off + 2) (i_major ip)) (off + 4) (i_minor ip)) (off + 6) (i_nlink ip)) (off + 8) (i_size ip)"
  have len: "off + 12 + 4 * (NDIRECT + 1) \<le> length ?e" using assms by simp
  have p: "put_dinode d off ip = put_addrs ?e (off + 12) (i_addrs ip)" by (simp add: put_dinode_def)
  have a: "get_addrs (put_dinode d off ip) (off + 12) = i_addrs ip"
    unfolding p using put_addrs_facts(2) [OF len] assms(2) by (intro nth_equalityI) (simp_all add: get_addrs_def)
  have h: "get16 (put_dinode d off ip) o' = get16 ?e o'" if "o' + 2 \<le> off + 12" for o'
    unfolding p get16_def using put_addrs_facts(3) [OF len, of o' 2] that by simp
  have z: "get32 (put_dinode d off ip) (off + 8) = i_size ip"
    unfolding p get32_def using put_addrs_facts(3) [OF len, of "off + 8" 4] assms by (simp add: get32_def [symmetric])
  show ?thesis using assms(1) by (simp add: get_dinode_def a z h get16_put32_other get16_put16_other)
qed

lemma get_put_dinode_other:
  assumes "off + 64 \<le> length d" "o' + 64 \<le> off \<or> off + 64 \<le> o'"
  shows "get_dinode (put_dinode d off ip) o' jp = get_dinode d o' jp"
proof -
  let ?e = "put32 (put16 (put16 (put16 (put16 d off (i_type ip)) (off + 2) (i_major ip)) (off + 4) (i_minor ip)) (off + 6) (i_nlink ip)) (off + 8) (i_size ip)"
  have len: "off + 12 + 4 * (NDIRECT + 1) \<le> length ?e" using assms(1) by simp
  have k: "get_le w (put_dinode d off ip) q = get_le w d q" if "q + w \<le> off \<or> off + 64 \<le> q" for q w
  proof -
    have "get_le w (put_dinode d off ip) q = get_le w ?e q"
      unfolding put_dinode_def using put_addrs_facts(3) [OF len, of q w] that by auto
    also have "\<dots> = get_le w d q" using assms(1) that by (auto simp: get_le_other get_le_other16)
    finally show ?thesis .
  qed
  have "get16 (put_dinode d off ip) (o' + j) = get16 d (o' + j)" if "j + 2 \<le> 64" for j
    unfolding get16_def using k [of "o' + j" 2] assms(2) that by auto
  from this [of 0] this [of 2] this [of 4] this [of 6]
  have h: "get16 (put_dinode d off ip) o' = get16 d o'" "get16 (put_dinode d off ip) (o' + 2) = get16 d (o' + 2)"
    "get16 (put_dinode d off ip) (o' + 4) = get16 d (o' + 4)" "get16 (put_dinode d off ip) (o' + 6) = get16 d (o' + 6)" by simp_all
  have w: "get32 (put_dinode d off ip) (o' + j) = get32 d (o' + j)" if "j + 4 \<le> 64" for j
    unfolding get32_def using k [of "o' + j" 4] assms(2) that by auto
  have "get_addrs (put_dinode d off ip) (o' + 12) = get_addrs d (o' + 12)"
    unfolding get_addrs_def using w [of "12 + 4 * _"] by (intro map_cong refl) (simp add: add.assoc)
  then show ?thesis using w [of 8] unfolding get_dinode_def h by simp
qed

section \<open>Writing a file\<close>

lemma iupdate_ok:
  fixes s :: "'z fs_state_scheme"
  assumes x: "txn {} s" and n: "ln s < LOGSIZE - 1" and d: "i_dev (itab s ip) = ROOTDEV" and h: "home (lstart s) (IBLOCK (i_num (itab s ip)) (sblk s))"
  defines "ib \<equiv> IBLOCK (i_num (itab s ip)) (sblk s)"
  shows "\<exists>u. iupdate ip s = Ok () u \<and> txn {} u \<and> tframe s u \<and> logged u = insert ib (logged s)
     \<and> cont u = (cont s)(ib := put_dinode (cont s ib) (dinode_off (i_num (itab s ip))) (itab s ip))"
proof -
  let ?f = "\<lambda>b. put_dinode b (dinode_off (i_num (itab s ip))) (itab s ip)"
  have o: "dinode_off (i_num (itab s ip)) + 64 \<le> BSIZE"
    using mod_less_divisor [of IPB "unat (i_num (itab s ip))"] by (simp add: dinode_off_def)
  have "iupdate ip s = bindK (bread ROOTDEV ib) (\<lambda>bp. bindK (get_buf bp) (\<lambda>k. seqK [set_data bp (?f (data k)), log_write bp, brelse bp])) s"
    using d by (simp add: iupdate_def get_inode_def run_simps ib_def)
  moreover have "nat (ln s) + card ({} :: u32 set) < NBUF" using n by auto
  ultimately show ?thesis using txn_modify [OF x _ n _ h [folded ib_def], of ?f] txn_len [OF x] o by auto
qed

text \<open>Changing a block that holds none of the file's data, no pointers of it and no bitmap.\<close>

lemma other_block:
  fixes s :: "'z fs_state_scheme"
  assumes sb: "sblk u = sblk s" "i_addrs (itab u ip) = i_addrs (itab s ip)" and c: "cont u = (cont s)(b := d)"
    and b: "b \<notin> bitmap_blocks (sblk s) \<union> file_blocks s ip"
  shows "free_blocks u = free_blocks s" "k < MAXFILE \<Longrightarrow> baddr u ip k = baddr s ip k" "k < MAXFILE \<Longrightarrow> fblock u ip k = fblock s ip k"
    "file_blocks u ip = file_blocks s ip" "i \<le> MAXFILE \<Longrightarrow> fptr u ip i = fptr s ip i"
proof -
  have i: "ind_addr u ip = ind_addr s ip" by (simp add: ind_addr_def sb)
  have "ind_addr s ip \<noteq> b" if "ind_addr s ip \<noteq> 0" using in_file [of MAXFILE s ip] that b by (auto simp: fptr_baddr)
  then have ba: "baddr u ip k = baddr s ip k" for k by (simp add: baddr_def i sb c)
  then show "baddr u ip k = baddr s ip k" if "k < MAXFILE" by blast
  show "fblock u ip k = fblock s ip k" if "k < MAXFILE"
    using in_file [of k s ip] b that by (auto simp: fblock_def ba c fptr_baddr)
  show fp: "fptr u ip i = fptr s ip i" if "i \<le> MAXFILE" for i by (simp add: fptr_def ba i)
  then show "file_blocks u ip = file_blocks s ip" by (auto simp: file_blocks_def)
  have "cont u (BBLOCK a (sblk s)) = cont s (BBLOCK a (sblk s))" if "a < sb_size (sblk s)" for a using b bitmap_in [OF that] by (auto simp: c)
  then have "free_block u a = free_block s a" for a by (auto simp: free_block_def sb)
  then show "free_blocks u = free_blocks s" by (simp add: free_blocks_def)
qed

lemma fstep_size: "fstep ip s u \<Longrightarrow> i_size (itab u ip) = i_size (itab s ip) \<and> i_num (itab u ip) = i_num (itab s ip)"
  using fstepD(5) [of ip s u] by (metis fun_upd_same inode.select_convs(2,9) inode.surjective inode.update_convs(10))

text \<open>\<open>writei\<close> splices the bytes into the contents.\<close>

lemma file_ok_other:
  assumes "file_ok s ip" "sblk u = sblk s" "lstart u = lstart s" "i_dev (itab u ip) = i_dev (itab s ip)" "i_addrs (itab u ip) = i_addrs (itab s ip)"
    and "cont u = (cont s)(b := d)" "b \<notin> bitmap_blocks (sblk s) \<union> file_blocks s ip"
  shows "file_ok u ip"
proof -
  note ob = other_block [OF assms(2,5-7)]
  show ?thesis using assms(1) unfolding file_ok_def ob(1,4) assms(2-5) by (simp add: ob(5))
qed

lemma contents_splice:
  assumes "unat (i_size (itab u ip)) = max (unat (i_size (itab s ip))) (p + length bs)" "p \<le> unat (i_size (itab s ip))"
    and "\<And>q. q < unat (i_size (itab u ip)) \<Longrightarrow> fbyte u ip q = (if p \<le> q \<and> q < p + length bs then bs ! (q - p) else fbyte s ip q)"
  shows "contents u ip = put_bytes (contents s ip) p bs"
proof (rule nth_equalityI)
  show "length (contents u ip) = length (put_bytes (contents s ip) p bs)" using assms(1,2) by (auto simp: put_bytes_def)
  fix q assume "q < length (contents u ip)"
  then have q: "q < unat (i_size (itab u ip))" by simp
  then show "contents u ip ! q = put_bytes (contents s ip) p bs ! q"
    using assms(1,2) assms(3) [OF q] by (auto simp: put_bytes_def nth_append contents_def)
qed

lemma writei_ok:
  fixes s :: "'z fs_state_scheme" and off n :: u32
  assumes x: "txn {} s" and r: "regular s ip" and o: "off \<le> i_size (itab s ip)" and l: "length bs = unat n" "unat off + unat n \<le> MAXFILE * BSIZE"
    and room: "card (bitmap_blocks (sblk s) \<union> logged s) + blocks_of (unat off) (unat n) + 5 < LOGSIZE - 1"
      "2 * blocks_of (unat off) (unat n) \<le> card (free_blocks s)"
  shows "\<exists>u. writei ip (VarA bs) off n s = Ok (int (unat n)) u \<and> txn {} u \<and> regular u ip \<and> fframe s u
     \<and> contents u ip = put_bytes (contents s ip) (unat off) bs
     \<and> ln u \<le> int (card (bitmap_blocks (sblk s) \<union> logged s) + blocks_of (unat off) (unat n) + 2)
     \<and> get_dinode (cont u (IBLOCK (i_num (itab s ip)) (sblk s))) (dinode_off (i_num (itab s ip))) (itab u ip) = itab u ip
     \<and> (\<forall>j. j \<noteq> ip \<longrightarrow> itab u j = itab s j)"
proof -
  let ?z = "i_size (itab s ip)" and ?G = "bitmap_blocks (sblk s) \<union> logged s" and ?ib = "IBLOCK (i_num (itab s ip)) (sblk s)"
  let ?N = "blocks_of (unat off) (unat n)"
  have f: "bm_geom s" "file_ok s ip" "unat ?z \<le> MAXFILE * BSIZE" "no_holes s ip 0 (unat ?z)" "home (lstart s) ?ib"
     "?ib \<notin> bitmap_blocks (sblk s) \<union> free_blocks s \<union> file_blocks s ip" using r by (simp_all add: regular_def)
  obtain t X where t: "writei_loop ip (VarA bs) off (unat n) s = Ok (unat n) t" "fstep ip s t" "no_holes t ip (unat off) (unat n)"
     "\<And>q. q < MAXFILE * BSIZE \<Longrightarrow> fbyte t ip q = (if unat off \<le> q \<and> q < unat off + unat n then bs ! (q - unat off) else fbyte s ip q)"
     "finite X" "card X \<le> ?N" "logged t \<subseteq> ?G \<union> X \<union> ({ind_addr t ip} - {0})"
    using writei_loop_ok [OF x f(1,2) l(2,1), of ?G] room by auto
  note td = fstepD [OF t(2)] and ff = fframeD [OF fstepD(4) [OF t(2)]]
  have wr: "unat (off + n) = unat off + unat n" using l(2) by (simp add: unat_plus_if')
  define p where "p = (if i_size (itab t ip) < off + n then (itab t ip)\<lparr>i_size := off + n\<rparr> else itab t ip)"
  define v where "v = t\<lparr>itab := (itab t)(ip := p)\<rparr>"
  have tz: "i_size (itab t ip) = ?z" "i_num (itab t ip) = i_num (itab s ip)" using fstep_size [OF t(2)] by simp_all
  have p: "i_dev p = ROOTDEV" "i_addrs p = i_addrs (itab t ip)" "i_num p = i_num (itab s ip)" "unat (i_size p) = max (unat ?z) (unat off + unat n)"
    using file_okD(1) [OF td(3)] tz wr by (auto simp: p_def word_less_nat_alt)
  have "card (?G \<union> X \<union> ({ind_addr t ip} - {0})) \<le> card ?G + ?N + 1"
    using card_Un_le [of "?G \<union> X" "{ind_addr t ip} - {0}"] card_Un_le [of ?G X] t(6) card_Diff1_le [of "{ind_addr t ip}" 0] by simp
  then have ln: "ln t \<le> int (card ?G + ?N + 1)" using ln_le [OF td(1) t(7)] t(5) by simp
  have vs: "txn {} v" "ln v < LOGSIZE - 1" "i_dev (itab v ip) = ROOTDEV" "itab v ip = p" "sblk v = sblk s" "lstart v = lstart s" "cont v = cont t" "ln v = ln t"
    "logged v = logged t" using td(1) ln room(1) p(1) ff by (simp_all add: v_def)
  obtain u where u: "iupdate ip v = Ok () u" "txn {} u" "tframe v u" "logged u = insert ?ib (logged t)"
     "cont u = (cont t)(?ib := put_dinode (cont t ?ib) (dinode_off (i_num p)) p)"
    using iupdate_ok [OF vs(1-3)] f(5) unfolding vs(4-9) p(3) by auto
  note ue = tframe_eq [OF u(3), unfolded vs(5,6)]
  have ui: "itab u = (itab t)(ip := p)" using ue(2) by (simp add: v_def)
  have ib: "?ib \<notin> bitmap_blocks (sblk t) \<union> file_blocks t ip" using f(6) td(7) ff(4) by auto
  have su: "sblk u = sblk t" "lstart u = lstart t" "i_addrs (itab u ip) = i_addrs (itab t ip)" "i_dev (itab u ip) = i_dev (itab t ip)"
    using ue(1,3) ff(4,5) p(1,2) file_okD(1) [OF td(3)] by (simp_all add: ui)
  note ob = other_block [OF su(1,3) u(5) ib]
  have ok: "file_ok u ip" by (rule file_ok_other [OF td(3) su(1,2,4,3) u(5) ib])
  have gu: "bm_geom u" by (rule bm_geom_step [OF td(2) su(1,2)]) (simp add: ob(1))
  have max: "unat (i_size (itab u ip)) = max (unat ?z) (unat off + unat n)" "unat (i_size (itab u ip)) \<le> MAXFILE * BSIZE" using p(4) f(3) l(2) by (simp_all add: ui)
  have blk: "q div BSIZE < MAXFILE" if "q < unat (i_size (itab u ip))" for q using that max(2) by (simp add: less_mult_imp_div_less)
  have fb: "fbyte u ip q = (if unat off \<le> q \<and> q < unat off + length bs then bs ! (q - unat off) else fbyte s ip q)" if "q < unat (i_size (itab u ip))" for q
    using t(4) [of q] that max(2) ob(3) [OF blk [OF that]] l(1) by (simp add: fbyte_def)
  have cu: "contents u ip = put_bytes (contents s ip) (unat off) bs"
    by (rule contents_splice) (use max(1) l(1) o fb in \<open>auto simp: word_le_nat_alt\<close>)
  have nh: "no_holes u ip 0 (unat (i_size (itab u ip)))" unfolding no_holes_def
  proof (intro allI impI)
    fix q assume "q < 0 + unat (i_size (itab u ip))"
    then have q: "q < unat (i_size (itab u ip))" by simp
    have "baddr t ip (q div BSIZE) \<noteq> 0"
    proof (cases "q < unat ?z")
      case True
      then have "baddr s ip (q div BSIZE) \<noteq> 0" using f(4) by (simp add: no_holes_def)
      then show ?thesis using td(9) [OF blk [OF q]] by simp
    qed (use q max(1) t(3) o in \<open>auto simp: no_holes_def word_le_nat_alt\<close>)
    then show "baddr u ip (q div BSIZE) \<noteq> 0" using ob(2) [OF blk [OF q]] by simp
  qed
  have "regular u ip" using gu ok max(2) nh f(5,6) td(6,7) ob(1,4) unfolding regular_def ue(1,3) ui by (auto simp: ui p(3))
  moreover have "fframe s u" by (rule fframe_trans [OF td(4) fframe_trans [OF _ tframe_fframe [OF u(3)]]]) (simp add: v_def)
  moreover have "writei ip (VarA bs) off n s = Ok (int (unat n)) u"
  proof -
    have "\<not> ?z < off" "\<not> off + n < off" "\<not> MAXFILE * BSIZE < off + n" using o l(2) wr by (auto simp: word_less_nat_alt word_le_nat_alt)
    moreover have "upd_inode ip (\<lambda>p. if i_size p < off + n then p\<lparr>i_size := off + n\<rparr> else p) t = Ok () v"
      by (simp add: upd_inode_def modifyK_def v_def p_def)
    ultimately show ?thesis using t(1) u(1) by (simp add: writei_def get_inode_def run_simps bindK_Ok [of "writei_loop _ _ _ _", OF t(1)] K_defs cong: if_cong)
  qed
  moreover have "ln u \<le> int (card ?G + ?N + 2)"
  proof -
    have "logged u \<subseteq> insert ?ib (?G \<union> X \<union> ({ind_addr t ip} - {0}))" using u(4) t(7) by auto
    from ln_le [OF u(2) this] \<open>card (?G \<union> X \<union> ({ind_addr t ip} - {0})) \<le> card ?G + ?N + 1\<close> card_insert_le_m1
    show ?thesis using t(5) by (simp add: card_insert_if split: if_splits)
  qed
  moreover have "get_dinode (cont u ?ib) (dinode_off (i_num (itab s ip))) (itab u ip) = itab u ip"
  proof -
    have "dinode_off (i_num p) + 64 \<le> length (cont t ?ib)" using mod_less_divisor [of IPB "unat (i_num p)"] txn_len [OF td(1)] by (simp add: dinode_off_def)
    then show ?thesis using get_put_dinode [of "dinode_off (i_num p)" "cont t ?ib" p "itab u ip"] p(2,3) file_okD(2) [OF td(3)] by (simp add: u(5) ui)
  qed
  moreover have "\<forall>j. j \<noteq> ip \<longrightarrow> itab u j = itab s j" using td(5) by (metis fun_upd_other ui)
  ultimately show ?thesis using u(2) cu by blast
qed

section \<open>Properties\<close>

text \<open>The part of a list of bytes a read of \<open>n\<close> bytes at \<open>off\<close> returns.\<close>

definition slice :: "bytes \<Rightarrow> u32 \<Rightarrow> u32 \<Rightarrow> bytes" where
  "slice c off n = (if off \<le> off + n then take (unat n) (drop (unat off) c) else [])"

definition demo_inode :: inode where
  "demo_inode = \<lparr>i_dev = ROOTDEV, i_num = 2, i_ref = 1, i_valid = True, i_type = T_FILE, i_major = 0, i_minor = 0, i_nlink = 1, i_size = 0,
     i_addrs = replicate 13 0\<rparr>"

lemma demo_regular:
  "\<exists>s. binit (demo_fs demo_disk (\<lambda>_. demo_inode)) = Ok () s \<and> txn {} s \<and> regular s 0 \<and> itab s = (\<lambda>_. demo_inode) \<and> ln s = 0
     \<and> card (bitmap_blocks (sblk s) \<union> logged s) = 1 \<and> card (bitmap_blocks (sblk s)) = 1 \<and> 8 \<le> card (free_blocks s)"
proof -
  obtain s where s: "binit (demo_fs demo_disk (\<lambda>_. demo_inode)) = Ok () s" "txn {} s" "sblk s = demo_sb" "itab s = (\<lambda>_. demo_inode)" "lstart s = 2"
     "ln s = 0" "logged s = {}" "free_blocks s = {46..<2000}" "bitmap_blocks (sblk s) = {45}" "bm_geom s" "cont s = demo_disk"
    using demo_start by blast
  have z: "fptr s 0 i = 0" if "i \<le> MAXFILE" for i
    using that by (auto simp: fptr_def baddr_def ind_addr_def s(4) demo_inode_def nth_replicate)
  then have fb: "file_blocks s 0 = {}" by (auto simp: file_blocks_def)
  have ok: "file_ok s 0" using s(8) z unfolding file_ok_def fb by (auto simp: s(4) demo_inode_def)
  have ib: "IBLOCK (i_num (itab s 0)) (sblk s) = 32" by (simp add: s(3,4) IBLOCK_def demo_sb_def demo_inode_def)
  have "regular s 0" unfolding regular_def ib s(9,8) fb using ok s(10) by (simp add: s(4,5) demo_inode_def no_holes_def demo_home)
  moreover have "of_nat ` {46..53} \<subseteq> free_blocks s" by (auto simp: s(8) word_le_nat_alt word_less_nat_alt of_nat32)
  then have "card (of_nat ` {46..53 :: nat} :: u32 set) \<le> card (free_blocks s)" by (rule card_mono [rotated]) simp
  moreover have "card (of_nat ` {46..53 :: nat} :: u32 set) = 8" by (subst card_image) (auto simp: inj_on_def word_unat_eq_iff of_nat32)
  ultimately show ?thesis using s by auto
qed

text \<open>C17. \<open>readi\<close> returns a slice of the contents of the file: the bytes from the offset on, as many as
  are asked for and as the file has, nothing when the range wraps around; it changes no block and
  no inode.\<close>

theorem readi_slice:
  fixes s :: "'z fs_state_scheme"
  assumes "txn {} s" "regular s ip"
  shows "\<exists>u. readi ip (VarA ds) off n s = Ok (int (length (slice (contents s ip) off n)), slice (contents s ip) off n) u
     \<and> txn {} u \<and> cont u = cont s \<and> itab u = itab s"
proof -
  obtain u where u: "readi ip (VarA ds) off n s =
       Ok (int (length (take (unat n) (drop (unat off) (contents s ip)))) * of_bool (off \<le> off + n),
           if off \<le> off + n then take (unat n) (drop (unat off) (contents s ip)) else []) u" "txn {} u" "tframe s u" "cont u = cont s"
    using readi_ok [OF assms(1,2), of ds off n] by blast
  moreover have "int (length (take (unat n) (drop (unat off) (contents s ip)))) * of_bool (off \<le> off + n) = int (length (slice (contents s ip) off n))"
    by (simp add: slice_def)
  ultimately show ?thesis using tframe_eq(2) [OF u(3)] unfolding slice_def [symmetric] by auto
qed

theorem readi_slice_witness:
  "\<exists>s u. binit (demo_fs demo_disk (\<lambda>_. demo_inode)) = Ok () s \<and> readi 0 (VarA []) 0 16 s = Ok (0, []) u"
proof -
  obtain s where s: "binit (demo_fs demo_disk (\<lambda>_. demo_inode)) = Ok () s" "txn {} s" "regular s 0" "itab s = (\<lambda>_. demo_inode)" using demo_regular by blast
  have "contents s 0 = []" by (simp add: contents_def s(4) demo_inode_def)
  then show ?thesis using readi_slice [OF s(2,3), of "[]" 0 16] s(1) by (auto simp: slice_def)
qed

text \<open>C16. \<open>writei\<close> splices the bytes into the contents of the file, extending it when the range ends
  past its end and allocating the blocks it needs; the file stays well formed, the inode on disk is
  the one in memory, and no other inode in memory changes.\<close>

theorem writei_splices:
  fixes s :: "'z fs_state_scheme" and off n :: u32
  assumes "txn {} s" "regular s ip" "off \<le> i_size (itab s ip)" "length bs = unat n" "unat off + unat n \<le> MAXFILE * BSIZE"
    and "card (bitmap_blocks (sblk s) \<union> logged s) + blocks_of (unat off) (unat n) + 5 < LOGSIZE - 1"
      "2 * blocks_of (unat off) (unat n) \<le> card (free_blocks s)"
  shows "\<exists>u. writei ip (VarA bs) off n s = Ok (int (unat n)) u \<and> txn {} u \<and> regular u ip
     \<and> contents u ip = put_bytes (contents s ip) (unat off) bs
     \<and> get_dinode (cont u (IBLOCK (i_num (itab s ip)) (sblk s))) (dinode_off (i_num (itab s ip))) (itab u ip) = itab u ip
     \<and> (\<forall>j. j \<noteq> ip \<longrightarrow> itab u j = itab s j)"
  using writei_ok [OF assms] by blast

theorem writei_splices_witness:
  "\<exists>s u. binit (demo_fs demo_disk (\<lambda>_. demo_inode)) = Ok () s \<and> writei 0 (VarA [1, 2, 3]) 0 3 s = Ok 3 u \<and> contents u 0 = [1, 2, 3]"
proof -
  obtain s where s: "binit (demo_fs demo_disk (\<lambda>_. demo_inode)) = Ok () s" "txn {} s" "regular s 0" "itab s = (\<lambda>_. demo_inode)"
     "card (bitmap_blocks (sblk s) \<union> logged s) = 1" "8 \<le> card (free_blocks s)" using demo_regular by blast
  have "contents s 0 = []" by (simp add: contents_def s(4) demo_inode_def)
  then show ?thesis using writei_splices [OF s(2,3), of 0 "[1, 2, 3]" 3] s(1,5,6) by (auto simp: blocks_of_def put_bytes_def)
qed

text \<open>C18. What \<open>writei\<close> has written to a file, \<open>readi\<close> reads back.\<close>

theorem writei_readi:
  fixes s :: "'z fs_state_scheme" and off n :: u32
  assumes "txn {} s" "regular s ip" "off \<le> i_size (itab s ip)" "length bs = unat n" "unat off + unat n \<le> MAXFILE * BSIZE"
    and "card (bitmap_blocks (sblk s) \<union> logged s) + blocks_of (unat off) (unat n) + 5 < LOGSIZE - 1"
      "2 * blocks_of (unat off) (unat n) \<le> card (free_blocks s)"
  shows "\<exists>t u. writei ip (VarA bs) off n s = Ok (int (unat n)) t \<and> readi ip (VarA ds) off n t = Ok (int (unat n), bs) u"
proof -
  obtain t where t: "writei ip (VarA bs) off n s = Ok (int (unat n)) t" "txn {} t" "regular t ip" "contents t ip = put_bytes (contents s ip) (unat off) bs"
    using writei_ok [OF assms] by blast
  have "unat (off + n) = unat off + unat n" using assms(5) by (simp add: unat_plus_if')
  then have le: "off \<le> off + n" by (simp add: word_le_nat_alt)
  have "take (unat n) (drop (unat off) (contents t ip)) = bs" using assms(3,4) by (simp add: t(4) put_bytes_def word_le_nat_alt)
  then show ?thesis using t(1) readi_ok [OF t(2,3), of ds off n] le assms(4) by auto
qed

theorem writei_readi_witness:
  "\<exists>s t u. binit (demo_fs demo_disk (\<lambda>_. demo_inode)) = Ok () s \<and> writei 0 (VarA [1, 2, 3]) 0 3 s = Ok 3 t
     \<and> readi 0 (VarA []) 0 3 t = Ok (3, [1, 2, 3]) u"
proof -
  obtain s where s: "binit (demo_fs demo_disk (\<lambda>_. demo_inode)) = Ok () s" "txn {} s" "regular s 0" "itab s = (\<lambda>_. demo_inode)"
     "card (bitmap_blocks (sblk s) \<union> logged s) = 1" "8 \<le> card (free_blocks s)" using demo_regular by blast
  then show ?thesis using writei_readi [OF s(2,3), of 0 "[1, 2, 3]" 3 "[]"] by (auto simp: blocks_of_def)
qed



end
