(* ===== verification/User.thy ===== *)
theory User
  imports Console
begin

text \<open>
  User programs.  A process sees the kernel through its system calls: a program is run against the
  list of the replies the kernel gives, and the run records the requests it makes.  A run ends with a
  value; when the process is gone, because it has exited or has replaced itself by another program;
  when it waits for a reply the list does not have; or in undefined behaviour.  What a program does
  in both processes after \<^verbatim>\<open>fork\<close> is what it does for the two replies.  A C string is the list of its
  bytes without the terminating NUL.

  This theory has the requests, \<^verbatim>\<open>user/ulib.c\<close> and \<^verbatim>\<open>user/printf.c\<close>.
\<close>

section \<open>Requests and replies\<close>

datatype sysreq =
    QFork | QExit int | QWait | QPipe | QRead int nat | QWrite int bytes | QClose int | QKill int
  | QExec bytes "bytes list" | QOpen bytes u32 | QMknod bytes int int | QUnlink bytes | QFstat int
  | QLink bytes bytes | QMkdir bytes | QChdir bytes | QDup int | QGetpid | QSbrk int | QSleep int | QUptime

text \<open>\<open>RData\<close> is the reply to a \<^verbatim>\<open>read\<close> that has returned these bytes.\<close>

datatype reply = RInt int | RData bytes | RPipe int int | RStat stat

record io =
  ins :: "reply list"
  outs :: "sysreq list"

datatype ('a, 's) run = Done 'a 's | Gone 's | Waits 's | Undef

type_synonym ('s, 'a) U = "'s \<Rightarrow> ('a, 's) run"

definition retU :: "'a \<Rightarrow> ('s, 'a) U" where
  "retU a = (\<lambda>s. Done a s)"

definition bindU :: "('s, 'a) U \<Rightarrow> ('a \<Rightarrow> ('s, 'b) U) \<Rightarrow> ('s, 'b) U" where
  "bindU m f = (\<lambda>s. case m s of Done a t \<Rightarrow> f a t | Gone t \<Rightarrow> Gone t | Waits t \<Rightarrow> Waits t | Undef \<Rightarrow> Undef)"

definition thenU :: "('s, 'a) U \<Rightarrow> ('s, 'b) U \<Rightarrow> ('s, 'b) U" where
  "thenU m n = bindU m (\<lambda>_. n)"

primrec seqU :: "('s, unit) U list \<Rightarrow> ('s, unit) U" where
  "seqU [] = retU ()"
| "seqU (m # ms) = thenU m (seqU ms)"

primrec forU :: "'i list \<Rightarrow> ('i \<Rightarrow> ('s, unit) U) \<Rightarrow> ('s, unit) U" where
  "forU [] body = retU ()"
| "forU (i # is) body = thenU (body i) (forU is body)"

definition whenU :: "bool \<Rightarrow> ('s, unit) U \<Rightarrow> ('s, unit) U" where
  "whenU b m = (if b then m else retU ())"

definition undefU :: "('s, 'a) U" where
  "undefU = (\<lambda>s. Undef)"

named_theorems U_defs \<open>definitions of the primitive operations of user programs\<close>

declare retU_def [U_defs] bindU_def [U_defs] thenU_def [U_defs] whenU_def [U_defs] undefU_def [U_defs]

text \<open>A system call asks the kernel and takes its next reply.\<close>

definition sysU :: "sysreq \<Rightarrow> ('z io_scheme, reply) U" where
  "sysU q = (\<lambda>s. case ins s of
       [] \<Rightarrow> Waits (s\<lparr>outs := outs s @ [q]\<rparr>)
     | r # rs \<Rightarrow> Done r (s\<lparr>ins := rs, outs := outs s @ [q]\<rparr>))"

definition reply_value :: "reply \<Rightarrow> int" where
  "reply_value r = (case r of RInt n \<Rightarrow> n | RData bs \<Rightarrow> int (length bs) | RPipe _ _ \<Rightarrow> 0 | RStat _ \<Rightarrow> 0)"

definition call :: "sysreq \<Rightarrow> ('z io_scheme, int) U" where
  "call q = bindU (sysU q) (\<lambda>r. retU (reply_value r))"

definition exitU :: "int \<Rightarrow> ('z io_scheme, 'a) U" where
  "exitU n = (\<lambda>s. Gone (s\<lparr>outs := outs s @ [QExit n]\<rparr>))"

text \<open>\<^verbatim>\<open>exec\<close> returns only when it fails.\<close>

definition execU :: "bytes \<Rightarrow> bytes list \<Rightarrow> ('z io_scheme, unit) U" where
  "execU path args = bindU (call (QExec path args)) (\<lambda>r. if r < 0 then retU () else (\<lambda>s. Gone s))"

text \<open>\<^verbatim>\<open>read\<close> gives the returned count and the bytes now in the buffer, at most as many as were asked for.\<close>

definition readU :: "int \<Rightarrow> nat \<Rightarrow> ('z io_scheme, int \<times> bytes) U" where
  "readU fd n = bindU (sysU (QRead fd n)) (\<lambda>r.
     retU (case r of RData bs \<Rightarrow> (int (length (take n bs)), take n bs) | _ \<Rightarrow> (- 1, [])))"

definition writeU :: "int \<Rightarrow> bytes \<Rightarrow> ('z io_scheme, int) U" where
  "writeU fd bs = call (QWrite fd bs)"

definition statU :: "int \<Rightarrow> ('z io_scheme, stat option) U" where
  "statU fd = bindU (sysU (QFstat fd)) (\<lambda>r. retU (case r of RStat st \<Rightarrow> Some st | _ \<Rightarrow> None))"

lemma bindU_Done: "m s = Done a t \<Longrightarrow> bindU m f s = f a t"
  by (simp add: bindU_def)

lemma thenU_Done: "m s = Done a t \<Longrightarrow> thenU m n s = n t"
  by (simp add: thenU_def bindU_def)

section \<open>Loops\<close>

text \<open>
  A loop whose body gives its result or the value for the next round.  The loops of the programs make
  a system call in every round, so as many rounds as there are replies are enough: \<open>loopU_unfold\<close>.
\<close>

primrec iterU :: "nat \<Rightarrow> ('a \<Rightarrow> ('s, 'b + 'a) U) \<Rightarrow> 'a \<Rightarrow> ('s, 'b) U" where
  "iterU 0 body a = undefU"
| "iterU (Suc n) body a = bindU (body a) (case_sum retU (iterU n body))"

definition loopU :: "('a \<Rightarrow> ('z io_scheme, 'b + 'a) U) \<Rightarrow> 'a \<Rightarrow> ('z io_scheme, 'b) U" where
  "loopU body a = (\<lambda>s. iterU (Suc (length (ins s))) body a s)"

definition again :: "'a \<Rightarrow> ('s, 'b + 'a) U" where
  "again a = retU (Inr a)"

definition break :: "'b \<Rightarrow> ('s, 'b + 'a) U" where
  "break b = retU (Inl b)"

definition shrinks :: "('z io_scheme, 'a) U \<Rightarrow> bool" where
  "shrinks m \<longleftrightarrow> (\<forall>s x t. m s = Done x t \<longrightarrow> length (ins t) \<le> length (ins s))"

definition consumes :: "('z io_scheme, 'a) U \<Rightarrow> bool" where
  "consumes m \<longleftrightarrow> (\<forall>s x t. m s = Done x t \<longrightarrow> length (ins t) < length (ins s))"

named_theorems shrinks_rules \<open>operations that make no reply\<close>

lemma consumes_sys [shrinks_rules]: "consumes (sysU q)"
  by (auto simp: consumes_def sysU_def split: list.splits)

lemma shrinks_consumes: "consumes m \<Longrightarrow> shrinks m"
  by (auto simp: consumes_def shrinks_def intro: less_imp_le)

lemma shrinks_none [shrinks_rules]: "shrinks (retU a)" "shrinks (exitU n)" "shrinks undefU" "shrinks (again c)" "shrinks (break d)"
  by (auto simp: shrinks_def exitU_def again_def break_def U_defs)

lemma shrinks_bind [shrinks_rules]: "shrinks m \<Longrightarrow> (\<And>a. shrinks (f a)) \<Longrightarrow> shrinks (bindU m f)"
  unfolding shrinks_def bindU_def by (auto split: run.splits) (meson order_trans)

lemma consumes_bind: "consumes m \<Longrightarrow> (\<And>a. shrinks (f a)) \<Longrightarrow> consumes (bindU m f)"
  unfolding shrinks_def consumes_def bindU_def by (auto split: run.splits) (meson le_less_trans)

lemma consumes_bind_right: "shrinks m \<Longrightarrow> (\<And>a. consumes (f a)) \<Longrightarrow> consumes (bindU m f)"
  unfolding shrinks_def consumes_def bindU_def by (auto split: run.splits) (meson less_le_trans)

lemma shrinks_then [shrinks_rules]: "shrinks m \<Longrightarrow> shrinks n \<Longrightarrow> shrinks (thenU m n)"
  unfolding thenU_def by (rule shrinks_bind)

lemma consumes_then: "consumes m \<Longrightarrow> shrinks n \<Longrightarrow> consumes (thenU m n)"
  unfolding thenU_def by (rule consumes_bind)

lemma consumes_then_right: "shrinks m \<Longrightarrow> consumes n \<Longrightarrow> consumes (thenU m n)"
  unfolding thenU_def by (rule consumes_bind_right)

lemma consumes_calls [shrinks_rules]: "consumes (call q)" "consumes (readU fd n)" "consumes (writeU fd bs)" "consumes (statU fd)"
  unfolding call_def readU_def writeU_def statU_def by (intro consumes_bind shrinks_rules)+

lemma shrinks_calls [shrinks_rules]: "shrinks (call q)" "shrinks (readU fd n)" "shrinks (writeU fd bs)" "shrinks (statU fd)"
  by (simp_all add: consumes_calls shrinks_consumes)

lemma shrinks_exec [shrinks_rules]: "shrinks (execU path args)"
  unfolding execU_def by (intro shrinks_rules) (simp add: shrinks_def U_defs)

lemma shrinks_for [shrinks_rules]: "(\<And>i. shrinks (body i)) \<Longrightarrow> shrinks (forU is body)"
  by (induction "is") (auto intro: shrinks_rules)

lemma shrinks_when [shrinks_rules]: "shrinks m \<Longrightarrow> shrinks (whenU b m)"
  by (auto simp: whenU_def intro: shrinks_rules)

lemma iterU_enough:
  assumes "\<And>a. consumes (body a)"
  shows "length (ins s) < n \<Longrightarrow> length (ins s) < m \<Longrightarrow> iterU n body a s = iterU m body a s"
proof (induction n arbitrary: m a s)
  case (Suc n)
  then obtain k where m: "m = Suc k"
    by (cases m) auto
  show ?case
  proof (cases "body a s")
    case (Done r t)
    then have "length (ins t) < length (ins s)"
      using assms by (simp add: consumes_def)
    with Suc.prems m have "iterU n body a' t = iterU k body a' t" for a'
      by (intro Suc.IH) auto
    with Done m show ?thesis
      by (cases r) (simp_all add: bindU_def)
  qed (simp_all add: m bindU_def)
qed simp

lemma loopU_unfold:
  assumes "\<And>a. consumes (body a)"
  shows "loopU body a = bindU (body a) (case_sum retU (loopU body))"
proof
  fix s
  show "loopU body a s = bindU (body a) (case_sum retU (loopU body)) s"
  proof (cases "body a s")
    case (Done r t)
    then have "length (ins t) < length (ins s)"
      using assms by (simp add: consumes_def)
    then have "iterU (length (ins s)) body a' t = loopU body a' t" for a'
      unfolding loopU_def by (intro iterU_enough assms) auto
    with Done show ?thesis
      by (cases r) (simp_all add: loopU_def bindU_def)
  qed (simp_all add: loopU_def bindU_def)
qed

lemma shrinks_loop [shrinks_rules]:
  assumes "\<And>a. shrinks (body a)"
  shows "shrinks (loopU body a)"
proof -
  have "shrinks (iterU n body a)" for n
    by (induction n arbitrary: a) (auto intro!: shrinks_rules assms split: sum.splits)
  then show ?thesis
    by (simp add: shrinks_def loopU_def del: iterU.simps)
qed

section \<open>The library\<close>

text \<open>The bytes \<open>strcpy\<close> writes, the NUL included.\<close>

fun strcpy :: "bytes \<Rightarrow> bytes" where
  "strcpy [] = [0]"
| "strcpy (c # t) = (if c = 0 then [0] else c # strcpy t)"

fun strcmp :: "bytes \<Rightarrow> bytes \<Rightarrow> int" where
  "strcmp [] q = 0 - uint (deref q)"
| "strcmp (c # p) q = (if c \<noteq> 0 \<and> c = deref q then strcmp p (tl q) else uint c - uint (deref q))"

definition strlen_u :: "bytes \<Rightarrow> u32" where
  "strlen_u s = of_nat (strlen s)"

definition memset_u :: "mem \<Rightarrow> u64 \<Rightarrow> u32 \<Rightarrow> u32 \<Rightarrow> mem" where
  "memset_u m dst c n = memset_loop m dst (ucast c) 0 (unat n)"

definition memcmp_u :: "mem \<Rightarrow> u64 \<Rightarrow> u64 \<Rightarrow> u32 \<Rightarrow> int" where
  "memcmp_u m s1 s2 n = memcmp m s1 s2 (unat n)"

text \<open>The string from the first occurrence of the character on.\<close>

fun strchr :: "bytes \<Rightarrow> u8 \<Rightarrow> bytes option" where
  "strchr [] c = None"
| "strchr (x # s) c = (if x = 0 then None else if x = c then Some (x # s) else strchr s c)"

text \<open>The loop of \<open>gets\<close>; \<open>k\<close> is how many bytes the buffer still has room for, besides the NUL.\<close>

primrec gets_loop :: "nat \<Rightarrow> ('z io_scheme, bytes) U" where
  "gets_loop 0 = retU []"
| "gets_loop (Suc k) =
     bindU (readU 0 1) (\<lambda>(cc, bs).
     if cc < 1 then retU []
     else if hd bs = newline \<or> hd bs = 13 then retU [hd bs]
     else bindU (gets_loop k) (\<lambda>cs. retU (hd bs # cs)))"

definition gets :: "nat \<Rightarrow> ('z io_scheme, bytes) U" where
  "gets m = gets_loop (m - 1)"

definition stat_u :: "bytes \<Rightarrow> ('z io_scheme, stat option) U" where
  "stat_u n =
     bindU (call (QOpen n O_RDONLY)) (\<lambda>fd.
     if fd < 0 then retU None
     else bindU (statU fd) (\<lambda>r. thenU (call (QClose fd)) (retU r)))"

text \<open>\<^verbatim>\<open>int\<close> arithmetic that wraps around.\<close>

function atoi_loop :: "bytes \<Rightarrow> u32 \<Rightarrow> u32" where
  "atoi_loop s n =
     (if of_char (CHR ''0'') \<le> deref s \<and> deref s \<le> of_char (CHR ''9'')
      then atoi_loop (tl s) (n * 10 + ucast (deref s) - of_char (CHR ''0'')) else n)"
  by pat_completeness auto
termination
  by (relation "measure (\<lambda>(s, n). length s)") (auto simp: deref_def split: list.splits)

declare atoi_loop.simps [simp del]

definition atoi :: "bytes \<Rightarrow> int" where
  "atoi s = sint (atoi_loop s 0)"

text \<open>The blocks of \<open>memmove\<close> may overlap; \<open>copy_fwd\<close> and \<open>copy_bwd\<close> are its two loops.\<close>

definition memmove_u :: "mem \<Rightarrow> u64 \<Rightarrow> u64 \<Rightarrow> int \<Rightarrow> mem" where
  "memmove_u m dst src n =
     (if dst < src then copy_fwd m dst src (nat n)
      else copy_bwd m (dst + word_of_int n) (src + word_of_int n) (nat n))"

definition memcpy_u :: "mem \<Rightarrow> u64 \<Rightarrow> u64 \<Rightarrow> u32 \<Rightarrow> mem" where
  "memcpy_u m dst src n = memmove_u m dst src (sint n)"

section \<open>Formatted output\<close>

definition udigits :: bytes where
  "udigits = str ''0123456789ABCDEF''"

definition putc_u :: "int \<Rightarrow> u8 \<Rightarrow> ('z io_scheme, unit) U" where
  "putc_u fd c = thenU (writeU fd [c]) (retU ())"

text \<open>The digits, the least significant one first.\<close>

function uint_digits :: "u32 \<Rightarrow> u32 \<Rightarrow> bytes" where
  "uint_digits x b =
     (let d = udigits ! unat (x mod b) in
      if x div b = 0 \<or> b < 2 then [d] else d # uint_digits (x div b) b)"
  by pat_completeness auto
termination
  by (relation "measure (\<lambda>(x, b). unat x)")
    (auto simp: unat_div not_less word_le_nat_alt word_less_nat_alt unat_eq_0 intro!: div_less_dividend gr_zeroI)

declare uint_digits.simps [simp del]

definition printint_u :: "int \<Rightarrow> u32 \<Rightarrow> u32 \<Rightarrow> bool \<Rightarrow> ('z io_scheme, unit) U" where
  "printint_u fd xx b sg =
     (let neg = (sg \<and> sint xx < 0);
          x = (if neg then - xx else xx);
          buf = uint_digits x b @ (if neg then str ''-'' else []) in
      forU (rev buf) (putc_u fd))"

definition printptr_u :: "int \<Rightarrow> u64 \<Rightarrow> ('z io_scheme, unit) U" where
  "printptr_u fd x =
     thenU (putc_u fd (of_char (CHR ''0'')))
     (thenU (putc_u fd (of_char (CHR ''x'')))
     (forU [0..<16] (\<lambda>i. putc_u fd (udigits ! unat (drop_bit 60 (push_bit (4 * i) x))))))"

text \<open>An argument is passed in a 64-bit register; taking it as an \<^verbatim>\<open>int\<close> takes its low half.\<close>

datatype uarg = UInt u32 | ULong u64 | UStr "bytes option"

definition arg_int :: "uarg list \<Rightarrow> (u32 \<Rightarrow> ('s, unit) U) \<Rightarrow> ('s, unit) U" where
  "arg_int ap f = (case ap of UInt x # _ \<Rightarrow> f x | ULong x # _ \<Rightarrow> f (ucast x) | _ \<Rightarrow> undefU)"

definition arg_long :: "uarg list \<Rightarrow> (u64 \<Rightarrow> ('s, unit) U) \<Rightarrow> ('s, unit) U" where
  "arg_long ap f = (case ap of ULong x # _ \<Rightarrow> f x | _ \<Rightarrow> undefU)"

definition arg_str :: "uarg list \<Rightarrow> (bytes \<Rightarrow> ('s, unit) U) \<Rightarrow> ('s, unit) U" where
  "arg_str ap f = (case ap of UStr x # _ \<Rightarrow> f (case x of None \<Rightarrow> str ''(null)'' | Some s \<Rightarrow> s) | _ \<Rightarrow> undefU)"

text \<open>The loop of \<open>vprintf\<close>; \<open>pc\<close> is its state, true after a percent sign.\<close>

fun vprintf_loop :: "int \<Rightarrow> bool \<Rightarrow> bytes \<Rightarrow> uarg list \<Rightarrow> ('z io_scheme, unit) U" where
  "vprintf_loop fd pc [] ap = retU ()"
| "vprintf_loop fd False (c # fmt) ap =
     (if c = 0 then retU ()
      else if c = of_char (CHR ''%'') then vprintf_loop fd True fmt ap
      else thenU (putc_u fd c) (vprintf_loop fd False fmt ap))"
| "vprintf_loop fd True (c # fmt) ap =
     (if c = 0 then retU ()
      else if c = of_char (CHR ''d'') then thenU (arg_int ap (\<lambda>x. printint_u fd x 10 True)) (vprintf_loop fd False fmt (tl ap))
      else if c = of_char (CHR ''l'') then thenU (arg_long ap (\<lambda>x. printint_u fd (ucast x) 10 False)) (vprintf_loop fd False fmt (tl ap))
      else if c = of_char (CHR ''x'') then thenU (arg_int ap (\<lambda>x. printint_u fd x 16 False)) (vprintf_loop fd False fmt (tl ap))
      else if c = of_char (CHR ''p'') then thenU (arg_long ap (printptr_u fd)) (vprintf_loop fd False fmt (tl ap))
      else if c = of_char (CHR ''s'') then thenU (arg_str ap (\<lambda>s. forU (cstr s) (putc_u fd))) (vprintf_loop fd False fmt (tl ap))
      else if c = of_char (CHR ''c'') then thenU (arg_int ap (\<lambda>x. putc_u fd (ucast x))) (vprintf_loop fd False fmt (tl ap))
      else if c = of_char (CHR ''%'') then thenU (putc_u fd c) (vprintf_loop fd False fmt ap)
      else thenU (thenU (putc_u fd (of_char (CHR ''%''))) (putc_u fd c)) (vprintf_loop fd False fmt ap))"

definition fprintf :: "int \<Rightarrow> bytes \<Rightarrow> uarg list \<Rightarrow> ('z io_scheme, unit) U" where
  "fprintf fd fmt ap = vprintf_loop fd False fmt ap"

definition printf_u :: "bytes \<Rightarrow> uarg list \<Rightarrow> ('z io_scheme, unit) U" where
  "printf_u fmt ap = vprintf_loop 1 False fmt ap"

lemma shrinks_putc [shrinks_rules]: "shrinks (putc_u fd c)"
  unfolding putc_u_def by (intro shrinks_rules)

lemma shrinks_if [shrinks_rules]: "(b \<Longrightarrow> shrinks m) \<Longrightarrow> (\<not> b \<Longrightarrow> shrinks n) \<Longrightarrow> shrinks (if b then m else n)"
  by simp

lemma shrinks_cases [shrinks_rules]:
  shows "(\<And>x y. p = (x, y) \<Longrightarrow> shrinks (f x y)) \<Longrightarrow> shrinks (case p of (x, y) \<Rightarrow> f x y)"
    "(q = None \<Longrightarrow> shrinks m) \<Longrightarrow> (\<And>x. q = Some x \<Longrightarrow> shrinks (g x)) \<Longrightarrow> shrinks (case q of None \<Rightarrow> m | Some x \<Rightarrow> g x)"
  by (auto split: prod.splits option.splits)

lemma shrinks_args [shrinks_rules]:
  shows "(\<And>x. shrinks (f x)) \<Longrightarrow> shrinks (arg_int ap f)" "(\<And>x. shrinks (g x)) \<Longrightarrow> shrinks (arg_long ap g)"
    "(\<And>x. shrinks (h x)) \<Longrightarrow> shrinks (arg_str ap h)"
  by (auto simp: arg_int_def arg_long_def arg_str_def intro: shrinks_none split: list.splits uarg.splits)

lemma shrinks_numbers [shrinks_rules]: "shrinks (printint_u fd xx b sg)" "shrinks (printptr_u fd y)"
  unfolding printint_u_def printptr_u_def Let_def by (intro shrinks_rules)+

lemma shrinks_printf [shrinks_rules]: "shrinks (fprintf fd fmt ap)" "shrinks (printf_u fmt ap)"
proof -
  have "shrinks (vprintf_loop fd pc fmt ap)" for fd pc fmt ap
  proof (induction fmt arbitrary: pc ap)
    case (Cons c fmt)
    show ?case
      by (cases pc; simp only: vprintf_loop.simps; intro shrinks_rules Cons)
  qed (simp add: shrinks_rules)
  then show "shrinks (fprintf fd fmt ap)" "shrinks (printf_u fmt ap)"
    by (simp_all add: fprintf_def printf_u_def)
qed

lemma shrinks_lib [shrinks_rules]: "shrinks (gets m)" "shrinks (stat_u n)"
proof -
  have "shrinks (gets_loop k)" for k
    by (induction k) (auto intro!: shrinks_rules)
  then show "shrinks (gets m)"
    by (simp add: gets_def)
  show "shrinks (stat_u n)"
    unfolding stat_u_def by (auto intro!: shrinks_rules)
qed

end
