(* ===== verification/Grep.thy ===== *)
theory Grep
  imports Strings
begin

text \<open>
  The pattern matcher of \<^verbatim>\<open>user/grep.c\<close>, and its meaning: a pattern denotes a set of strings, and
  \<open>match\<close> decides whether a part of the text is one of them.
\<close>

section \<open>The matcher\<close>

abbreviation "ch_hat \<equiv> 94 :: u8"
abbreviation "ch_star \<equiv> 42 :: u8"
abbreviation "ch_dollar \<equiv> 36 :: u8"
abbreviation "ch_dot \<equiv> 46 :: u8"

lemma deref_nonempty: "deref s \<noteq> 0 \<Longrightarrow> length (tl s) < length s"
  by (cases s) simp_all

function (sequential) matchhere :: "bytes \<Rightarrow> bytes \<Rightarrow> bool" and matchstar :: "u8 \<Rightarrow> bytes \<Rightarrow> bytes \<Rightarrow> bool" where
  "matchhere re t =
     (if deref re = 0 then True
      else if deref (tl re) = ch_star then matchstar (deref re) (tl (tl re)) t
      else if deref re = ch_dollar \<and> deref (tl re) = 0 then deref t = 0
      else if deref t \<noteq> 0 \<and> (deref re = ch_dot \<or> deref re = deref t) then matchhere (tl re) (tl t)
      else False)"
| "matchstar c re t =
     (if matchhere re t then True
      else if deref t \<noteq> 0 \<and> (deref t = c \<or> c = ch_dot) then matchstar c re (tl t)
      else False)"
  by pat_completeness auto
termination
  by (relation "measures [\<lambda>x. case x of Inl (re, t) \<Rightarrow> 2 * length re | Inr (c, re, t) \<Rightarrow> 2 * length re + 1,
        \<lambda>x. case x of Inl (re, t) \<Rightarrow> length t | Inr (c, re, t) \<Rightarrow> length t]")
    (auto dest: deref_nonempty)

declare matchhere.simps [simp del] matchstar.simps [simp del]

text \<open>The loop of \<open>match\<close> looks at the empty rest of the text too.\<close>

fun match_from :: "bytes \<Rightarrow> bytes \<Rightarrow> bool" where
  "match_from re [] = matchhere re []"
| "match_from re (x # t) = (matchhere re (x # t) \<or> x \<noteq> 0 \<and> match_from re t)"

definition match :: "bytes \<Rightarrow> bytes \<Rightarrow> bool" where
  "match re t = (if deref re = ch_hat then matchhere (tl re) t else match_from re t)"

section \<open>What a pattern means\<close>

datatype piece = Chr u8 | Rep u8

text \<open>The pieces of a pattern, and whether it ends with \<^verbatim>\<open>$\<close>.\<close>

function pieces :: "bytes \<Rightarrow> piece list" where
  "pieces re =
     (if deref re = 0 then []
      else if deref (tl re) = ch_star then Rep (deref re) # pieces (tl (tl re))
      else if deref re = ch_dollar \<and> deref (tl re) = 0 then []
      else Chr (deref re) # pieces (tl re))"
  by pat_completeness auto
termination
  by (relation "measure length") (auto dest: deref_nonempty)

function to_end :: "bytes \<Rightarrow> bool" where
  "to_end re =
     (if deref re = 0 then False
      else if deref (tl re) = ch_star then to_end (tl (tl re))
      else if deref re = ch_dollar \<and> deref (tl re) = 0 then True
      else to_end (tl re))"
  by pat_completeness auto
termination
  by (relation "measure length") (auto dest: deref_nonempty)

declare pieces.simps [simp del] to_end.simps [simp del]

definition fits :: "u8 \<Rightarrow> u8 \<Rightarrow> bool" where
  "fits c x \<longleftrightarrow> c = ch_dot \<or> c = x"

primrec lang :: "piece list \<Rightarrow> bytes set" where
  "lang [] = {[]}"
| "lang (p # ps) = (case p of
       Chr c \<Rightarrow> {x # w | x w. fits c x \<and> w \<in> lang ps}
     | Rep c \<Rightarrow> {v @ w | v w. (\<forall>x\<in>set v. fits c x) \<and> w \<in> lang ps})"

text \<open>A text starts with a string of the language, and is that string if it has to be.\<close>

definition rests :: "bool \<Rightarrow> bytes set" where
  "rests e = (if e then {[]} else UNIV)"

definition starts :: "piece list \<Rightarrow> bool \<Rightarrow> bytes \<Rightarrow> bool" where
  "starts ps e t \<longleftrightarrow> (\<exists>w b. t = w @ b \<and> w \<in> lang ps \<and> b \<in> rests e)"

lemma rests_iff: "b \<in> rests e \<longleftrightarrow> (if e then b = [] else True)"
  by (simp add: rests_def)

lemma startsI: "w \<in> lang ps \<Longrightarrow> b \<in> rests e \<Longrightarrow> t = w @ b \<Longrightarrow> starts ps e t"
  by (auto simp: starts_def)

lemma startsE: assumes "starts ps e t" obtains w b where "t = w @ b" "w \<in> lang ps" "b \<in> rests e"
  using assms by (auto simp: starts_def)

lemma lang_Chr: "u \<in> lang (Chr c # ps) \<longleftrightarrow> (\<exists>x w. u = x # w \<and> fits c x \<and> w \<in> lang ps)"
  by simp

lemma lang_Rep: "u \<in> lang (Rep c # ps) \<longleftrightarrow> (\<exists>v w. u = v @ w \<and> (\<forall>x\<in>set v. fits c x) \<and> w \<in> lang ps)"
  by simp

lemma starts_Nil: "starts [] e t \<longleftrightarrow> (e \<longrightarrow> t = [])"
  by (auto simp: starts_def rests_def)

lemma starts_Chr: "starts (Chr c # ps) e t \<longleftrightarrow> (\<exists>x u. t = x # u \<and> fits c x \<and> starts ps e u)"
proof
  assume "starts (Chr c # ps) e t"
  then show "\<exists>x u. t = x # u \<and> fits c x \<and> starts ps e u" by (rule startsE) (auto simp: lang_Chr intro: startsI simp del: lang.simps)
next
  assume "\<exists>x u. t = x # u \<and> fits c x \<and> starts ps e u"
  then obtain x w b where "t = (x # w) @ b" "fits c x" "w \<in> lang ps" "b \<in> rests e" by (auto elim!: startsE)
  then show "starts (Chr c # ps) e t" by (intro startsI [of "x # w"]) simp_all
qed

lemma starts_Rep: "starts (Rep c # ps) e t \<longleftrightarrow> starts ps e t \<or> (\<exists>x u. t = x # u \<and> fits c x \<and> starts (Rep c # ps) e u)"
proof
  assume "starts (Rep c # ps) e t"
  then obtain v w b where t: "t = (v @ w) @ b" "\<forall>x\<in>set v. fits c x" "w \<in> lang ps" "b \<in> rests e" by (auto elim!: startsE)
  show "starts ps e t \<or> (\<exists>x u. t = x # u \<and> fits c x \<and> starts (Rep c # ps) e u)"
  proof (cases v)
    case Nil
    then show ?thesis using t startsI by auto
  next
    case (Cons x v')
    then have "v' @ w \<in> lang (Rep c # ps)" using t unfolding lang_Rep by auto
    from startsI [OF this t(4) refl] show ?thesis using t Cons by auto
  qed
next
  assume "starts ps e t \<or> (\<exists>x u. t = x # u \<and> fits c x \<and> starts (Rep c # ps) e u)"
  then show "starts (Rep c # ps) e t"
  proof
    assume "starts ps e t"
    then obtain w b where t: "t = w @ b" "w \<in> lang ps" "b \<in> rests e" by (rule startsE)
    moreover have "w \<in> lang (Rep c # ps)" unfolding lang_Rep using t(2) by (intro exI [of _ "[]"] exI [of _ w]) simp
    ultimately show ?thesis by (intro startsI)
  next
    assume "\<exists>x u. t = x # u \<and> fits c x \<and> starts (Rep c # ps) e u"
    then obtain x w b where t: "t = (x # w) @ b" "fits c x" "w \<in> lang (Rep c # ps)" "b \<in> rests e" by (auto elim!: startsE simp del: lang.simps)
    from t(3) obtain v w' where "w = v @ w'" "\<forall>x\<in>set v. fits c x" "w' \<in> lang ps" unfolding lang_Rep by blast
    then have "x # w \<in> lang (Rep c # ps)" unfolding lang_Rep using t(2) by (intro exI [of _ "x # v"] exI [of _ w']) simp
    then show ?thesis using t by (intro startsI)
  qed
qed

lemma cstr_tl: "deref t \<noteq> 0 \<Longrightarrow> cstr t = deref t # cstr (tl t)"
  by (cases t) simp_all

lemma cstr_end: "cstr t = [] \<longleftrightarrow> deref t = 0"
  by (cases t) simp_all

lemma match_spec:
  "matchhere re t \<longleftrightarrow> starts (pieces re) (to_end re) (cstr t)"
  "matchstar c re t \<longleftrightarrow> starts (Rep c # pieces re) (to_end re) (cstr t)"
proof (induction re t and c re t rule: matchhere_matchstar.induct)
  case (1 re t)
  consider "deref re = 0" | "deref re \<noteq> 0" "deref (tl re) = ch_star" | "deref re \<noteq> 0" "deref (tl re) \<noteq> ch_star" "deref re = ch_dollar \<and> deref (tl re) = 0"
    | "deref re \<noteq> 0" "deref (tl re) \<noteq> ch_star" "\<not> (deref re = ch_dollar \<and> deref (tl re) = 0)" by blast
  then show ?case
  proof cases
    case 4
    then have "pieces re = Chr (deref re) # pieces (tl re)" "to_end re = to_end (tl re)" by (auto simp: pieces.simps [of re] to_end.simps [of re])
    then have s: "starts (pieces re) (to_end re) (cstr t) \<longleftrightarrow> (\<exists>x u. cstr t = x # u \<and> fits (deref re) x \<and> starts (pieces (tl re)) (to_end (tl re)) u)"
      by (simp add: starts_Chr)
    show ?thesis
    proof (cases "deref t = 0")
      case True
      then have "cstr t = []" by (simp add: cstr_end)
      then show ?thesis unfolding s using True 4 by (simp add: matchhere.simps [of re t])
    next
      case False
      have "starts (pieces re) (to_end re) (cstr t) \<longleftrightarrow> fits (deref re) (deref t) \<and> starts (pieces (tl re)) (to_end (tl re)) (cstr (tl t))"
        unfolding s unfolding cstr_tl [OF False] by simp
      moreover have "matchhere re t \<longleftrightarrow> fits (deref re) (deref t) \<and> matchhere (tl re) (tl t)"
        unfolding matchhere.simps [of re t] fits_def using 4 False by auto
      ultimately show ?thesis using 1(2) 4 False unfolding fits_def by blast
    qed
  qed (use 1(1) in \<open>auto simp: matchhere.simps [of re t] pieces.simps [of re] to_end.simps [of re] starts_Nil cstr_end cstr_tl\<close>)
next
  case (2 c re t)
  note r = starts_Rep [of c "pieces re" "to_end re" "cstr t"]
  show ?case
  proof (cases "deref t = 0")
    case True
    then have "cstr t = []" by (simp add: cstr_end)
    then show ?thesis unfolding r using True 2(1) by (simp add: matchstar.simps [of c re t])
  next
    case False
    have "starts (Rep c # pieces re) (to_end re) (cstr t) \<longleftrightarrow> starts (pieces re) (to_end re) (cstr t) \<or> fits c (deref t) \<and> starts (Rep c # pieces re) (to_end re) (cstr (tl t))"
      unfolding r unfolding cstr_tl [OF False] by simp
    moreover have "matchstar c re t \<longleftrightarrow> matchhere re t \<or> fits c (deref t) \<and> matchstar c re (tl t)"
      unfolding matchstar.simps [of c re t] fits_def using False by auto
    ultimately show ?thesis using 2 False unfolding fits_def by blast
  qed
qed

lemma match_from_spec: "match_from re t \<longleftrightarrow> (\<exists>a u. cstr t = a @ u \<and> starts (pieces re) (to_end re) u)"
proof (induction t)
  case (Cons x t)
  show ?case
  proof (cases "x = 0")
    case False
    have "(\<exists>a u. x # cstr t = a @ u \<and> starts (pieces re) (to_end re) u) \<longleftrightarrow>
        starts (pieces re) (to_end re) (x # cstr t) \<or> (\<exists>a u. cstr t = a @ u \<and> starts (pieces re) (to_end re) u)"
      by (auto simp: Cons_eq_append_conv)
    then show ?thesis using False Cons.IH by (simp add: match_spec(1))
  qed (simp add: match_spec(1))
qed (simp add: match_spec(1))

section \<open>Properties\<close>

text \<open>C31. \<open>grep\<close>'s matcher decides the language of its pattern: \<open>match\<close> is true exactly when some part of the
  text is a string of the language, at the start of the text if the pattern begins with \<^verbatim>\<open>^\<close>, and
  up to its end if the pattern ends with \<^verbatim>\<open>$\<close>.\<close>

theorem match_decides_language:
  "match re t \<longleftrightarrow>
     (let hat = (deref re = ch_hat); body = (if hat then tl re else re) in
      \<exists>a w b. cstr t = a @ w @ b \<and> w \<in> lang (pieces body) \<and> (if hat then a = [] else True) \<and> (if to_end body then b = [] else True))"
proof (cases "deref re = ch_hat")
  case True
  then show ?thesis by (simp add: match_def match_spec(1) starts_def rests_iff Let_def)
next
  case False
  then show ?thesis by (simp add: match_def match_from_spec starts_def rests_iff Let_def) blast
qed

end
