(* ===== verification/UserProgs.thy ===== *)
theory UserProgs
  imports User Grep
begin

text \<open>
  The user programs: \<^verbatim>\<open>cat\<close>, \<^verbatim>\<open>echo\<close>, \<^verbatim>\<open>wc\<close>, \<^verbatim>\<open>grep\<close>, \<^verbatim>\<open>ls\<close>, \<^verbatim>\<open>ln\<close>, \<^verbatim>\<open>rm\<close>, \<^verbatim>\<open>mkdir\<close>, \<^verbatim>\<open>kill\<close>, \<^verbatim>\<open>sleep\<close>,
  \<^verbatim>\<open>pingpong\<close>, \<^verbatim>\<open>zombie\<close> and \<^verbatim>\<open>init\<close>.  \<open>argv\<close> is the list of the arguments, the name of the program first.
\<close>

section \<open>cat and echo\<close>

definition cat_round :: "int \<Rightarrow> unit \<Rightarrow> ('z io_scheme, int + unit) U" where
  "cat_round fd _ =
     bindU (readU fd 512) (\<lambda>(n, bs).
     if n > 0 then
       bindU (writeU 1 bs) (\<lambda>w.
       if w \<noteq> n then thenU (fprintf 2 (str ''cat: write error'' @ [newline]) []) (exitU 1)
       else again ())
     else break n)"

definition cat :: "int \<Rightarrow> ('z io_scheme, unit) U" where
  "cat fd =
     bindU (loopU (cat_round fd) ()) (\<lambda>n.
     whenU (n < 0) (thenU (fprintf 2 (str ''cat: read error'' @ [newline]) []) (exitU 1)))"

definition main_cat :: "bytes list \<Rightarrow> ('z io_scheme, unit) U" where
  "main_cat argv =
     (if length argv \<le> 1 then thenU (cat 0) (exitU 0)
      else thenU (forU (tl argv) (\<lambda>a.
        bindU (call (QOpen a 0)) (\<lambda>fd.
        if fd < 0 then thenU (fprintf 2 (str ''cat: cannot open %s'' @ [newline]) [UStr (Some a)]) (exitU 1)
        else thenU (cat fd) (thenU (call (QClose fd)) (retU ()))))) (exitU 0))"

definition main_echo :: "bytes list \<Rightarrow> ('z io_scheme, unit) U" where
  "main_echo argv =
     thenU (forU [1..<length argv] (\<lambda>i.
       thenU (writeU 1 (cstr (argv ! i)))
       (thenU (if i + 1 < length argv then writeU 1 (str '' '') else writeU 1 [newline]) (retU ())))) (exitU 0)"

section \<open>wc\<close>

text \<open>The counters \<^verbatim>\<open>l\<close>, \<^verbatim>\<open>w\<close>, \<^verbatim>\<open>c\<close> and \<^verbatim>\<open>inword\<close>, and what one character does to them.\<close>

record wc_state =
  wc_l :: u32
  wc_w :: u32
  wc_c :: u32
  inword :: bool

definition wc_space :: "u8 \<Rightarrow> bool" where
  "wc_space x \<longleftrightarrow> strchr ([32, 13, 9, 10, 11]) x \<noteq> None"

definition wc_char :: "u8 \<Rightarrow> wc_state \<Rightarrow> wc_state" where
  "wc_char x k =
     (let k1 = k\<lparr>wc_c := wc_c k + 1\<rparr>;
          k2 = (if x = newline then k1\<lparr>wc_l := wc_l k1 + 1\<rparr> else k1) in
      if wc_space x then k2\<lparr>inword := False\<rparr>
      else if \<not> inword k2 then k2\<lparr>wc_w := wc_w k2 + 1, inword := True\<rparr> else k2)"

definition wc_round :: "int \<Rightarrow> wc_state \<Rightarrow> ('z io_scheme, (int \<times> wc_state) + wc_state) U" where
  "wc_round fd k = bindU (readU fd 512) (\<lambda>(n, bs). if n > 0 then again (fold wc_char bs k) else break (n, k))"

definition wc_zero :: wc_state where
  "wc_zero = \<lparr>wc_l = 0, wc_w = 0, wc_c = 0, inword = False\<rparr>"

definition wc :: "int \<Rightarrow> bytes \<Rightarrow> ('z io_scheme, unit) U" where
  "wc fd name =
     bindU (loopU (wc_round fd) wc_zero) (\<lambda>(n, k).
     if n < 0 then thenU (printf_u (str ''wc: read error'' @ [newline]) []) (exitU 1)
     else printf_u (str ''%d %d %d %s'' @ [newline]) [UInt (wc_l k), UInt (wc_w k), UInt (wc_c k), UStr (Some name)])"

definition main_wc :: "bytes list \<Rightarrow> ('z io_scheme, unit) U" where
  "main_wc argv =
     (if length argv \<le> 1 then thenU (wc 0 []) (exitU 0)
      else thenU (forU (tl argv) (\<lambda>a.
        bindU (call (QOpen a 0)) (\<lambda>fd.
        if fd < 0 then thenU (printf_u (str ''wc: cannot open %s'' @ [newline]) [UStr (Some a)]) (exitU 1)
        else thenU (wc fd a) (thenU (call (QClose fd)) (retU ()))))) (exitU 0))"

section \<open>grep\<close>

text \<open>
  The inner loop of \<open>grep\<close>, on the bytes of the buffer up to its NUL: it writes the lines that match and
  returns the bytes after the last newline.
\<close>

function grep_lines :: "bytes \<Rightarrow> bytes \<Rightarrow> ('z io_scheme, bytes) U" where
  "grep_lines pattern p =
     (case strchr p newline of
        None \<Rightarrow> retU p
      | Some q \<Rightarrow>
          (let line = take (length p - length q) p in
           thenU (if match pattern line then thenU (writeU 1 (line @ [newline])) (retU ()) else retU ())
                 (grep_lines pattern (tl q))))"
  by pat_completeness auto
termination
proof (relation "measure (\<lambda>(pattern, p). length p)")
  have "length q \<le> length p \<and> q \<noteq> []" if "strchr p c = Some q" for p q c
    using that by (induction p c rule: strchr.induct) (auto split: if_splits)
  then show "((pattern, tl q), pattern, p) \<in> measure (\<lambda>(pattern, p). length p)" if "strchr p newline = Some q" for pattern p q :: bytes
    using that by (fastforce simp: neq_Nil_conv)
qed simp

declare grep_lines.simps [simp del]

text \<open>\<open>b\<close> is the part of the buffer in use, of \<^verbatim>\<open>m\<close> bytes.\<close>

definition grep_round :: "bytes \<Rightarrow> int \<Rightarrow> bytes \<Rightarrow> ('z io_scheme, unit + bytes) U" where
  "grep_round pattern fd b =
     bindU (readU fd (1024 - length b - 1)) (\<lambda>(n, bs).
     if n > 0 then bindU (grep_lines pattern (b @ bs)) again else break ())"

definition grep :: "bytes \<Rightarrow> int \<Rightarrow> ('z io_scheme, unit) U" where
  "grep pattern fd = loopU (grep_round pattern fd) []"

definition main_grep :: "bytes list \<Rightarrow> ('z io_scheme, unit) U" where
  "main_grep argv =
     (if length argv \<le> 1 then thenU (fprintf 2 (str ''usage: grep pattern [file ...]'' @ [newline]) []) (exitU 1)
      else let pattern = argv ! 1 in
        if length argv \<le> 2 then thenU (grep pattern 0) (exitU 0)
        else thenU (forU (drop 2 argv) (\<lambda>a.
          bindU (call (QOpen a 0)) (\<lambda>fd.
          if fd < 0 then thenU (printf_u (str ''grep: cannot open %s'' @ [newline]) [UStr (Some a)]) (exitU 1)
          else thenU (grep pattern fd) (thenU (call (QClose fd)) (retU ()))))) (exitU 0))"

section \<open>ls\<close>

definition cbyte :: "bytes \<Rightarrow> nat \<Rightarrow> u8" where
  "cbyte s i = (if i < length s then s ! i else 0)"

text \<open>The first loop of \<open>fmtname\<close>, from position \<open>p\<close> down, with the increment after it.\<close>

fun name_start :: "bytes \<Rightarrow> nat \<Rightarrow> nat" where
  "name_start path 0 = (if cbyte path 0 = of_char (CHR ''/'') then 1 else 0)"
| "name_start path (Suc p) = (if cbyte path (Suc p) = of_char (CHR ''/'') then Suc (Suc p) else name_start path p)"

definition fmtname :: "bytes \<Rightarrow> bytes" where
  "fmtname path =
     (let p = drop (name_start path (strlen path)) (cstr path) in
      if DIRSIZ \<le> strlen p then p else p @ replicate (DIRSIZ - strlen p) 32)"

definition ls_round :: "int \<Rightarrow> bytes \<Rightarrow> unit \<Rightarrow> ('z io_scheme, unit + unit) U" where
  "ls_round fd path _ =
     bindU (readU fd 16) (\<lambda>(n, de).
     if n \<noteq> 16 then break ()
     else if get16 de 0 = 0 then again ()
     else let buf = cstr path @ [of_char (CHR ''/'')] @ cstr (take DIRSIZ (drop 2 de)) in
       bindU (stat_u buf) (\<lambda>r.
       case r of
         None \<Rightarrow> thenU (printf_u (str ''ls: cannot stat %s'' @ [newline]) [UStr (Some buf)]) (again ())
       | Some st \<Rightarrow>
           thenU (printf_u (str ''%s %d %d %d'' @ [newline])
             [UStr (Some (fmtname buf)), UInt (scast (st_type st)), UInt (st_ino st), ULong (st_size st)]) (again ())))"

definition ls :: "bytes \<Rightarrow> ('z io_scheme, unit) U" where
  "ls path =
     bindU (call (QOpen path 0)) (\<lambda>fd.
     if fd < 0 then fprintf 2 (str ''ls: cannot open %s'' @ [newline]) [UStr (Some path)]
     else bindU (statU fd) (\<lambda>r.
       case r of
         None \<Rightarrow> thenU (fprintf 2 (str ''ls: cannot stat %s'' @ [newline]) [UStr (Some path)]) (thenU (call (QClose fd)) (retU ()))
       | Some st \<Rightarrow>
           thenU (if st_type st = T_FILE then
                    printf_u (str ''%s %d %d %l'' @ [newline])
                      [UStr (Some (fmtname path)), UInt (scast (st_type st)), UInt (st_ino st), ULong (st_size st)]
                  else if st_type st = T_DIR then
                    (if strlen path + 1 + DIRSIZ + 1 > 512 then printf_u (str ''ls: path too long'' @ [newline]) []
                     else loopU (ls_round fd path) ())
                  else retU ())
           (thenU (call (QClose fd)) (retU ()))))"

definition main_ls :: "bytes list \<Rightarrow> ('z io_scheme, unit) U" where
  "main_ls argv =
     (if length argv < 2 then thenU (ls (str ''.'')) (exitU 0)
      else thenU (forU (tl argv) ls) (exitU 0))"

section \<open>The small programs\<close>

definition main_ln :: "bytes list \<Rightarrow> ('z io_scheme, unit) U" where
  "main_ln argv =
     (if length argv \<noteq> 3 then thenU (fprintf 2 (str ''Usage: ln old new'' @ [newline]) []) (exitU 1)
      else bindU (call (QLink (argv ! 1) (argv ! 2))) (\<lambda>r.
        thenU (whenU (r < 0)
                (fprintf 2 (str ''link %s %s: failed'' @ [newline]) [UStr (Some (argv ! 1)), UStr (Some (argv ! 2))]))
        (exitU 0)))"

primrec rm_files :: "bytes list \<Rightarrow> ('z io_scheme, unit) U" where
  "rm_files [] = retU ()"
| "rm_files (a # as) =
     bindU (call (QUnlink a)) (\<lambda>r.
     if r < 0 then fprintf 2 (str ''rm: %s failed to delete'' @ [newline]) [UStr (Some a)] else rm_files as)"

definition main_rm :: "bytes list \<Rightarrow> ('z io_scheme, unit) U" where
  "main_rm argv =
     (if length argv < 2 then thenU (fprintf 2 (str ''Usage: rm files...'' @ [newline]) []) (exitU 1)
      else thenU (rm_files (tl argv)) (exitU 0))"

primrec mkdir_files :: "bytes list \<Rightarrow> ('z io_scheme, unit) U" where
  "mkdir_files [] = retU ()"
| "mkdir_files (a # as) =
     bindU (call (QMkdir a)) (\<lambda>r.
     if r < 0 then fprintf 2 (str ''mkdir: %s failed to create'' @ [newline]) [UStr (Some a)] else mkdir_files as)"

definition main_mkdir :: "bytes list \<Rightarrow> ('z io_scheme, unit) U" where
  "main_mkdir argv =
     (if length argv < 2 then thenU (fprintf 2 (str ''Usage: mkdir files...'' @ [newline]) []) (exitU 1)
      else thenU (mkdir_files (tl argv)) (exitU 0))"

definition main_kill :: "bytes list \<Rightarrow> ('z io_scheme, unit) U" where
  "main_kill argv =
     (if length argv < 2 then thenU (fprintf 2 (str ''usage: kill pid...'' @ [newline]) []) (exitU 1)
      else thenU (forU (tl argv) (\<lambda>a. thenU (call (QKill (atoi a))) (retU ()))) (exitU 0))"

text \<open>
  \<open>sleep\<close> has one argument, \<^verbatim>\<open>argv[1]\<close>, and reads \<^verbatim>\<open>argv[2]\<close>, the null pointer that ends \<^verbatim>\<open>argv\<close>:
  \<open>atoi\<close> dereferences it.
\<close>

definition main_sleep :: "bytes list \<Rightarrow> ('z io_scheme, unit) U" where
  "main_sleep argv =
     (if length argv \<noteq> 2 then thenU (fprintf 2 (str ''usage:sleep ticks'' @ [newline]) []) (exitU 1)
      else bindU (if 2 < length argv then retU (atoi (argv ! 2)) else undefU) (\<lambda>ticks.
        bindU (call (QSleep ticks)) (\<lambda>r.
        if r < 0 then thenU (fprintf 2 (str ''sleep failed'' @ [newline]) []) (exitU 1)
        else exitU 0)))"

text \<open>The two ends of a pipe, or none when \<^verbatim>\<open>pipe\<close> has failed and has left the array as it was, not initialized.\<close>

definition pipeU :: "('z io_scheme, (int \<times> int) option) U" where
  "pipeU = bindU (sysU QPipe) (\<lambda>r. retU (case r of RPipe a b \<Rightarrow> Some (a, b) | _ \<Rightarrow> None))"

definition closeU :: "int \<Rightarrow> ('z io_scheme, unit) U" where
  "closeU fd = thenU (call (QClose fd)) (retU ())"

definition main_pingpong :: "('z io_scheme, unit) U" where
  "main_pingpong =
     bindU pipeU (\<lambda>p2c. bindU pipeU (\<lambda>c2p.
     bindU (call QFork) (\<lambda>pid.
     if pid < 0 then thenU (fprintf 2 (str ''fork failed'' @ [newline]) []) (exitU 1)
     else case (p2c, c2p) of
       (Some (p0, p1), Some (c0, c1)) \<Rightarrow>
         (if pid = 0 then
            thenU (closeU p1) (thenU (closeU c0)
            (bindU (readU p0 1) (\<lambda>(n, bs).
             let byte = (if 0 < n then hd bs else of_char (CHR ''a'')) in
             bindU (call QGetpid) (\<lambda>me.
             thenU (printf_u (str ''%d: received ping'' @ [newline]) [UInt (word_of_int me)])
             (thenU (writeU c1 [byte]) (thenU (closeU c1) (thenU (closeU p0) (exitU 0))))))))
          else
            thenU (closeU p0) (thenU (closeU c1)
            (thenU (writeU p1 [of_char (CHR ''a'')])
            (thenU (readU c0 1)
            (bindU (call QGetpid) (\<lambda>me.
             thenU (printf_u (str ''%d: received pong'' @ [newline]) [UInt (word_of_int me)])
             (thenU (closeU p1) (thenU (closeU c0) (thenU (call QWait) (exitU 0))))))))))
     | _ \<Rightarrow> undefU)))"

definition main_zombie :: "('z io_scheme, unit) U" where
  "main_zombie =
     bindU (call QFork) (\<lambda>pid.
     thenU (whenU (0 < pid) (thenU (call (QSleep 5)) (retU ()))) (exitU 0))"

section \<open>init\<close>

definition init_wait :: "int \<Rightarrow> unit \<Rightarrow> ('z io_scheme, unit + unit) U" where
  "init_wait child _ =
     bindU (call QWait) (\<lambda>wpid.
     if wpid = child then break ()
     else if wpid < 0 then thenU (printf_u (str ''init: wait returned an error'' @ [newline]) []) (exitU 1)
     else again ())"

definition init_round :: "unit \<Rightarrow> ('z io_scheme, unit + unit) U" where
  "init_round _ =
     thenU (printf_u (str ''init: starting sh'' @ [newline]) [])
     (bindU (call QFork) (\<lambda>pid.
      if pid < 0 then thenU (printf_u (str ''init: fork failed'' @ [newline]) []) (exitU 1)
      else if pid = 0 then
        thenU (execU (str ''sh'') [str ''sh''])
        (thenU (printf_u (str ''init: exec sh failed'' @ [newline]) []) (exitU 1))
      else thenU (loopU (init_wait pid) ()) (again ())))"

definition main_init :: "('z io_scheme, unit) U" where
  "main_init =
     bindU (call (QOpen (str ''console'') O_RDWR)) (\<lambda>fd.
     thenU (whenU (fd < 0)
             (thenU (call (QMknod (str ''console'') 1 0)) (thenU (call (QOpen (str ''console'') O_RDWR)) (retU ()))))
     (thenU (call (QDup 0)) (thenU (call (QDup 0))
     (loopU init_round ()))))"

section \<open>Every round of the loops makes a system call\<close>

lemma shrinks_grep_lines [shrinks_rules]: "shrinks (grep_lines pattern p)"
  by (induction pattern p rule: grep_lines.induct)
    (subst grep_lines.simps, auto simp: Let_def intro!: shrinks_rules)

lemma rounds_consume:
  shows "consumes (cat_round fd u)" "consumes (wc_round fd k)" "consumes (grep_round pattern fd b)" "consumes (ls_round fd path u)"
    "consumes (init_wait child u)"
  unfolding cat_round_def wc_round_def grep_round_def ls_round_def init_wait_def Let_def
  by (rule consumes_bind, rule shrinks_rules, intro shrinks_rules)+

lemma init_round_consumes: "consumes (init_round u)"
  unfolding init_round_def by (rule consumes_then_right, intro shrinks_rules, rule consumes_bind) (intro shrinks_rules rounds_consume [THEN shrinks_consumes])+

end
