(* ===== verification/Shell.thy ===== *)
theory Shell
  imports UserProgs
begin

text \<open>
  \<^verbatim>\<open>user/sh.c\<close>.  The parser works on positions in the line, which has no NUL: a command names its words by
  the positions where they start and end, and \<open>nulterminate\<close> then writes a NUL at the end of every word.
  A node of the command tree is a value of the datatype \<open>cmd\<close>; that \<^verbatim>\<open>malloc\<close> finds memory for it is
  assumed, as the code does.
\<close>

section \<open>Commands\<close>

type_synonym word_span = "nat \<times> nat"

text \<open>The fields are \<^verbatim>\<open>argv\<close> with \<^verbatim>\<open>eargv\<close>; \<^verbatim>\<open>cmd\<close>, \<^verbatim>\<open>file\<close> with \<^verbatim>\<open>efile\<close>, \<^verbatim>\<open>mode\<close>, \<^verbatim>\<open>fd\<close>; \<^verbatim>\<open>left\<close>, \<^verbatim>\<open>right\<close>; \<^verbatim>\<open>cmd\<close>.\<close>

datatype cmd = EXEC "word_span list" | REDIR cmd word_span u32 int | PIPE cmd cmd | LIST cmd cmd | BACK cmd

datatype 'a parsed = Parsed 'a nat | Syntax string | Fuel

definition bindP :: "'a parsed \<Rightarrow> ('a \<Rightarrow> nat \<Rightarrow> 'b parsed) \<Rightarrow> 'b parsed" where
  "bindP r f = (case r of Parsed a p \<Rightarrow> f a p | Syntax m \<Rightarrow> Syntax m | Fuel \<Rightarrow> Fuel)"

section \<open>Tokens\<close>

definition whitespace :: bytes where
  "whitespace = [32, 9, 13, 10, 11]"

definition symbols :: bytes where
  "symbols = str ''<|>&;()''"

definition blank :: "u8 \<Rightarrow> bool" where
  "blank c \<longleftrightarrow> strchr whitespace c \<noteq> None"

definition symbol :: "u8 \<Rightarrow> bool" where
  "symbol c \<longleftrightarrow> strchr symbols c \<noteq> None"

function skip_ws :: "bytes \<Rightarrow> nat \<Rightarrow> nat" where
  "skip_ws s p = (if p < length s \<and> blank (s ! p) then skip_ws s (p + 1) else p)"
  by pat_completeness auto
termination
  by (relation "measure (\<lambda>(s, p). length s - p)") auto

function word_end :: "bytes \<Rightarrow> nat \<Rightarrow> nat" where
  "word_end s p = (if p < length s \<and> \<not> blank (s ! p) \<and> \<not> symbol (s ! p) then word_end s (p + 1) else p)"
  by pat_completeness auto
termination
  by (relation "measure (\<lambda>(s, p). length s - p)") auto

declare skip_ws.simps [simp del] word_end.simps [simp del]

text \<open>The token, where it starts and ends, and the position after the white space that follows it.\<close>

definition gettoken :: "bytes \<Rightarrow> nat \<Rightarrow> u8 \<times> word_span \<times> nat" where
  "gettoken s p =
     (let q = skip_ws s p;
          c = cbyte s q;
          (tok, e) =
            (if c = 0 then (0, q)
             else if c \<in> set (str ''|();&<'') then (c, q + 1)
             else if c = of_char (CHR ''>'') then
               (if cbyte s (q + 1) = of_char (CHR ''>'') then (of_char (CHR ''+''), q + 2) else (c, q + 1))
             else (of_char (CHR ''a''), word_end s q)) in
      (tok, (q, e), skip_ws s e))"

definition peek :: "bytes \<Rightarrow> nat \<Rightarrow> string \<Rightarrow> bool \<times> nat" where
  "peek s p toks = (let q = skip_ws s p in (cbyte s q \<noteq> 0 \<and> strchr (str toks) (cbyte s q) \<noteq> None, q))"

section \<open>The parser\<close>

text \<open>\<^verbatim>\<open>ret\<close> is the command with the redirections around it; \<^verbatim>\<open>cmd\<close> points to the \<open>EXEC\<close> node in it.\<close>

primrec add_arg :: "cmd \<Rightarrow> word_span \<Rightarrow> cmd" where
  "add_arg (EXEC ws) w = EXEC (ws @ [w])"
| "add_arg (REDIR c f m fd) w = REDIR (add_arg c w) f m fd"
| "add_arg (PIPE l r) w = PIPE l r"
| "add_arg (LIST l r) w = LIST l r"
| "add_arg (BACK c) w = BACK c"

fun parseredirs :: "nat \<Rightarrow> cmd \<Rightarrow> bytes \<Rightarrow> nat \<Rightarrow> cmd parsed" where
  "parseredirs 0 c s p = Fuel"
| "parseredirs (Suc n) c s p =
     (let (b, p1) = peek s p ''<>'' in
      if \<not> b then Parsed c p1
      else let (tok, _, p2) = gettoken s p1; (tok2, w, p3) = gettoken s p2 in
        if tok2 \<noteq> of_char (CHR ''a'') then Syntax ''missing file for redirection''
        else parseredirs n
          (if tok = of_char (CHR ''<'') then REDIR c w O_RDONLY 0
           else if tok = of_char (CHR ''>'') then REDIR c w (O_WRONLY OR O_CREATE OR O_TRUNC) 1
           else if tok = of_char (CHR ''+'') then REDIR c w (O_WRONLY OR O_CREATE) 1
           else c) s p3)"

text \<open>The loop of \<open>parseexec\<close>.\<close>

fun parseargs :: "nat \<Rightarrow> cmd \<Rightarrow> nat \<Rightarrow> bytes \<Rightarrow> nat \<Rightarrow> cmd parsed" where
  "parseargs 0 c argc s p = Fuel"
| "parseargs (Suc n) c argc s p =
     (let (b, p1) = peek s p ''|)&;'' in
      if b then Parsed c p1
      else let (tok, w, p2) = gettoken s p1 in
        if tok = 0 then Parsed c p2
        else if tok \<noteq> of_char (CHR ''a'') then Syntax ''syntax''
        else if argc + 1 \<ge> 10 then Syntax ''too many args''
        else bindP (parseredirs n (add_arg c w) s p2) (\<lambda>c' p3. parseargs n c' (argc + 1) s p3))"

text \<open>The first loop of \<open>parseline\<close>.\<close>

fun parseback :: "nat \<Rightarrow> cmd \<Rightarrow> bytes \<Rightarrow> nat \<Rightarrow> cmd parsed" where
  "parseback 0 c s p = Fuel"
| "parseback (Suc n) c s p =
     (let (b, p1) = peek s p ''&'' in
      if b then let (_, _, p2) = gettoken s p1 in parseback n (BACK c) s p2
      else Parsed c p1)"

fun parseline :: "nat \<Rightarrow> bytes \<Rightarrow> nat \<Rightarrow> cmd parsed"
  and parsepipe :: "nat \<Rightarrow> bytes \<Rightarrow> nat \<Rightarrow> cmd parsed"
  and parseblock :: "nat \<Rightarrow> bytes \<Rightarrow> nat \<Rightarrow> cmd parsed"
  and parseexec :: "nat \<Rightarrow> bytes \<Rightarrow> nat \<Rightarrow> cmd parsed" where
  "parseline 0 s p = Fuel"
| "parseline (Suc n) s p =
     bindP (parsepipe n s p) (\<lambda>c p1.
     bindP (parseback n c s p1) (\<lambda>c' p2.
     let (b, p3) = peek s p2 '';'' in
     if b then let (_, _, p4) = gettoken s p3 in bindP (parseline n s p4) (\<lambda>r p5. Parsed (LIST c' r) p5)
     else Parsed c' p3))"
| "parsepipe 0 s p = Fuel"
| "parsepipe (Suc n) s p =
     bindP (parseexec n s p) (\<lambda>c p1.
     let (b, p2) = peek s p1 ''|'' in
     if b then let (_, _, p3) = gettoken s p2 in bindP (parsepipe n s p3) (\<lambda>r p4. Parsed (PIPE c r) p4)
     else Parsed c p2)"
| "parseblock 0 s p = Fuel"
| "parseblock (Suc n) s p =
     (let (b, p1) = peek s p ''('' in
      if \<not> b then Syntax ''parseblock''
      else let (_, _, p2) = gettoken s p1 in
        bindP (parseline n s p2) (\<lambda>c p3.
        let (b', p4) = peek s p3 '')'' in
        if \<not> b' then Syntax ''syntax - missing )''
        else let (_, _, p5) = gettoken s p4 in parseredirs n c s p5))"
| "parseexec 0 s p = Fuel"
| "parseexec (Suc n) s p =
     (let (b, p1) = peek s p ''('' in
      if b then parseblock n s p1
      else bindP (parseredirs n (EXEC []) s p1) (\<lambda>c p2. parseargs n c 0 s p2))"

primrec nulterminate :: "cmd \<Rightarrow> bytes \<Rightarrow> bytes" where
  "nulterminate (EXEC ws) buf = fold (\<lambda>w b. b[snd w := 0]) ws buf"
| "nulterminate (REDIR c f m fd) buf = (nulterminate c buf)[snd f := 0]"
| "nulterminate (PIPE l r) buf = nulterminate r (nulterminate l buf)"
| "nulterminate (LIST l r) buf = nulterminate r (nulterminate l buf)"
| "nulterminate (BACK c) buf = nulterminate c buf"

section \<open>Running commands\<close>

definition sh_panic :: "bytes \<Rightarrow> ('z io_scheme, 'a) U" where
  "sh_panic s = thenU (fprintf 2 (str ''%s'' @ [newline]) [UStr (Some s)]) (exitU 1)"

definition fork1 :: "('z io_scheme, int) U" where
  "fork1 = bindU (call QFork) (\<lambda>pid. if pid = - 1 then sh_panic (str ''fork'') else retU pid)"

text \<open>The tree and the line with the NULs in it.  \<open>parse_fuel\<close> is enough, so that \<open>Fuel\<close> does not occur.\<close>

definition parse_fuel :: "bytes \<Rightarrow> nat" where
  "parse_fuel s = 4 * length s + 5"

definition parsecmd :: "bytes \<Rightarrow> ('z io_scheme, cmd \<times> bytes) U" where
  "parsecmd s =
     (case parseline (parse_fuel s) s 0 of
        Parsed c p \<Rightarrow>
          (let (_, p') = peek s p '''' in
           if p' \<noteq> length s then
             thenU (fprintf 2 (str ''leftovers: %s'' @ [newline]) [UStr (Some (drop p' s))]) (sh_panic (str ''syntax''))
           else retU (c, nulterminate c (s @ [0])))
      | Syntax m \<Rightarrow> sh_panic (str m)
      | Fuel \<Rightarrow> undefU)"

text \<open>The string that starts at a position.\<close>

definition arg_at :: "bytes \<Rightarrow> word_span \<Rightarrow> bytes" where
  "arg_at buf w = cstr (drop (fst w) buf)"

primrec runcmd :: "bytes \<Rightarrow> cmd \<Rightarrow> ('z io_scheme, unit) U" where
  "runcmd buf (EXEC ws) =
     (case ws of
        [] \<Rightarrow> exitU 1
      | w # _ \<Rightarrow>
          thenU (execU (arg_at buf w) (map (arg_at buf) ws))
          (thenU (fprintf 2 (str ''exec %s failed'' @ [newline]) [UStr (Some (arg_at buf w))]) (exitU 0)))"
| "runcmd buf (REDIR c f m fd) =
     thenU (call (QClose fd))
     (bindU (call (QOpen (arg_at buf f) m)) (\<lambda>r.
      if r < 0 then thenU (fprintf 2 (str ''open %s failed'' @ [newline]) [UStr (Some (arg_at buf f))]) (exitU 1)
      else thenU (runcmd buf c) (exitU 0)))"
| "runcmd buf (LIST l r) =
     bindU fork1 (\<lambda>pid.
     thenU (whenU (pid = 0) (runcmd buf l))
     (thenU (call QWait) (thenU (runcmd buf r) (exitU 0))))"
| "runcmd buf (PIPE l r) =
     bindU pipeU (\<lambda>p.
     case p of None \<Rightarrow> sh_panic (str ''pipe'')
     | Some (p0, p1) \<Rightarrow>
         bindU fork1 (\<lambda>pid.
         thenU (whenU (pid = 0)
                 (thenU (closeU 1) (thenU (call (QDup p1)) (thenU (closeU p0) (thenU (closeU p1) (runcmd buf l))))))
         (bindU fork1 (\<lambda>pid2.
          thenU (whenU (pid2 = 0)
                  (thenU (closeU 0) (thenU (call (QDup p0)) (thenU (closeU p0) (thenU (closeU p1) (runcmd buf r))))))
          (thenU (closeU p0) (thenU (closeU p1) (thenU (call QWait) (thenU (call QWait) (exitU 0)))))))))"
| "runcmd buf (BACK c) =
     bindU fork1 (\<lambda>pid. thenU (whenU (pid = 0) (runcmd buf c)) (exitU 0))"

definition getcmd :: "nat \<Rightarrow> ('z io_scheme, bytes option) U" where
  "getcmd nbuf =
     thenU (fprintf 2 (str ''$ '') [])
     (bindU (gets nbuf) (\<lambda>buf. retU (if cbyte buf 0 = 0 then None else Some (cstr buf))))"

definition sh_open :: "unit \<Rightarrow> ('z io_scheme, unit + unit) U" where
  "sh_open _ =
     bindU (call (QOpen (str ''console'') O_RDWR)) (\<lambda>fd.
     if 0 \<le> fd then (if 3 \<le> fd then thenU (closeU fd) (break ()) else again ())
     else break ())"

definition sh_round :: "unit \<Rightarrow> ('z io_scheme, unit + unit) U" where
  "sh_round _ =
     bindU (getcmd 100) (\<lambda>line.
     case line of None \<Rightarrow> break ()
     | Some buf \<Rightarrow>
         (if take 3 buf = str ''cd '' then
            let dir = drop 3 (butlast buf) in
            bindU (call (QChdir dir)) (\<lambda>r.
            thenU (whenU (r < 0) (fprintf 2 (str ''cannot cd %s'' @ [newline]) [UStr (Some dir)])) (again ()))
          else bindU fork1 (\<lambda>pid.
            thenU (whenU (pid = 0) (bindU (parsecmd buf) (\<lambda>(c, b). runcmd b c)))
            (thenU (call QWait) (again ())))))"

definition main_sh :: "('z io_scheme, unit) U" where
  "main_sh = thenU (loopU sh_open ()) (thenU (loopU sh_round ()) (exitU 0))"

end
