(* ===== verification/ShellSpec.thy ===== *)
theory ShellSpec
  imports Shell
begin

text \<open>
  The parser of the shell ends on every line, the strings of the commands it gives are words of the line,
  and a line of words runs the program its first word names with these words as arguments.
\<close>

section \<open>Progress of the tokenizer\<close>

definition plain :: "u8 \<Rightarrow> bool" where
  "plain c \<longleftrightarrow> \<not> blank c \<and> \<not> symbol c"

lemma skip_ws_le: "p \<le> length s \<Longrightarrow> p \<le> skip_ws s p \<and> skip_ws s p \<le> length s"
proof (induction s p rule: skip_ws.induct)
  case (1 s p)
  then show ?case
    by (subst (1 2) skip_ws.simps) auto
qed

lemma skip_ws_stays: "\<not> (p < length s \<and> blank (s ! p)) \<Longrightarrow> skip_ws s p = p"
  by (subst skip_ws.simps) auto

lemma skip_ws_end: "\<not> (skip_ws s p < length s \<and> blank (s ! skip_ws s p))"
proof (induction s p rule: skip_ws.induct)
  case (1 s p)
  then show ?case
    by (cases "p < length s \<and> blank (s ! p)") (auto simp: skip_ws.simps [of s p])
qed

lemma skip_ws_twice [simp]: "skip_ws s (skip_ws s p) = skip_ws s p"
  by (rule skip_ws_stays [OF skip_ws_end])

lemma word_end_le: "p \<le> length s \<Longrightarrow> p \<le> word_end s p \<and> word_end s p \<le> length s"
proof (induction s p rule: word_end.induct)
  case (1 s p)
  then show ?case
    by (subst (1 2) word_end.simps) auto
qed

lemma word_end_plain: "p \<le> i \<Longrightarrow> i < word_end s p \<Longrightarrow> plain (s ! i)"
proof (induction s p rule: word_end.induct)
  case (1 s p)
  show ?case
  proof (cases "p < length s \<and> \<not> blank (s ! p) \<and> \<not> symbol (s ! p)")
    case True
    then have "word_end s p = word_end s (p + 1)"
      by (subst word_end.simps) simp
    then show ?thesis
      using 1 True by (cases "i = p") (simp_all add: plain_def)
  next
    case False
    then have "word_end s p = p"
      by (subst word_end.simps) (rule if_not_P)
    with 1 show ?thesis by simp
  qed
qed

lemma word_end_stop: "word_end s p < length s \<Longrightarrow> \<not> plain (s ! word_end s p)"
proof (induction s p rule: word_end.induct)
  case (1 s p)
  show ?case
  proof (cases "p < length s \<and> \<not> blank (s ! p) \<and> \<not> symbol (s ! p)")
    case True
    then have "word_end s p = word_end s (p + 1)"
      by (subst word_end.simps) simp
    then show ?thesis
      using 1 True by simp
  next
    case False
    then have "word_end s p = p"
      by (subst word_end.simps) (rule if_not_P)
    with 1 False show ?thesis by (simp add: plain_def)
  qed
qed

text \<open>A word_span of the line that is a word: it cannot be made longer on the right.\<close>

definition word_at :: "bytes \<Rightarrow> word_span \<Rightarrow> bool" where
  "word_at s w \<longleftrightarrow> fst w < snd w \<and> snd w \<le> length s \<and> (\<forall>i. fst w \<le> i \<longrightarrow> i < snd w \<longrightarrow> plain (s ! i))
     \<and> (snd w < length s \<longrightarrow> \<not> plain (s ! snd w))"

lemma symbol_iff: "symbol c \<longleftrightarrow> c \<in> set (str ''<|>&;()'')"
  by (auto simp: symbol_def symbols_def str_def)

lemma gettoken_progress:
  assumes "gettoken s p = (tok, w, p')" "p \<le> length s"
  shows "p \<le> p'" "p' \<le> length s" "cbyte s (skip_ws s p) \<noteq> 0 \<Longrightarrow> p < p'" "tok \<noteq> 0 \<Longrightarrow> p < p'"
    "tok = of_char (CHR ''a'') \<Longrightarrow> word_at s w"
proof -
  let ?q = "skip_ws s p"
  let ?c = "cbyte s ?q"
  have q: "p \<le> ?q" "?q \<le> length s"
    using skip_ws_le [OF assms(2)] by auto
  have in_line: "i < length s" if "cbyte s i \<noteq> 0" for i
    using that by (simp add: cbyte_def split: if_splits)
  have word: "word_at s (?q, word_end s ?q)" if "?c \<noteq> 0" "\<not> symbol ?c"
  proof -
    have less: "?q < length s"
      using that(1) by (rule in_line)
    then have "\<not> blank (s ! ?q)" "\<not> symbol (s ! ?q)"
      using skip_ws_end [of s p] that(2) by (auto simp: cbyte_def)
    then have "word_end s ?q = word_end s (?q + 1)"
      using less by (subst word_end.simps) simp
    then have "?q < word_end s ?q"
      using word_end_le [of "?q + 1" s] less by simp
    then show ?thesis
      using word_end_le [of ?q s] word_end_plain word_end_stop q
      by (simp add: word_at_def)
  qed
  have "\<exists>e. w = (?q, e) \<and> p' = skip_ws s e \<and> ?q \<le> e \<and> e \<le> length s \<and> (?c \<noteq> 0 \<longrightarrow> ?q < e) \<and> (tok \<noteq> 0 \<longrightarrow> ?c \<noteq> 0)
    \<and> (tok = of_char (CHR ''a'') \<longrightarrow> word_at s w)"
  proof -
    consider (nul) "?c = 0" | (sym) "?c \<in> set (str ''|();&<'')" | (redir) "?c = of_char (CHR ''>'')" | (word) "?c \<noteq> 0" "\<not> symbol ?c"
      by (auto simp: symbol_iff str_def)
    then show ?thesis
    proof cases
      case nul
      then show ?thesis
        using assms(1) q by (auto simp: gettoken_def Let_def)
    next
      case sym
      then have "?c \<noteq> 0" "?c \<noteq> of_char (CHR ''a'')"
        by (auto simp: str_def)
      then show ?thesis
        using assms(1) q sym in_line [of ?q] by (auto simp: gettoken_def Let_def)
    next
      case redir
      then have "?c \<noteq> 0" "?c \<notin> set (str ''|();&<'')"
        by (auto simp: str_def)
      then show ?thesis
        using assms(1) q redir in_line [of ?q] in_line [of "?q + 1"] by (auto simp: gettoken_def Let_def split: if_splits)
    next
      case word
      then have "?c \<notin> set (str ''|();&<'')" "?c \<noteq> of_char (CHR ''>'')"
        by (auto simp: symbol_iff str_def)
      then show ?thesis
        using assms(1) word \<open>?c \<noteq> 0 \<Longrightarrow> \<not> symbol ?c \<Longrightarrow> word_at s (?q, word_end s ?q)\<close>
        by (auto simp: gettoken_def Let_def word_at_def)
    qed
  qed
  then obtain e where e: "p' = skip_ws s e" "?q \<le> e" "e \<le> length s" "?c \<noteq> 0 \<longrightarrow> ?q < e" "tok \<noteq> 0 \<longrightarrow> ?c \<noteq> 0"
      "tok = of_char (CHR ''a'') \<longrightarrow> word_at s w"
    by blast
  then have "e \<le> p'" "p' \<le> length s"
    using skip_ws_le [OF e(3)] by auto
  then show "p \<le> p'" "p' \<le> length s" "?c \<noteq> 0 \<Longrightarrow> p < p'" "tok \<noteq> 0 \<Longrightarrow> p < p'"
    "tok = of_char (CHR ''a'') \<Longrightarrow> word_at s w"
    using q e by auto
qed

lemma peek_progress:
  assumes "peek s p toks = (b, p')" "p \<le> length s"
  shows "p \<le> p'" "p' \<le> length s" "b \<Longrightarrow> cbyte s (skip_ws s p') \<noteq> 0"
  using assms skip_ws_le [of p s] by (auto simp: peek_def Let_def)

section \<open>The parser ends\<close>

primrec spans :: "cmd \<Rightarrow> word_span list" where
  "spans (EXEC ws) = ws"
| "spans (REDIR c f m fd) = spans c @ [f]"
| "spans (PIPE l r) = spans l @ spans r"
| "spans (LIST l r) = spans l @ spans r"
| "spans (BACK c) = spans c"

definition words_ok :: "bytes \<Rightarrow> cmd \<Rightarrow> bool" where
  "words_ok s c \<longleftrightarrow> (\<forall>w\<in>set (spans c). word_at s w)"

definition ends :: "bytes \<Rightarrow> nat \<Rightarrow> cmd parsed \<Rightarrow> bool" where
  "ends s p r \<longleftrightarrow> (case r of Parsed c p' \<Rightarrow> p \<le> p' \<and> p' \<le> length s \<and> words_ok s c | Syntax m \<Rightarrow> True | Fuel \<Rightarrow> False)"

lemma words_ok_simps [simp]:
  "words_ok s (EXEC ws) \<longleftrightarrow> (\<forall>w\<in>set ws. word_at s w)" "words_ok s (REDIR c f m fd) \<longleftrightarrow> words_ok s c \<and> word_at s f"
  "words_ok s (PIPE l r) \<longleftrightarrow> words_ok s l \<and> words_ok s r" "words_ok s (LIST l r) \<longleftrightarrow> words_ok s l \<and> words_ok s r"
  "words_ok s (BACK c) \<longleftrightarrow> words_ok s c"
  by (auto simp: words_ok_def)

lemma words_ok_add_arg: "words_ok s c \<Longrightarrow> word_at s w \<Longrightarrow> words_ok s (add_arg c w)"
  by (induction c) auto

lemma ends_simps [simp]: "ends s p (Parsed c p') \<longleftrightarrow> p \<le> p' \<and> p' \<le> length s \<and> words_ok s c" "ends s p (Syntax m)" "\<not> ends s p Fuel"
  by (simp_all add: ends_def)

lemma ends_bind: "ends s p r \<Longrightarrow> (\<And>c p'. p \<le> p' \<Longrightarrow> p' \<le> length s \<Longrightarrow> words_ok s c \<Longrightarrow> ends s p (f c p')) \<Longrightarrow> ends s p (bindP r f)"
  by (cases r) (simp_all add: bindP_def)

lemma ends_mono: "ends s p' r \<Longrightarrow> p \<le> p' \<Longrightarrow> ends s p r"
  by (cases r) auto

lemma parseredirs_ends: "p \<le> length s \<Longrightarrow> length s - p < n \<Longrightarrow> words_ok s c \<Longrightarrow> ends s p (parseredirs n c s p)"
proof (induction n arbitrary: c p)
  case (Suc n)
  obtain b p1 tok w0 p2 tok2 w p3 where eqs: "peek s p ''<>'' = (b, p1)" "gettoken s p1 = (tok, w0, p2)" "gettoken s p2 = (tok2, w, p3)"
    by (metis prod.exhaust)
  note pk = peek_progress [OF eqs(1) Suc.prems(1)]
  note g1 = gettoken_progress [OF eqs(2) pk(2)]
  note g2 = gettoken_progress [OF eqs(3) g1(2)]
  show ?case
  proof (cases "b \<and> tok2 = of_char (CHR ''a'')")
    case True
    then have "ends s p3 (parseredirs n c' s p3)" if "words_ok s c'" for c'
      using Suc.prems pk g1 g2 that by (intro Suc.IH) auto
    then have "ends s p (parseredirs n c' s p3)" if "words_ok s c'" for c'
      using pk(1) g1(1) g2(1) that by (meson ends_mono order_trans)
    with True Suc.prems(3) g2(5) show ?thesis
      by (simp add: eqs)
  qed (use pk Suc.prems in \<open>auto simp: eqs\<close>)
qed simp

lemma parseargs_ends: "p \<le> length s \<Longrightarrow> length s - p < n \<Longrightarrow> words_ok s c \<Longrightarrow> ends s p (parseargs n c argc s p)"
proof (induction n arbitrary: c p argc)
  case (Suc n)
  obtain b p1 tok w p2 where eqs: "peek s p ''|)&;'' = (b, p1)" "gettoken s p1 = (tok, w, p2)"
    by (metis prod.exhaust)
  note pk = peek_progress [OF eqs(1) Suc.prems(1)]
  note g1 = gettoken_progress [OF eqs(2) pk(2)]
  show ?case
  proof (cases "\<not> b \<and> tok = of_char (CHR ''a'') \<and> argc + 1 < 10")
    case True
    have "ends s p2 (bindP (parseredirs n (add_arg c w) s p2) (\<lambda>c' p3. parseargs n c' (argc + 1) s p3))"
    proof (rule ends_bind)
      show "ends s p2 (parseredirs n (add_arg c w) s p2)"
        using True Suc.prems pk g1 by (intro parseredirs_ends words_ok_add_arg) auto
      show "ends s p2 (parseargs n c' (argc + 1) s p3)" if "p2 \<le> p3" "p3 \<le> length s" "words_ok s c'" for c' p3
        using True Suc.prems pk g1 that by (intro ends_mono [OF Suc.IH]) auto
    qed
    then show ?thesis
      using True pk(1) g1(1) by (auto simp: eqs intro: ends_mono)
  qed (use pk g1 Suc.prems in \<open>auto simp: eqs\<close>)
qed simp

lemma parseback_ends: "p \<le> length s \<Longrightarrow> length s - p < n \<Longrightarrow> words_ok s c \<Longrightarrow> ends s p (parseback n c s p)"
proof (induction n arbitrary: c p)
  case (Suc n)
  obtain b p1 tok w p2 where eqs: "peek s p ''&'' = (b, p1)" "gettoken s p1 = (tok, w, p2)"
    by (metis prod.exhaust)
  note pk = peek_progress [OF eqs(1) Suc.prems(1)]
  note g1 = gettoken_progress [OF eqs(2) pk(2)]
  show ?case
  proof (cases b)
    case True
    then have "ends s p2 (parseback n (BACK c) s p2)"
      using Suc.prems pk g1 by (intro Suc.IH) auto
    with True pk(1) g1(1) show ?thesis
      by (auto simp: eqs intro: ends_mono)
  qed (use pk Suc.prems in \<open>auto simp: eqs\<close>)
qed simp

lemma parser_ends:
  assumes "p \<le> length s"
  shows "4 * (length s - p) + 5 \<le> n \<Longrightarrow> ends s p (parseline n s p)"
    "4 * (length s - p) + 4 \<le> n \<Longrightarrow> ends s p (parsepipe n s p)"
    "4 * (length s - p) + 2 \<le> n \<Longrightarrow> ends s p (parseblock n s p)"
    "4 * (length s - p) + 3 \<le> n \<Longrightarrow> ends s p (parseexec n s p)"
  using assms
proof (induction n arbitrary: p)
  case 0
  { case 1 then show ?case by simp next case 2 then show ?case by simp next case 3 then show ?case by simp next case 4 then show ?case by simp }
next
  case (Suc n)
  { case 1
    have rest: "ends s p (let (b, p3) = peek s p2 '';'' in
        if b then let (_, _, p4) = gettoken s p3 in bindP (parseline n s p4) (\<lambda>r p5. Parsed (LIST c r) p5) else Parsed c p3)"
      if p2: "p \<le> p2" "p2 \<le> length s" and c: "words_ok s c" for c p2
    proof -
      obtain b p3 tok w p4 where eqs: "peek s p2 '';'' = (b, p3)" "gettoken s p3 = (tok, w, p4)"
        by (metis prod.exhaust)
      note pk = peek_progress [OF eqs(1) p2(2)]
      note g = gettoken_progress [OF eqs(2) pk(2)]
      have "ends s p4 (parseline n s p4)" if b
        using 1 pk(1) pk(3) [OF that] g p2 by (intro Suc.IH(1)) auto
      then have "ends s p (bindP (parseline n s p4) (\<lambda>r p5. Parsed (LIST c r) p5))" if b
        using that c pk(1) g(1) p2 by (intro ends_bind) (auto intro: ends_mono)
      then show ?thesis
        using pk p2 c by (simp add: eqs)
    qed
    show ?case
      unfolding parseline.simps
    proof (intro ends_bind)
      show "ends s p (parsepipe n s p)"
        using 1 by (intro Suc.IH(2)) auto
      show "ends s p (parseback n c s p1)" if "p \<le> p1" "p1 \<le> length s" "words_ok s c" for c p1
        using 1 that by (intro ends_mono [OF parseback_ends]) auto
    qed (rule rest)
  next
    case 2
    have rest: "ends s p (let (b, p2) = peek s p1 ''|'' in
        if b then let (_, _, p3) = gettoken s p2 in bindP (parsepipe n s p3) (\<lambda>r p4. Parsed (PIPE c r) p4) else Parsed c p2)"
      if p1: "p \<le> p1" "p1 \<le> length s" and c: "words_ok s c" for c p1
    proof -
      obtain b p2 tok w p3 where eqs: "peek s p1 ''|'' = (b, p2)" "gettoken s p2 = (tok, w, p3)"
        by (metis prod.exhaust)
      note pk = peek_progress [OF eqs(1) p1(2)]
      note g = gettoken_progress [OF eqs(2) pk(2)]
      have "ends s p3 (parsepipe n s p3)" if b
        using 2 pk(1) pk(3) [OF that] g p1 by (intro Suc.IH(2)) auto
      then have "ends s p (bindP (parsepipe n s p3) (\<lambda>r p4. Parsed (PIPE c r) p4))" if b
        using that c pk(1) g(1) p1 by (intro ends_bind) (auto intro: ends_mono)
      then show ?thesis
        using pk p1 c by (simp add: eqs)
    qed
    show ?case
      unfolding parsepipe.simps
    proof (rule ends_bind)
      show "ends s p (parseexec n s p)"
        using 2 by (intro Suc.IH(4)) auto
    qed (rule rest)
  next
    case 3
    obtain b p1 tok w p2 where eqs: "peek s p ''('' = (b, p1)" "gettoken s p1 = (tok, w, p2)"
      by (metis prod.exhaust)
    note pk = peek_progress [OF eqs(1) 3(2)]
    note g = gettoken_progress [OF eqs(2) pk(2)]
    have rest: "ends s p (let (b', p4) = peek s p3 '')'' in
        if \<not> b' then Syntax ''syntax - missing )'' else let (_, _, p5) = gettoken s p4 in parseredirs n c s p5)"
      if p3: "p < p3" "p3 \<le> length s" and c: "words_ok s c" for c p3
    proof -
      obtain b' p4 tok' w' p5 where eqs': "peek s p3 '')'' = (b', p4)" "gettoken s p4 = (tok', w', p5)"
        by (metis prod.exhaust)
      note pk' = peek_progress [OF eqs'(1) p3(2)]
      note g' = gettoken_progress [OF eqs'(2) pk'(2)]
      have "ends s p (parseredirs n c s p5)"
        using 3 pk'(1) g' p3 c by (intro ends_mono [OF parseredirs_ends]) auto
      then show ?thesis
        by (simp add: eqs')
    qed
    have "ends s p (bindP (parseline n s p2) (\<lambda>c p3. let (b', p4) = peek s p3 '')'' in
        if \<not> b' then Syntax ''syntax - missing )'' else let (_, _, p5) = gettoken s p4 in parseredirs n c s p5))" if b
    proof (cases "parseline n s p2")
      case (Parsed c p3)
      have "p < p2"
        using pk(1) pk(3) [OF that] g(3) by simp
      moreover have "ends s p2 (parseline n s p2)"
        using 3 \<open>p < p2\<close> g(2) by (intro Suc.IH(1)) auto
      ultimately show ?thesis
        using rest [of p3 c] Parsed by (simp add: bindP_def)
    next
      case Fuel
      have "p < p2"
        using pk(1) pk(3) [OF that] g(3) by simp
      then have "ends s p2 (parseline n s p2)"
        using 3 g(2) by (intro Suc.IH(1)) auto
      with Fuel show ?thesis by simp
    qed (simp add: bindP_def)
    then show ?case
      by (simp add: eqs)
  next
    case 4
    obtain b p1 where eqs: "peek s p ''('' = (b, p1)"
      by (metis prod.exhaust)
    note pk = peek_progress [OF eqs(1) 4(2)]
    have "ends s p1 (parseblock n s p1)"
      using 4 pk by (intro Suc.IH(3)) auto
    moreover have "ends s p1 (bindP (parseredirs n (EXEC []) s p1) (\<lambda>c p2. parseargs n c 0 s p2))"
    proof (rule ends_bind)
      show "ends s p1 (parseredirs n (EXEC []) s p1)"
        using 4 pk by (intro parseredirs_ends) auto
      show "ends s p1 (parseargs n c 0 s p2)" if "p1 \<le> p2" "p2 \<le> length s" "words_ok s c" for c p2
        using 4 pk that by (intro ends_mono [OF parseargs_ends]) auto
    qed
    ultimately show ?case
      using pk(1) by (auto simp: eqs intro: ends_mono)
  }
qed

section \<open>What the parser gives\<close>

lemma parse_ends: "ends s 0 (parseline (parse_fuel s + k) s 0)"
  by (rule parser_ends(1)) (simp_all add: parse_fuel_def)

text \<open>C35. The parser of the shell returns on every line: with \<open>parse_fuel\<close> rounds of recursion and loops, and
  with any more, it gives a command or reports a syntax error.
\<close>

theorem parseline_returns: "parseline (parse_fuel s + k) s 0 \<noteq> Fuel"
  using parse_ends [of s k] by auto

lemma nulterminate_length [simp]: "length (nulterminate c buf) = length buf"
proof -
  have "length (fold (\<lambda>w b. b[snd w := 0]) ws b) = length b" for ws :: "word_span list" and b :: bytes
    by (induction ws arbitrary: b) auto
  then show ?thesis
    by (induction c arbitrary: buf) auto
qed

lemma update_nth: "i < length b \<Longrightarrow> b[j := x] ! i = (if i = j then x else b ! i)"
  by auto

lemma nulterminate_nth:
  "i < length buf \<Longrightarrow> nulterminate c buf ! i = (if i \<in> snd ` set (spans c) then 0 else buf ! i)"
proof -
  have "fold (\<lambda>w b. b[snd w := 0]) ws b ! i = (if i \<in> snd ` set ws then 0 else b ! i)"
    if "i < length b" for ws :: "word_span list" and b :: bytes and i
    using that by (induction ws arbitrary: b) (auto simp: update_nth)
  then show "i < length buf \<Longrightarrow> nulterminate c buf ! i = (if i \<in> snd ` set (spans c) then 0 else buf ! i)"
    by (induction c arbitrary: buf) (simp_all add: update_nth image_Un)
qed

definition span_text :: "bytes \<Rightarrow> word_span \<Rightarrow> bytes" where
  "span_text s w = take (snd w - fst w) (drop (fst w) s)"

lemma arg_at_span:
  assumes "words_ok s c" "w \<in> set (spans c)" "0 \<notin> set s"
  shows "arg_at (nulterminate c (s @ [0])) w = span_text s w"
proof -
  obtain q e where w: "w = (q, e)" by (cases w)
  have word: "q < e" "e \<le> length s" "\<And>i. q \<le> i \<Longrightarrow> i < e \<Longrightarrow> plain (s ! i)"
    using assms(1,2) w by (auto simp: words_ok_def word_at_def)
  let ?b = "nulterminate c (s @ [0])"
  have keep: "?b ! i = s ! i" if "q \<le> i" "i < e" for i
  proof -
    have "i \<notin> snd ` set (spans c)"
      using assms(1) word(2,3) that by (auto simp: words_ok_def word_at_def)
    then show ?thesis
      using word that by (simp add: nulterminate_nth nth_append)
  qed
  have "?b ! e = 0"
    using assms(2) w word by (force simp: nulterminate_nth image_iff)
  then have "drop e ?b = 0 # drop (Suc e) ?b"
    using word(2) by (subst Cons_nth_drop_Suc [symmetric]) simp_all
  moreover have "take (e - q) (drop q ?b) = span_text s w"
    using word keep w by (intro nth_equalityI) (simp_all add: span_text_def)
  ultimately have "drop q ?b = span_text s w @ 0 # drop (Suc e) ?b"
    using append_take_drop_id [of "e - q" "drop q ?b"] word(1) by simp
  moreover have "0 \<notin> set (span_text s w)"
    using assms(3) by (auto simp: span_text_def dest!: in_set_takeD in_set_dropD)
  ultimately show ?thesis
    by (simp add: arg_at_def w cstr_def takeWhile_append)
qed

text \<open>C34. When the line parses, every string of the command (an argument or the file of a redirection), as
  \<open>runcmd\<close> reads it after \<open>nulterminate\<close> has written the NULs, is exactly the word of the line the parser
  found: not empty, and without white space and symbols.
\<close>

theorem parsed_strings:
  assumes "0 \<notin> set s" "parseline (parse_fuel s) s 0 = Parsed c p" "w \<in> set (spans c)"
  shows "arg_at (nulterminate c (s @ [0])) w = span_text s w \<and> span_text s w \<noteq> [] \<and> list_all plain (span_text s w)"
proof -
  have ok: "words_ok s c"
    using parse_ends [of s 0] assms(2) by simp
  then have "word_at s w"
    using assms(3) by (simp add: words_ok_def)
  then show ?thesis
    using arg_at_span [OF ok assms(3,1)]
    by (auto simp: word_at_def span_text_def list_all_length)
qed

theorem parsed_strings_witness:
  "arg_at (nulterminate (REDIR (EXEC [(0, 1)]) (2, 3) 0 0) ([97, 60, 98] @ [0])) (0, 1) = span_text [97, 60, 98] (0, 1)
     \<and> span_text [97, 60, 98] (0, 1) \<noteq> [] \<and> list_all plain (span_text [97, 60, 98] (0, 1))"
proof -
  have "parseline (parse_fuel [97, 60, 98]) [97, 60, 98] 0 = Parsed (REDIR (EXEC [(0, 1)]) (2, 3) 0 0) 3"
    by code_simp
  then show ?thesis
    by (intro parsed_strings) simp_all
qed

section \<open>Lines of words\<close>

text \<open>A line as words, each with the white space that follows it.\<close>

definition line_of :: "(bytes \<times> bytes) list \<Rightarrow> bytes" where
  "line_of ps = concat (map (\<lambda>(w, sep). w @ sep) ps)"

definition word_sep :: "bytes \<times> bytes \<Rightarrow> bool" where
  "word_sep = (\<lambda>(w, sep). w \<noteq> [] \<and> list_all plain w \<and> 0 \<notin> set w \<and> sep \<noteq> [] \<and> list_all blank sep)"

lemma line_of_simps [simp]: "line_of [] = []" "line_of ((w, sep) # ps) = w @ sep @ line_of ps"
  by (simp_all add: line_of_def)

primrec word_spans :: "nat \<Rightarrow> (bytes \<times> bytes) list \<Rightarrow> word_span list" where
  "word_spans p [] = []"
| "word_spans p (x # ps) = (p, p + length (fst x)) # word_spans (p + length (fst x) + length (snd x)) ps"

lemma skip_ws_over:
  "list_all blank sep \<Longrightarrow> rest = [] \<or> \<not> blank (hd rest) \<Longrightarrow> skip_ws (pre @ sep @ rest) (length pre) = length pre + length sep"
proof (induction sep arbitrary: pre)
  case Nil
  then show ?case
    by (cases rest) (simp_all add: skip_ws_stays)
next
  case (Cons b sep)
  then show ?case
    using Cons.IH [of "pre @ [b]"] by (subst skip_ws.simps) simp
qed

lemma word_end_over:
  "list_all plain w \<Longrightarrow> rest = [] \<or> \<not> plain (hd rest) \<Longrightarrow> word_end (pre @ w @ rest) (length pre) = length pre + length w"
proof (induction w arbitrary: pre)
  case Nil
  then show ?case
    by (cases rest) (auto simp: word_end.simps [of _ "length pre"] plain_def)
next
  case (Cons b w)
  then show ?case
    using Cons.IH [of "pre @ [b]"] by (subst word_end.simps) (simp add: plain_def)
qed

lemma blank_not_plain: "blank c \<Longrightarrow> \<not> plain c" "\<not> blank 0"
  by (simp_all add: plain_def blank_def whitespace_def)

lemma line_of_head: "list_all word_sep ps \<Longrightarrow> line_of ps = [] \<or> plain (hd (line_of ps))"
  by (cases ps) (auto simp: word_sep_def neq_Nil_conv)

lemma strchr_mem: "strchr s c \<noteq> None \<Longrightarrow> c \<in> set s"
  by (induction s c rule: strchr.induct) (auto split: if_splits)

text \<open>A position where a word starts or the line ends.\<close>

definition word_start :: "bytes \<Rightarrow> nat \<Rightarrow> bool" where
  "word_start s p \<longleftrightarrow> skip_ws s p = p \<and> (cbyte s p = 0 \<or> plain (cbyte s p))"

lemma peek_word: "word_start s p \<Longrightarrow> set (str toks) \<subseteq> set (str ''<|>&;()'') \<Longrightarrow> peek s p toks = (False, p)"
  using strchr_mem [of "str toks" "cbyte s p"] by (auto simp: peek_def word_start_def plain_def symbol_iff Let_def)

lemma word_start_line: "list_all word_sep ps \<Longrightarrow> word_start (pre @ line_of ps) (length pre)"
  using line_of_head [of ps] blank_not_plain(1) [of "hd (line_of ps)"]
  by (cases "line_of ps") (auto simp: word_start_def cbyte_def intro!: skip_ws_stays)

lemma gettoken_word:
  assumes "word_sep (w, sep)" "list_all word_sep ps"
  shows "gettoken (pre @ w @ sep @ line_of ps) (length pre)
    = (of_char (CHR ''a''), (length pre, length pre + length w), length pre + length w + length sep)"
proof -
  let ?s = "pre @ w @ sep @ line_of ps"
  have start: "word_start ?s (length pre)"
    using word_start_line [of "(w, sep) # ps" pre] assms by simp
  obtain c v where w: "w = c # v" "plain c" "c \<noteq> 0"
    using assms(1) by (cases w) (auto simp: word_sep_def)
  then have "c \<notin> set (str ''|();&<'')" "c \<noteq> of_char (CHR ''>'')"
    by (auto simp: plain_def symbol_iff str_def)
  moreover have "word_end ?s (length pre) = length pre + length w"
    using assms(1) by (intro word_end_over) (cases sep; auto simp: word_sep_def dest: blank_not_plain(1))+
  moreover have "skip_ws ((pre @ w) @ sep @ line_of ps) (length (pre @ w)) = length (pre @ w) + length sep"
    using assms line_of_head [OF assms(2)] by (intro skip_ws_over) (auto simp: word_sep_def dest: blank_not_plain(1))
  ultimately show ?thesis
    using start w by (simp add: gettoken_def word_start_def cbyte_def Let_def)
qed

lemma parseredirs_word: "word_start s p \<Longrightarrow> 0 < n \<Longrightarrow> parseredirs n c s p = Parsed c p"
  by (cases n) (simp_all add: peek_word str_def)

lemma parseargs_words:
  "list_all word_sep ps \<Longrightarrow> length ps < n \<Longrightarrow> argc + length ps < 10 \<Longrightarrow> s = pre @ line_of ps \<Longrightarrow>
     parseargs n (EXEC us) argc s (length pre) = Parsed (EXEC (us @ word_spans (length pre) ps)) (length s)"
proof (induction ps arbitrary: n argc pre us)
  case Nil
  then have "word_start s (length pre)" "gettoken s (length pre) = (0, (length pre, length pre), length pre)"
    using word_start_line [of "[]" pre] by (simp_all add: gettoken_def word_start_def cbyte_def Let_def)
  with Nil show ?case
    by (cases n) (simp_all add: peek_word str_def)
next
  case (Cons x ps)
  obtain w sep where x: "x = (w, sep)" by (cases x)
  obtain m where n: "n = Suc m" "length ps < m"
    using Cons.prems(2) by (cases n) auto
  have "word_start s (length pre)"
    using Cons.prems word_start_line [of "x # ps" pre] by simp
  moreover have tok: "gettoken s (length pre)
      = (of_char (CHR ''a''), (length pre, length pre + length w), length pre + length w + length sep)"
    using Cons.prems x gettoken_word [of w sep ps pre] by simp
  moreover have "word_start s (length (pre @ w @ sep))"
    using Cons.prems x word_start_line [of ps "pre @ w @ sep"] by simp
  then have "parseredirs m c s (length pre + length w + length sep) = Parsed c (length pre + length w + length sep)" for c
    using parseredirs_word [of s "length (pre @ w @ sep)" m c] n(2) by (simp add: add.assoc)
  moreover have "parseargs m (EXEC (us @ [(length pre, length pre + length w)])) (Suc argc) s (length (pre @ w @ sep))
      = Parsed (EXEC ((us @ [(length pre, length pre + length w)]) @ word_spans (length (pre @ w @ sep)) ps)) (length s)"
    using Cons.prems x n by (intro Cons.IH) simp_all
  ultimately show ?case
    using Cons.prems(3) by (simp add: n(1) x peek_word str_def bindP_def add.assoc)
qed

lemma word_spans_text:
  "map (span_text (pre @ line_of ps)) (word_spans (length pre) ps) = map fst ps"
proof (induction ps arbitrary: pre)
  case (Cons x ps)
  obtain w sep where x: "x = (w, sep)" by (cases x)
  show ?case
    using Cons.IH [of "pre @ w @ sep"] by (simp add: x span_text_def add.assoc)
qed simp

lemma parse_words:
  assumes "list_all word_sep ps" "length ps < 10" "list_all blank lead" "s = lead @ line_of ps"
  shows "parseline (parse_fuel s) s 0 = Parsed (EXEC (word_spans (length lead) ps)) (length s)"
proof -
  have "length ps \<le> length (line_of ps)"
    using assms(1) by (induction ps) (auto simp: word_sep_def neq_Nil_conv)
  then obtain n where n: "parse_fuel s = Suc (Suc (Suc n))" "length ps < n"
    using assms(4) by (intro that [of "parse_fuel s - 3"]) (simp_all add: parse_fuel_def)
  have start: "word_start s (length lead)" and last: "word_start s (length s)"
    using word_start_line [OF assms(1), of lead] word_start_line [of "[]" s] assms(4) by simp_all
  have "skip_ws s 0 = length lead"
    using skip_ws_over [OF assms(3), of "line_of ps" "[]"] line_of_head [OF assms(1)] assms(4) blank_not_plain by auto
  then have lp: "peek s 0 ''('' = (False, length lead)"
    using peek_word [OF start, of "''(''"] by (simp add: peek_def str_def Let_def start [unfolded word_start_def])
  have "parseexec (Suc n) s 0 = Parsed (EXEC (word_spans (length lead) ps)) (length s)"
    using n(2) parseargs_words [OF assms(1) n(2) _ assms(4), of 0 "[]"] assms(2)
    by (simp add: lp parseredirs_word [OF start] bindP_def)
  then show ?thesis
    using n by (cases n) (simp_all add: n(1) bindP_def peek_word [OF last] str_def del: parseexec.simps)
qed

text \<open>C33. A line of fewer than ten words, with white space before, between and after them, is the command
  that runs the program its first word names with exactly these words as its arguments: parsing the
  line, writing the NULs and running the command makes this \<^verbatim>\<open>exec\<close> request and no other before it.
\<close>

theorem shell_runs_words:
  assumes "list_all word_sep ps" "ps \<noteq> []" "length ps < 10" "list_all blank lead" "ins u = []"
  shows "bindU (parsecmd (lead @ line_of ps)) (\<lambda>(c, buf). runcmd buf c) u
    = Waits (u\<lparr>outs := outs u @ [QExec (fst (hd ps)) (map fst ps)]\<rparr>)"
proof -
  let ?s = "lead @ line_of ps" and ?ws = "word_spans (length lead) ps"
  note parsed = parse_words [OF assms(1,3,4) refl]
  have "0 \<notin> set (line_of ps)"
    using assms(1) blank_not_plain(2) by (induction ps) (auto simp: word_sep_def list_all_iff)
  then have nul: "0 \<notin> set ?s"
    using assms(4) blank_not_plain(2) by (auto simp: list_all_iff)
  have "words_ok ?s (EXEC ?ws)"
    using parse_ends [of ?s 0] parsed by simp
  then have "map (arg_at (nulterminate (EXEC ?ws) (?s @ [0]))) ?ws = map (span_text ?s) ?ws"
    by (intro map_cong refl arg_at_span nul) (simp_all del: words_ok_simps)
  then have args: "map (arg_at (nulterminate (EXEC ?ws) (?s @ [0]))) ?ws = map fst ps"
    by (simp only: word_spans_text)
  obtain x xs where ps: "ps = x # xs"
    using assms(2) by (cases ps) auto
  have "peek ?s (length ?s) '''' = (False, length ?s)"
    using peek_word [OF word_start_line [of "[]" ?s]] by (simp add: str_def)
  then show ?thesis
    using args assms(5) parsed
    by (auto simp: parsecmd_def ps execU_def call_def sysU_def U_defs simp del: nulterminate.simps)
qed

theorem shell_runs_words_witness:
  "bindU (parsecmd (line_of [(str ''echo'', str '' ''), (str ''hi'', [newline])])) (\<lambda>(c, buf). runcmd buf c) \<lparr>ins = [], outs = []\<rparr>
    = Waits \<lparr>ins = [], outs = [QExec (str ''echo'') [str ''echo'', str ''hi'']]\<rparr>"
proof -
  have "list_all word_sep [(str ''echo'', str '' ''), (str ''hi'', [newline])]"
    by code_simp
  then show ?thesis
    using shell_runs_words [of "[(str ''echo'', str '' ''), (str ''hi'', [newline])]" "[]" "\<lparr>ins = [], outs = []\<rparr>"] by simp
qed

end
