(* ===== verification/ProcSpec.thy ===== *)
theory ProcSpec
  imports Trap
begin

text \<open>
  Properties of \<^verbatim>\<open>kernel/proc.c\<close>: a pass of the scheduler runs every process that is runnable when it
  starts, and what \<^verbatim>\<open>kill(0)\<close> does to a free slot of the process table.
\<close>

section \<open>The scheduler\<close>


definition runnable :: "'z kern_scheme \<Rightarrow> nat \<Rightarrow> bool" where
  "runnable s i \<longleftrightarrow> state (procs s i) = RUNNABLE"



text \<open>
  One pass of the loop of \<open>scheduler\<close> over the table from index \<open>i\<close> on, with the processes it runs.
  While process \<open>k\<close> has the CPU it may do anything but make another runnable process not runnable; it
  comes back holding its lock.
\<close>

definition turn :: "nat \<Rightarrow> 'z kern_scheme \<Rightarrow> 'z kern_scheme \<Rightarrow> bool" where
  "turn k t u \<longleftrightarrow> held u = held t \<and> (\<forall>j. j \<noteq> k \<longrightarrow> runnable t j \<longrightarrow> runnable u j)"

inductive pass :: "nat \<Rightarrow> 'z kern_scheme \<Rightarrow> nat list \<Rightarrow> 'z kern_scheme \<Rightarrow> bool" where
  pass_end: "scheduler_pick [i..<NPROC] s = Ok None t \<Longrightarrow> pass i s [] t"
| pass_run: "scheduler_pick [i..<NPROC] s = Ok (Some k) t \<Longrightarrow> turn k t u \<Longrightarrow> scheduler_back k u = Ok () v \<Longrightarrow>
    pass (Suc k) v ks w \<Longrightarrow> pass i s (k # ks) w"

inductive_cases pass_NilE: "pass i s [] t"
inductive_cases pass_ConsE: "pass i s (k # ks) t"







section \<open>kill\<close>




text \<open>The operations on memory do not touch the process table.\<close>

abbreviation "is_killed i \<equiv> (\<lambda>s. killed (procs s i))"
























end
