(* ===== verification/Mkfs.thy ===== *)
theory Mkfs
  imports FsAlloc User
begin

text \<open>
  \<^verbatim>\<open>mkfs/mkfs.c\<close>, which builds the first file system image.  The image is a function from sectors to
  their bytes with the number of sectors the file has; \<^verbatim>\<open>die\<close> and a failed \<^verbatim>\<open>assert\<close> are panics.  The
  host is little-endian and the file it writes to takes every byte.  An input file is given by the
  pieces \<^verbatim>\<open>read\<close> returns, or nothing when it cannot be opened.
\<close>

record mkfs_state =
  img :: "u32 \<Rightarrow> bytes"
  imgsize :: nat
  freeinode :: u32
  freeblock :: u32

abbreviation (input) NINODES :: nat where "NINODES \<equiv> 200"

definition nbitmap :: nat where
  "nbitmap = FSSIZE div (BSIZE * 8) + 1"

definition ninodeblocks :: nat where
  "ninodeblocks = NINODES div IPB + 1"

definition nlog :: nat where
  "nlog = LOGSIZE"

definition nmeta :: nat where
  "nmeta = 2 + nlog + ninodeblocks + nbitmap"

definition nblocks :: nat where
  "nblocks = FSSIZE - nmeta"

text \<open>The bytes \<open>xshort\<close> and \<open>xint\<close> store, read back on a little-endian host.\<close>

definition xshort :: "u16 \<Rightarrow> u16" where
  "xshort x = of_nat (le_nat [ucast x, ucast (drop_bit 8 x)])"

definition xint :: "u32 \<Rightarrow> u32" where
  "xint x = of_nat (le_nat [ucast x, ucast (drop_bit 8 x), ucast (drop_bit 16 x), ucast (drop_bit 24 x)])"

definition mkfs_sb :: superblock where
  "mkfs_sb = \<lparr>sb_magic = FSMAGIC, sb_size = xint FSSIZE, sb_nblocks = xint (of_nat nblocks), sb_ninodes = xint (of_nat NINODES),
     sb_nlog = xint (of_nat nlog), sb_logstart = xint 2, sb_inodestart = xint (of_nat (2 + nlog)),
     sb_bmapstart = xint (of_nat (2 + nlog + ninodeblocks))\<rparr>"

section \<open>Sectors and inodes\<close>

definition wsect :: "u32 \<Rightarrow> bytes \<Rightarrow> ('z mkfs_state_scheme, unit) K" where
  "wsect sec buf = modifyK (\<lambda>s. s\<lparr>img := (img s)(sec := buf), imgsize := max (imgsize s) (Suc (unat sec))\<rparr>)"

definition rsect :: "u32 \<Rightarrow> ('z mkfs_state_scheme, bytes) K" where
  "rsect sec =
     bindK (getK imgsize) (\<lambda>n.
     if n \<le> unat sec then panicK ''read'' else getK (\<lambda>s. img s sec))"

definition winode :: "u32 \<Rightarrow> inode \<Rightarrow> ('z mkfs_state_scheme, unit) K" where
  "winode inum ip =
     (let bn = IBLOCK inum mkfs_sb in
      bindK (rsect bn) (\<lambda>buf. wsect bn (put_dinode buf (dinode_off inum) ip)))"

definition blank_inode :: inode where
  "blank_inode = \<lparr>i_dev = 0, i_num = 0, i_ref = 0, i_valid = False, i_type = 0, i_major = 0, i_minor = 0, i_nlink = 0,
     i_size = 0, i_addrs = replicate 13 0\<rparr>"

definition rinode :: "u32 \<Rightarrow> ('z mkfs_state_scheme, inode) K" where
  "rinode inum =
     (let bn = IBLOCK inum mkfs_sb in
      bindK (rsect bn) (\<lambda>buf. returnK (get_dinode buf (dinode_off inum) blank_inode)))"

definition mkfs_ialloc :: "u16 \<Rightarrow> ('z mkfs_state_scheme, u32) K" where
  "mkfs_ialloc ty =
     bindK (getK freeinode) (\<lambda>inum.
     thenK (seqK [modifyK (\<lambda>s. s\<lparr>freeinode := freeinode s + 1\<rparr>),
                  winode inum (blank_inode\<lparr>i_type := xshort ty, i_nlink := xshort 1, i_size := xint 0\<rparr>)])
     (returnK inum))"

definition mkfs_balloc :: "nat \<Rightarrow> ('z mkfs_state_scheme, unit) K" where
  "mkfs_balloc used =
     seqK [panic_if (BSIZE * 8 \<le> used) ''assert'',
           wsect (sb_bmapstart mkfs_sb)
             (fold (\<lambda>i buf. buf[i div 8 := (buf ! (i div 8)) OR push_bit (i mod 8) 1]) [0..<used] (replicate BSIZE 0))]"

section \<open>Appending to a file\<close>

text \<open>\<^verbatim>\<open>freeblock++\<close>.\<close>

definition next_block :: "('z mkfs_state_scheme, u32) K" where
  "next_block = bindK (getK freeblock) (\<lambda>b. thenK (modifyK (\<lambda>s. s\<lparr>freeblock := freeblock s + 1\<rparr>)) (returnK b))"

text \<open>The block that holds block \<open>fbn\<close> of the file, allocated when there is none, and the inode with it.\<close>

definition iappend_block :: "inode \<Rightarrow> nat \<Rightarrow> ('z mkfs_state_scheme, u32 \<times> inode) K" where
  "iappend_block din fbn =
     (if fbn < NDIRECT then
        bindK (if xint (i_addrs din ! fbn) = 0
               then bindK next_block (\<lambda>b. returnK (din\<lparr>i_addrs := (i_addrs din)[fbn := xint b]\<rparr>))
               else returnK din) (\<lambda>din.
        returnK (xint (i_addrs din ! fbn), din))
      else
        bindK (if xint (i_addrs din ! NDIRECT) = 0
               then bindK next_block (\<lambda>b. returnK (din\<lparr>i_addrs := (i_addrs din)[NDIRECT := xint b]\<rparr>))
               else returnK din) (\<lambda>din.
        let ind = xint (i_addrs din ! NDIRECT) in
        bindK (rsect ind) (\<lambda>buf.
        bindK (if get32 buf (4 * (fbn - NDIRECT)) = 0
               then bindK next_block (\<lambda>b.
                    let buf' = put32 buf (4 * (fbn - NDIRECT)) (xint b) in thenK (wsect ind buf') (returnK buf'))
               else returnK buf) (\<lambda>buf.
        returnK (xint (get32 buf (4 * (fbn - NDIRECT))), din)))))"

text \<open>The rounds of the loop: where each starts in the file and the bytes it copies.\<close>

function iappend_rounds :: "nat \<Rightarrow> bytes \<Rightarrow> (nat \<times> bytes) list" where
  "iappend_rounds off p =
     (if p = [] then []
      else let n1 = min (length p) ((off div BSIZE + 1) * BSIZE - off) in
        (off, take n1 p) # iappend_rounds (off + n1) (drop n1 p))"
  by pat_completeness auto
termination
proof (relation "measure (\<lambda>(off, p). length p)")
  fix off n1 :: nat and p :: bytes
  assume "p \<noteq> []" "n1 = min (length p) ((off div BSIZE + 1) * BSIZE - off)"
  moreover have "off < (off div BSIZE + 1) * BSIZE"
    by (simp add: dividend_less_div_times)
  ultimately show "((off + n1, drop n1 p), off, p) \<in> measure (\<lambda>(off, p). length p)"
    by (simp add: min_def)
qed simp

declare iappend_rounds.simps [simp del]

primrec iappend_loop :: "inode \<Rightarrow> (nat \<times> bytes) list \<Rightarrow> ('z mkfs_state_scheme, inode) K" where
  "iappend_loop din [] = returnK din"
| "iappend_loop din (r # rs) =
     (let off = fst r; fbn = off div BSIZE in
      thenK (panic_if (MAXFILE \<le> fbn) ''assert'')
      (bindK (iappend_block din fbn) (\<lambda>(x, din).
       bindK (rsect x) (\<lambda>buf.
       thenK (wsect x (put_bytes buf (off - fbn * BSIZE) (snd r)))
       (iappend_loop din rs)))))"

definition iappend :: "u32 \<Rightarrow> bytes \<Rightarrow> ('z mkfs_state_scheme, unit) K" where
  "iappend inum p =
     bindK (rinode inum) (\<lambda>din.
     let off = unat (xint (i_size din)) in
     bindK (iappend_loop din (iappend_rounds off p)) (\<lambda>din.
     winode inum (din\<lparr>i_size := xint (of_nat (off + length p))\<rparr>)))"

section \<open>main\<close>

definition mkfs_dirent :: "u32 \<Rightarrow> bytes \<Rightarrow> bytes" where
  "mkfs_dirent inum name = nat_le 2 (unat (xshort (ucast inum))) @ strncpy name DIRSIZ"

definition shortname :: "bytes \<Rightarrow> bytes" where
  "shortname path = (if strncmp path (str ''user/'') 5 = 0 then drop 5 path else path)"

text \<open>The bytes of \<^verbatim>\<open>struct superblock\<close>.\<close>

definition enc_superblock :: "superblock \<Rightarrow> bytes" where
  "enc_superblock b = concat (map (\<lambda>w. nat_le 4 (unat w))
     [sb_magic b, sb_size b, sb_nblocks b, sb_ninodes b, sb_nlog b, sb_logstart b, sb_inodestart b, sb_bmapstart b])"

definition mkfs_file :: "bytes \<times> bytes list option \<Rightarrow> ('z mkfs_state_scheme, unit) K" where
  "mkfs_file = (\<lambda>(path, pieces).
     let name = shortname path in
     thenK (panic_if (of_char (CHR ''/'') \<in> set name) ''assert'')
     (case pieces of
        None \<Rightarrow> panicK ''open''
      | Some cs \<Rightarrow>
          bindK (mkfs_ialloc T_FILE) (\<lambda>inum.
          thenK (iappend ROOTINO (mkfs_dirent inum (if deref name = of_char (CHR ''_'') then tl name else name)))
          (forK cs (iappend inum)))))"

definition main_mkfs :: "(bytes \<times> bytes list option) list \<Rightarrow> ('z mkfs_state_scheme, unit) K" where
  "main_mkfs files =
     thenK (seqK [modifyK (\<lambda>s. s\<lparr>freeblock := of_nat nmeta\<rparr>),
                  forK [0..<FSSIZE] (\<lambda>i. wsect (of_nat i) (replicate BSIZE 0)),
                  wsect 1 (put_bytes (replicate BSIZE 0) 0 (enc_superblock mkfs_sb))])
     (bindK (mkfs_ialloc T_DIR) (\<lambda>rootino.
      thenK (seqK [panic_if (rootino \<noteq> ROOTINO) ''assert'',
                   iappend rootino (mkfs_dirent rootino (str ''.'')),
                   iappend rootino (mkfs_dirent rootino (str ''..'')),
                   forK files mkfs_file])
      (bindK (rinode rootino) (\<lambda>din.
       let off = (xint (i_size din) div BSIZE + 1) * BSIZE in
       thenK (winode rootino (din\<lparr>i_size := xint off\<rparr>))
       (bindK (getK freeblock) (\<lambda>b. mkfs_balloc (unat b)))))))"

section \<open>The image\<close>

lemma byte_at: "(ucast (drop_bit n (x :: u32)) :: u8) = of_nat (unat x div 2 ^ n mod 256)"
proof -
  have "unat (drop_bit n x) = unat x div 2 ^ n"
    by (simp only: unat_drop_bit_eq drop_bit_nat_def)
  then show ?thesis
    by (intro word_unat_eq_iff [THEN iffD2]) (simp only: unsigned_ucast_eq unsigned_of_nat take_bit_eq_mod, simp)
qed

lemma xint_id [simp]: "xint x = x"
proof -
  have "nat_le 4 v = [of_nat (v mod 256), of_nat (v div 2 ^ 8 mod 256), of_nat (v div 2 ^ 16 mod 256), of_nat (v div 2 ^ 24 mod 256)]" for v
  proof -
    have four: "(4 :: nat) = Suc (Suc (Suc (Suc 0)))" by simp
    show ?thesis
      unfolding four nat_le.simps by (simp add: div_mult2_eq [symmetric])
  qed
  then have "[ucast x, ucast (drop_bit 8 x), ucast (drop_bit 16 x), ucast (drop_bit 24 x)] = nat_le 4 (unat x)"
    using byte_at [of 0 x] byte_at [of 8 x] byte_at [of 16 x] byte_at [of 24 x] by simp
  moreover have "unat x mod 256 ^ 4 = unat x"
    using unat32_bound [of x] by simp
  ultimately show ?thesis
    by (simp only: xint_def le_nat_nat_le) simp
qed







end
