(* ===== verification/Umalloc.thy ===== *)
theory Umalloc
  imports User
begin












section \<open>The first allocation of a program\<close>









end
