(* ===== verification/TestProgs.thy ===== *)
theory TestProgs
  imports UserProgs
begin

text \<open>
  The test programs \<^verbatim>\<open>forktest\<close> and \<^verbatim>\<open>stressfs\<close>, and the random number generator of \<^verbatim>\<open>grind\<close>.
\<close>

section \<open>forktest\<close>

definition print_u :: "bytes \<Rightarrow> ('z io_scheme, unit) U" where
  "print_u s = thenU (writeU 1 (cstr s)) (retU ())"

text \<open>The first loop: \<open>k\<close> rounds are left; the value is the number of children.\<close>

primrec fork_many :: "nat \<Rightarrow> nat \<Rightarrow> ('z io_scheme, nat) U" where
  "fork_many 0 n = retU n"
| "fork_many (Suc k) n =
     bindU (call QFork) (\<lambda>pid.
     if pid < 0 then retU n
     else if pid = 0 then exitU 0
     else fork_many k (n + 1))"

definition forktest :: "('z io_scheme, unit) U" where
  "forktest =
     thenU (print_u (str ''fork test'' @ [newline]))
     (bindU (fork_many 1000 0) (\<lambda>n.
      thenU (whenU (n = 1000) (thenU (print_u (str ''fork claimed to work N times!'' @ [newline])) (exitU 1)))
      (thenU (forU [0..<n] (\<lambda>_.
         bindU (call QWait) (\<lambda>r. whenU (r < 0) (thenU (print_u (str ''wait stopped early'' @ [newline])) (exitU 1)))))
      (bindU (call QWait) (\<lambda>r.
       thenU (whenU (r \<noteq> - 1) (thenU (print_u (str ''wait got too many'' @ [newline])) (exitU 1)))
       (print_u (str ''fork test OK'' @ [newline])))))))"

definition main_forktest :: "('z io_scheme, unit) U" where
  "main_forktest = thenU forktest (exitU 0)"

section \<open>stressfs\<close>

text \<open>The loop that forks four times; the parent leaves it at once.  The value is \<^verbatim>\<open>i\<close>.\<close>

primrec stress_forks :: "nat \<Rightarrow> nat \<Rightarrow> ('z io_scheme, nat) U" where
  "stress_forks 0 i = retU i"
| "stress_forks (Suc k) i =
     bindU (call QFork) (\<lambda>pid. if 0 < pid then retU i else stress_forks k (i + 1))"

text \<open>A \<^verbatim>\<open>read\<close> overwrites the first bytes of the buffer.\<close>

definition main_stressfs :: "('z io_scheme, unit) U" where
  "main_stressfs =
     (let data = replicate 512 (of_char (CHR ''a'') :: u8) in
      thenU (printf_u (str ''stressfs starting'' @ [newline]) [])
      (bindU (stress_forks 4 0) (\<lambda>i.
       let path = str ''stressfs'' @ [of_char (CHR ''0'') + of_nat i] in
       thenU (printf_u (str ''write %d'' @ [newline]) [UInt (of_nat i)])
       (bindU (call (QOpen path (O_CREATE OR O_RDWR))) (\<lambda>fd.
        thenU (forU [0..<20] (\<lambda>_. thenU (writeU fd data) (retU ())))
        (thenU (closeU fd)
        (thenU (printf_u (str ''read'' @ [newline]) [])
        (bindU (call (QOpen path O_RDONLY)) (\<lambda>fd2.
         thenU (forU [0..<20] (\<lambda>_. thenU (readU fd2 512) (retU ())))
         (thenU (closeU fd2) (thenU (call QWait) (exitU 0))))))))))))"

section \<open>The random numbers of grind\<close>

text \<open>The arithmetic is on \<^verbatim>\<open>long\<close>; the lemma below shows that it stays far below its bounds.\<close>

definition do_rand :: "u64 \<Rightarrow> int \<times> u64" where
  "do_rand ctx =
     (let x = uint (ctx mod 0x7ffffffe) + 1;
          hi = x div 127773;
          lo = x mod 127773;
          x1 = 16807 * lo - 2836 * hi;
          x2 = (if x1 < 0 then x1 + 0x7fffffff else x1) - 1 in
      (x2, word_of_int x2))"

lemma lehmer_nonzero:
  fixes x :: int
  assumes "1 \<le> x" "x < 0x7fffffff"
  shows "(16807 * x) mod 0x7fffffff \<noteq> 0"
proof
  assume "(16807 * x) mod 0x7fffffff = 0"
  then obtain k where "16807 * x = 0x7fffffff * k"
    by auto
  then have "x = 0x7fffffff * (1407677000 * k - 11017 * x)"
    by (simp add: algebra_simps)
  then have "0x7fffffff dvd x"
    by (rule dvdI)
  then show False
    using assms zdvd_imp_le [of "0x7fffffff" x] by simp
qed

lemma do_rand_lehmer:
  fixes ctx :: u64
  defines "x \<equiv> uint (ctx mod 0x7ffffffe) + 1"
  shows "fst (do_rand ctx) = (16807 * x) mod 0x7fffffff - 1" "0 \<le> fst (do_rand ctx)" "fst (do_rand ctx) \<le> 0x7ffffffd"
proof -
  have x: "1 \<le> x" "x < 0x7fffffff"
    by (auto simp: x_def uint_mod)
  define hi lo where "hi = x div 127773" and "lo = x mod 127773"
  have bounds: "0 \<le> hi" "hi \<le> 16807" "0 \<le> lo" "lo \<le> 127772"
    using x by (auto simp: hi_def lo_def)
  have "x = 127773 * hi + lo"
    by (simp add: hi_def lo_def)
  then have "16807 * x = 0x7fffffff * hi + (16807 * lo - 2836 * hi)"
    by simp
  then have mod: "(16807 * x) mod 0x7fffffff = (16807 * lo - 2836 * hi) mod 0x7fffffff"
    by (simp only: mod_mult_self4)
  define y where "y = 16807 * lo - 2836 * hi"
  have "- 0x7fffffff < y" "y < 0x7fffffff"
    using bounds by (auto simp: y_def)
  moreover have "y mod 0x7fffffff = y + 0x7fffffff" if "- 0x7fffffff < y" "y < 0"
    using that mod_pos_pos_trivial [of "y + 0x7fffffff" "0x7fffffff"] by simp
  ultimately have "(if y < 0 then y + 0x7fffffff else y) = y mod 0x7fffffff"
    by (simp add: mod_pos_pos_trivial)
  moreover have "fst (do_rand ctx) = (if y < 0 then y + 0x7fffffff else y) - 1"
    by (simp only: do_rand_def Let_def fst_conv y_def hi_def lo_def x_def)
  ultimately show eq: "fst (do_rand ctx) = (16807 * x) mod 0x7fffffff - 1"
    by (simp only: mod y_def)
  have "0 \<le> (16807 * x) mod 0x7fffffff" "(16807 * x) mod 0x7fffffff < 0x7fffffff"
    by simp_all
  with lehmer_nonzero [OF x] show "0 \<le> fst (do_rand ctx)" "fst (do_rand ctx) \<le> 0x7ffffffd"
    unfolding eq by linarith+
qed

end
