(* ===== verification/Spec2Isabelle.thy ===== *)
theory Spec2Isabelle
  imports Trap Spinlocks VmProps Pipes ConsoleSpec FsRw UserSpec ShellSpec ProcSpec Mkfs Umalloc TestProgs
begin

text \<open>
  A model of xv6 for RISC-V, the kernel under \<^verbatim>\<open>src/kernel\<close>, the user programs under \<^verbatim>\<open>src/user\<close> and the
  image builder \<^verbatim>\<open>src/mkfs\<close>, with the theorems that make it correct.

  \<^bold>\<open>How the parts interact.\<close>  User programs reach the kernel by system calls (\<^verbatim>\<open>trap.c\<close>, \<^verbatim>\<open>syscall.c\<close>), which
  work on processes (\<^verbatim>\<open>proc.c\<close>), on their memory (\<^verbatim>\<open>vm.c\<close> over the pages of \<^verbatim>\<open>kalloc.c\<close>) and on files
  (\<^verbatim>\<open>sysfile.c\<close>, \<^verbatim>\<open>file.c\<close>, \<^verbatim>\<open>pipe.c\<close>, \<^verbatim>\<open>console.c\<close>).  Files are inodes (\<^verbatim>\<open>fs.c\<close>), whose blocks go through the
  write-ahead log (\<^verbatim>\<open>log.c\<close>) and the buffer cache (\<^verbatim>\<open>bio.c\<close>) to the disk (\<^verbatim>\<open>virtio_disk.c\<close>).  \<^verbatim>\<open>mkfs\<close> writes
  the first image.

  \<^bold>\<open>Kernel code\<close> is written in an outcome monad (\<open>Prelude\<close>): an operation returns, panics, or leaves its
  thread asleep on a channel.  The kernel state is a chain of extensible records, one per component:
  \<open>kern\<close>, \<open>kalloc_state\<close>, \<open>sleep_state\<close>, \<open>bio_state\<close>, \<open>log_state\<close>, \<open>fs_state\<close>, \<open>dev_state\<close>, \<open>file_state\<close>,
  \<open>proc_state\<close>, \<open>virt_state\<close>, \<open>trap_state\<close>.  An operation of one component applies unchanged to the state of
  every component above it.  Code between \<^verbatim>\<open>acquire\<close> and \<^verbatim>\<open>release\<close> is one step, which \<open>Spinlocks\<close> justifies;
  where a thread sleeps, the code is split, and what it does when it is woken is a definition of its own
  or a new call.  Machine integers are words of their width.

  \<^bold>\<open>User code\<close> (\<open>User\<close>) runs against the list of replies of the kernel and records its requests; a run ends
  with a value, with the end of the process, waiting for a reply, or in undefined behaviour.

  \<^bold>\<open>Foundations.\<close>
  \<^item> \<open>Prelude\<close>: the monad and its rules, little-endian integers in byte arrays, byte memory.
  \<^item> \<open>Layout\<close>: the constants and macros of \<^verbatim>\<open>param.h\<close>, \<^verbatim>\<open>memlayout.h\<close>, \<^verbatim>\<open>riscv.h\<close>, \<^verbatim>\<open>fs.h\<close>, \<^verbatim>\<open>stat.h\<close>, \<^verbatim>\<open>fcntl.h\<close>.
  \<^item> \<open>Strings\<close>: \<^verbatim>\<open>string.c\<close>, with \<^verbatim>\<open>memmove\<close> correct for blocks that overlap.
  \<^item> \<open>Kern\<close>: \<^verbatim>\<open>struct proc\<close>, locks as one thread sees them, \<^verbatim>\<open>sleep\<close>, \<^verbatim>\<open>wakeup\<close> and \<^verbatim>\<open>sched\<close>.

  \<^bold>\<open>Locks and memory.\<close>
  \<^item> \<open>Spinlocks\<close>: \<^verbatim>\<open>spinlock.c\<close> on several CPUs as a step relation; mutual exclusion, nesting of
    \<^verbatim>\<open>push_off\<close> and \<^verbatim>\<open>pop_off\<close>, and that the lock words implement the view of \<open>Kern\<close> (locale \<open>lock_view\<close>).
  \<^item> \<open>Sleeplocks\<close>: \<^verbatim>\<open>sleeplock.c\<close>.
  \<^item> \<open>Kalloc\<close>: \<^verbatim>\<open>kalloc.c\<close> over the free list in physical memory (locale \<open>page_allocator\<close>).
  \<^item> \<open>Vm\<close>: \<^verbatim>\<open>vm.c\<close>.  \<open>VmTree\<close> has the tree of page-table pages, \<open>VmSpec\<close> the function from addresses to entries
    it stands for, \<open>UserMem\<close> user memory byte by byte; \<open>VmProps\<close> shows that \<^verbatim>\<open>mappages\<close> and \<^verbatim>\<open>uvmunmap\<close> refine
    updates of this function and that \<^verbatim>\<open>copyin\<close>, \<^verbatim>\<open>copyinstr\<close> and \<^verbatim>\<open>copyout\<close> equal loops over bytes.

  \<^bold>\<open>Disk and files.\<close>
  \<^item> \<open>Bio\<close>, \<open>BioView\<close>: \<^verbatim>\<open>bio.c\<close>; the list of buffers as a permutation, and the blocks as the file system sees
    them, in the cache or on disk.
  \<^item> \<open>Log\<close>: \<^verbatim>\<open>log.c\<close>.  \<open>LogCommit\<close> has the disk writes of a commit, \<open>LogCrash\<close> what a crash leaves of them,
    \<open>LogSpec\<close> atomicity and durability across crashes in commit and in recovery.
  \<^item> \<open>Fs\<close>: \<^verbatim>\<open>fs.c\<close>.  \<open>FsTx\<close> runs it inside a transaction, \<open>FsAlloc\<close> shows that \<^verbatim>\<open>balloc\<close> and \<^verbatim>\<open>bfree\<close> implement a
    set of free blocks, \<open>FsFile\<close> treats \<^verbatim>\<open>bmap\<close> and the loops over blocks, and \<open>FsRw\<close> shows that \<^verbatim>\<open>readi\<close> and
    \<^verbatim>\<open>writei\<close> implement reading and splicing a list of bytes, within the log space an operation reserves.
  \<^item> \<open>Console\<close>: \<^verbatim>\<open>uart.c\<close>, \<^verbatim>\<open>console.c\<close>, \<^verbatim>\<open>printf.c\<close>.  \<open>RingBuf\<close> is the queue of the three ring buffers (locale \<open>fifo\<close>,
    interpreted for the pipe, the transmit buffer and the console); \<open>ConsoleSpec\<close> has the line editor, the
    order of output and the digits of \<^verbatim>\<open>printf\<close>.
  \<^item> \<open>File\<close>: \<^verbatim>\<open>file.c\<close>, \<^verbatim>\<open>pipe.c\<close>; \<open>Pipes\<close> shows that bytes arrive in order and which are lost.
  \<^item> \<open>Virtio\<close>: \<^verbatim>\<open>virtio_disk.c\<close>.

  \<^bold>\<open>Processes.\<close>
  \<^item> \<open>Proc\<close>: \<^verbatim>\<open>proc.c\<close>; \<open>ProcSpec\<close> shows that the scheduler runs every process that is woken, and a defect of
    \<^verbatim>\<open>kill(0)\<close>.  \<open>Exec\<close>: \<^verbatim>\<open>exec.c\<close>.  \<open>Sysfile\<close>: \<^verbatim>\<open>syscall.c\<close>, \<^verbatim>\<open>sysfile.c\<close>, \<^verbatim>\<open>sysproc.c\<close>.  \<open>Trap\<close>: \<^verbatim>\<open>trap.c\<close>, \<^verbatim>\<open>plic.c\<close>,
    \<^verbatim>\<open>main.c\<close>, \<^verbatim>\<open>start.c\<close>.

  \<^bold>\<open>User level.\<close>
  \<^item> \<open>User\<close>: \<^verbatim>\<open>ulib.c\<close>, \<^verbatim>\<open>printf.c\<close>.  \<open>Umalloc\<close>: \<^verbatim>\<open>umalloc.c\<close>.  \<open>Grep\<close>: the matcher of \<^verbatim>\<open>grep.c\<close> and the language of a
    pattern.  \<open>UserProgs\<close>: \<^verbatim>\<open>cat\<close>, \<^verbatim>\<open>echo\<close>, \<^verbatim>\<open>wc\<close>, \<^verbatim>\<open>grep\<close>, \<^verbatim>\<open>ls\<close>, \<^verbatim>\<open>ln\<close>, \<^verbatim>\<open>rm\<close>, \<^verbatim>\<open>mkdir\<close>, \<^verbatim>\<open>kill\<close>, \<^verbatim>\<open>sleep\<close>, \<^verbatim>\<open>pingpong\<close>,
    \<^verbatim>\<open>zombie\<close>, \<^verbatim>\<open>init\<close>; \<open>UserSpec\<close> shows that \<^verbatim>\<open>wc\<close> and \<^verbatim>\<open>grep\<close> do not depend on how a file is split.
  \<^item> \<open>Shell\<close>: \<^verbatim>\<open>sh.c\<close>; \<open>ShellSpec\<close> shows that the parser ends, that the strings of a command are words of the
    line, and what a line of words runs.  \<open>TestProgs\<close>: \<^verbatim>\<open>forktest.c\<close>, \<^verbatim>\<open>stressfs.c\<close>, \<^verbatim>\<open>do_rand\<close> of \<^verbatim>\<open>grind.c\<close>.
  \<^item> \<open>Mkfs\<close>: \<^verbatim>\<open>mkfs.c\<close>; the kernel reads its superblock and its bitmap as \<^verbatim>\<open>mkfs\<close> means them.

  \<^bold>\<open>Bounds and fuel.\<close>  The parser of the shell takes fuel: four calls for every byte of the line and five
  more, \<open>parse_fuel\<close>, are shown to be enough.  A loop of a user program makes a system call in every round,
  so it runs for at most as many rounds as there are replies (\<open>loopU_unfold\<close>).  The scans of \<^verbatim>\<open>bget\<close> follow
  the list of buffers for as many nodes as there are buffers, which reaches all of them.  The loops of \<^verbatim>\<open>malloc\<close> and
  \<^verbatim>\<open>free\<close> follow a list in memory and have no value where it is destroyed.  All other loops are recursions
  that end for every input.

  \<^bold>\<open>Not modelled.\<close>
  \<^item> Assembly (\<^verbatim>\<open>entry.S\<close>, \<^verbatim>\<open>swtch.S\<close>, \<^verbatim>\<open>kernelvec.S\<close>, \<^verbatim>\<open>trampoline.S\<close>, \<^verbatim>\<open>initcode.S\<close>) and the linker script: a switch of
    context is the end of the outcome \<open>Block\<close>, and the addresses of symbols are fields of the state.
  \<^item> The accessors of control registers in \<^verbatim>\<open>riscv.h\<close> are inline assembly; the registers the C code reads and
    writes are fields of the state.
  \<^item> \<^verbatim>\<open>ramdisk.c\<close> is not part of the build and refers to fields that \<^verbatim>\<open>struct buf\<close> does not have.
  \<^item> \<^verbatim>\<open>usertests.c\<close> and the driver loop of \<^verbatim>\<open>grind.c\<close> exercise the system calls and have no contract of their own.
  \<^item> In the buffer cache a transfer of a block is one step on an abstract disk; the descriptors and the ring of
    the driver are modelled by themselves in \<open>Virtio\<close>.
  \<^item> Scripts and the build.
\<close>

end
